(* ===== verification/Prelude.thy ===== *)
theory Prelude
  imports Main "HOL-Library.Word" "HOL-Library.List_Lexorder" "HOL-Library.Product_Lexorder"
begin

unbundle bit_operations_syntax

text \<open>
  Shared vocabulary of the skaidb development: bytes and machine integers, the little- and
  big-endian integer layouts of the Rust standard library, results of fallible code, the
  bounds-checked cursor read that every decoder of the code base is built from, and the
  ordered map (\<open>BTreeMap\<close>) as a key-sorted association list with its interface locale.
\<close>

section \<open>Bytes and integers\<close>

type_synonym byte = "8 word"
type_synonym bytes = "8 word list"
type_synonym u32 = "32 word"
type_synonym u64 = "64 word"

named_theorems codec_simps \<open>facts that evaluate an encoder or a decoder on a built buffer\<close>

text \<open>The number of values of \<open>usize\<close> on the 64-bit targets; \<open>checked_add\<close> fails beyond it.\<close>

abbreviation usize_bound :: nat where
  "usize_bound \<equiv> 18446744073709551616"

subsection \<open>Integer layouts\<close>

text \<open>\<open>to_le_bytes\<close>: the \<open>n\<close> low bytes of a word, least significant first.\<close>

fun le_bytes :: "nat \<Rightarrow> 'a::len word \<Rightarrow> bytes" where
  "le_bytes 0 w = []"
| "le_bytes (Suc n) w = ucast w # le_bytes n (drop_bit 8 w)"

text \<open>\<open>from_le_bytes\<close>.\<close>

fun from_le_bytes :: "bytes \<Rightarrow> 'a::len word" where
  "from_le_bytes [] = 0"
| "from_le_bytes (b # bs) = ucast b OR push_bit 8 (from_le_bytes bs)"

definition be_bytes :: "nat \<Rightarrow> 'a::len word \<Rightarrow> bytes" where
  "be_bytes n w = rev (le_bytes n w)"

definition from_be_bytes :: "bytes \<Rightarrow> 'a::len word" where
  "from_be_bytes bs = from_le_bytes (rev bs)"

lemma length_le_bytes [simp]: "length (le_bytes n w) = n"
  by (induction n arbitrary: w) auto

lemma length_be_bytes [simp]: "length (be_bytes n w) = n"
  by (simp add: be_bytes_def)

lemma le_bytes_eq_Nil_iff [simp]: "le_bytes n w = [] \<longleftrightarrow> n = 0"
  by (cases n) auto

lemma from_le_le_bytes:
  fixes w :: "'a::len word"
  shows "from_le_bytes (le_bytes n w) = take_bit (8 * n) w"
proof (induction n arbitrary: w)
  case 0
  then show ?case by simp
next
  case (Suc n)
  show ?case
    by (rule bit_word_eqI)
      (auto simp: Suc bit_simps not_less add.commute le_add_diff_inverse2 intro: ccontr)
qed

lemma from_le_le_bytes_full [simp, codec_simps]:
  fixes w :: "'a::len word"
  assumes "LENGTH('a) = 8 * n"
  shows "from_le_bytes (le_bytes n w) = w"
  using assms by (simp add: from_le_le_bytes flip: assms)

lemma from_be_be_bytes_full [simp, codec_simps]:
  fixes w :: "'a::len word"
  assumes "LENGTH('a) = 8 * n"
  shows "from_be_bytes (be_bytes n w) = w"
  using assms by (simp add: be_bytes_def from_be_bytes_def)

lemma be_bytes_Suc: "be_bytes (Suc n) w = ucast (drop_bit (8 * n) w) # be_bytes n w"
proof (induction n arbitrary: w)
  case 0
  then show ?case by (simp add: be_bytes_def)
next
  case (Suc n)
  have "be_bytes (Suc (Suc n)) w = be_bytes (Suc n) (drop_bit 8 w) @ [ucast w]"
    by (simp add: be_bytes_def)
  also have "\<dots> = ucast (drop_bit (8 * n) (drop_bit 8 w)) # be_bytes n (drop_bit 8 w) @ [ucast w]"
    by (simp add: Suc)
  also have "be_bytes n (drop_bit 8 w) @ [ucast w] = be_bytes (Suc n) w"
    by (simp add: be_bytes_def)
  finally show ?case by (simp add: algebra_simps)
qed

lemma unat_take_bit_mod: "unat (take_bit k x) = unat x mod 2 ^ k"
  by (simp add: unsigned_take_bit_eq take_bit_eq_mod [where ?'a = nat])

lemma unat_drop_bit_div: "unat (drop_bit k x) = unat x div 2 ^ k"
  by (simp add: unat_drop_bit_eq drop_bit_eq_div [where ?'a = nat])

lemma lex_digit:
  fixes a b c d m :: nat
  assumes "a < m" "b < m"
  shows "c < d \<or> c = d \<and> a < b \<longleftrightarrow> c * m + a < d * m + b"
proof (cases c d rule: linorder_cases)
  case less
  then have "c * m + m \<le> d * m" by (metis Suc_leI add.commute mult_Suc mult_le_mono1)
  with assms less show ?thesis by simp
next
  case greater
  then have "d * m + m \<le> c * m" by (metis Suc_leI add.commute mult_Suc mult_le_mono1)
  with assms greater show ?thesis by simp
qed simp

lemma be_bytes_less_iff_take_bit:
  fixes v w :: "'a::len word"
  assumes "8 * n \<le> LENGTH('a)"
  shows "be_bytes n v < be_bytes n w \<longleftrightarrow> take_bit (8 * n) v < take_bit (8 * n) w"
  using assms
proof (induction n)
  case 0
  then show ?case by (simp add: be_bytes_def)
next
  case (Suc n)
  define a b where "a = unat (take_bit (8*n) v)" and "b = unat (take_bit (8*n) w)"
  define c d where "c = unat (ucast (drop_bit (8*n) v) :: byte)" and "d = unat (ucast (drop_bit (8*n) w) :: byte)"
  have split: "unat (take_bit (8 * Suc n) x) = unat (ucast (drop_bit (8*n) x) :: byte) * 2 ^ (8*n) + unat (take_bit (8*n) x)" for x :: "'a word"
  proof -
    have "unat x mod 2 ^ (8 * n + 8) = 2 ^ (8 * n) * (unat x div 2 ^ (8 * n) mod 2 ^ 8) + unat x mod 2 ^ (8 * n)"
      by (simp only: power_add mod_mult2_eq)
    then show ?thesis
      by (simp add: unat_take_bit_mod unsigned_ucast_eq take_bit_eq_mod [where ?'a = nat] unat_drop_bit_div algebra_simps)
  qed
  have ab: "a < 2 ^ (8*n)" "b < 2 ^ (8*n)"
    by (simp_all add: a_def b_def unat_take_bit_mod)
  have IH: "be_bytes n v < be_bytes n w \<longleftrightarrow> a < b" using Suc by (simp add: a_def b_def word_less_nat_alt)
  have eq: "ucast (drop_bit (8*n) v) = (ucast (drop_bit (8*n) w) :: byte) \<longleftrightarrow> c = d"
    by (simp only: c_def d_def word_unat_eq_iff)
  have "be_bytes (Suc n) v < be_bytes (Suc n) w \<longleftrightarrow> c < d \<or> c = d \<and> a < b"
    by (simp add: be_bytes_Suc eq IH word_less_nat_alt [where ?'a = 8] flip: c_def d_def)
  also have "\<dots> \<longleftrightarrow> c * 2 ^ (8*n) + a < d * 2 ^ (8*n) + b"
    using ab by (rule lex_digit)
  finally show ?case by (simp only: word_less_nat_alt split a_def b_def c_def d_def)
qed

lemma be_bytes_less_iff:
  fixes v w :: "'a::len word"
  assumes "LENGTH('a) = 8 * n"
  shows "be_bytes n v < be_bytes n w \<longleftrightarrow> v < w"
  using assms by (simp add: be_bytes_less_iff_take_bit flip: assms)

lemma xor_right_cancel: "(a :: 'a::len word) XOR c = b XOR c \<longleftrightarrow> a = b"
  by (auto simp: bit_eq_iff bit_simps)

lemma xor_left_cancel: "(c :: 'a::len word) XOR a = c XOR b \<longleftrightarrow> a = b"
  by (auto simp: bit_eq_iff bit_simps)

lemma unat_of_nat_u32: "n < 4294967296 \<Longrightarrow> unat (of_nat n :: u32) = n"
  by (simp add: unat_of_nat)

lemma unat_of_nat_u64: "n < 18446744073709551616 \<Longrightarrow> unat (of_nat n :: u64) = n"
  by (simp add: unat_of_nat)

section \<open>Results of fallible code\<close>

text \<open>
  \<open>Result\<close> is a sum, \<open>Inl\<close> the error; \<open>rbind\<close> is the \<open>?\<close> operator: the error leaves the
  function, the value goes on.
\<close>

fun rbind :: "'e + 'a \<Rightarrow> ('a \<Rightarrow> 'e + 'b) \<Rightarrow> 'e + 'b" where
  "rbind (Inl e) f = Inl e"
| "rbind (Inr x) f = f x"

lemma rbind_eq_Inr_iff: "rbind m f = Inr y \<longleftrightarrow> (\<exists>x. m = Inr x \<and> f x = Inr y)"
  by (cases m) auto

lemma rbind_cong [fundef_cong]:
  assumes "m = m'" and "\<And>x. m' = Inr x \<Longrightarrow> f x = g x"
  shows "rbind m f = rbind m' g"
  using assms by (cases m') auto

lemma rbind_assoc: "rbind (rbind m f) g = rbind m (\<lambda>x. rbind (f x) g)"
  by (cases m) simp_all

fun is_ok :: "'e + 'a \<Rightarrow> bool" where
  "is_ok (Inl _) = False"
| "is_ok (Inr _) = True"

text \<open>
  Code that may also panic returns \<open>None\<close> for the panic; \<open>pbind\<close> is \<open>?\<close> there, and \<open>or_panic\<close> an
  operation that has no error but a panic.
\<close>

fun pbind :: "('e + 'a) option \<Rightarrow> ('a \<Rightarrow> ('e + 'b) option) \<Rightarrow> ('e + 'b) option" where
  "pbind None f = None"
| "pbind (Some (Inl e)) f = Some (Inl e)"
| "pbind (Some (Inr x)) f = f x"

abbreviation or_panic :: "'a option \<Rightarrow> ('e + 'a) option" where
  "or_panic \<equiv> map_option Inr"

lemma pbind_Inr_iff: "pbind m f = Some (Inr y) \<longleftrightarrow> (\<exists>x. m = Some (Inr x) \<and> f x = Some (Inr y))"
  by (cases "(m, f)" rule: pbind.cases) auto

lemma pbind_assoc: "pbind (pbind m f) g = pbind m (\<lambda>x. pbind (f x) g)"
  by (cases "(m, f)" rule: pbind.cases) auto

lemma pbind_cong [fundef_cong]:
  assumes "m = m'" and "\<And>x. m' = Some (Inr x) \<Longrightarrow> f x = g x"
  shows "pbind m f = pbind m' g"
  using assms by (cases "(m', f)" rule: pbind.cases) auto

section \<open>The bounds-checked cursor read\<close>

text \<open>
  Every decoder reads through the same step: \<open>pos.checked_add(n)\<close>, then
  \<open>buf.get(pos..end)\<close>, then \<open>pos = end\<close>. The two errors are arguments, since the
  decoders of the crates raise their own.
\<close>

definition cur_take :: "'e \<Rightarrow> 'e \<Rightarrow> bytes \<Rightarrow> nat \<Rightarrow> nat \<Rightarrow> 'e + bytes \<times> nat" where
  "cur_take overflow short buf pos n =
     (if pos + n \<ge> usize_bound then Inl overflow
      else if pos + n \<le> length buf then Inr (take n (drop pos buf), pos + n)
      else Inl short)"

lemma cur_take_append [codec_simps]:
  assumes "length pre + length mid < usize_bound" and "pos = length pre" and "n = length mid"
  shows "cur_take e1 e2 (pre @ mid @ post) pos n = Inr (mid, pos + n)"
  using assms by (simp add: cur_take_def)

lemma cur_take_InrD:
  assumes "cur_take e1 e2 buf pos n = Inr (xs, p)"
  shows "p = pos + n" and "p \<le> length buf" and "xs = take n (drop pos buf)" and "length xs = n"
  using assms by (auto simp: cur_take_def split: if_splits)

lemma cur_take_short:
  assumes "length buf < pos + n" and "pos + n < usize_bound"
  shows "cur_take e1 e2 buf pos n = Inl e2"
  using assms by (simp add: cur_take_def)

text \<open>The loop \<open>for _ in 0..n { out.push(dec(cur)?) }\<close>.\<close>

fun dec_times :: "(bytes \<Rightarrow> nat \<Rightarrow> 'e + 'a \<times> nat) \<Rightarrow> nat \<Rightarrow> bytes \<Rightarrow> nat \<Rightarrow> 'e + 'a list \<times> nat" where
  "dec_times dec 0 buf pos = Inr ([], pos)"
| "dec_times dec (Suc n) buf pos =
     rbind (dec buf pos) (\<lambda>(x, p). rbind (dec_times dec n buf p) (\<lambda>(xs, q). Inr (x # xs, q)))"

subsection \<open>Interfaces of the byte formats\<close>

text \<open>
  What a reader of an encoded value promises: at the place where the encoding of \<open>x\<close> was written it
  returns its view of \<open>x\<close> (all of it, only the key, only the stamp) and leaves the cursor just past
  it, whatever stands before and after. A codec is a reader that gives back the value itself. The
  loops over encoded sequences are proved once from it.
\<close>

locale cursor_view =
  fixes enc :: "'a \<Rightarrow> bytes"
    and dec :: "bytes \<Rightarrow> nat \<Rightarrow> 'e + 'b \<times> nat"
    and wf :: "'a \<Rightarrow> bool"
    and view :: "'a \<Rightarrow> 'b"
  assumes dec_enc: "wf x \<Longrightarrow> length (pre @ enc x @ post) < usize_bound \<Longrightarrow>
      dec (pre @ enc x @ post) (length pre) = Inr (view x, length pre + length (enc x))"
    and enc_nonempty: "wf x \<Longrightarrow> enc x \<noteq> []"
begin

lemma dec_enc_at:
  assumes "wf x" and "buf = pre @ enc x @ post" and "pos = length pre" and "length buf < usize_bound"
  shows "dec buf pos = Inr (view x, pos + length (enc x))"
  using assms dec_enc by simp

lemma dec_times_enc:
  assumes "\<forall>x \<in> set xs. wf x" and "buf = pre @ concat (map enc xs) @ post" and "pos = length pre"
    and "length buf < usize_bound"
  shows "dec_times dec (length xs) buf pos = Inr (map view xs, pos + length (concat (map enc xs)))"
  using assms
proof (induction xs arbitrary: pre pos)
  case Nil
  then show ?case by simp
next
  case (Cons x xs)
  have "dec buf pos = Inr (view x, pos + length (enc x))"
    using Cons.prems by (intro dec_enc_at [of _ _ pre "concat (map enc xs) @ post"]) auto
  moreover have "dec_times dec (length xs) buf (pos + length (enc x))
      = Inr (map view xs, pos + length (enc x) + length (concat (map enc xs)))"
    using Cons.prems by (intro Cons.IH [of "pre @ enc x"]) auto
  ultimately show ?case by simp
qed

lemma length_le_concat_enc: "\<forall>x \<in> set xs. wf x \<Longrightarrow> length xs \<le> length (concat (map enc xs))"
proof (induction xs)
  case (Cons x xs)
  then have "enc x \<noteq> []" using enc_nonempty by simp
  then have "1 \<le> length (enc x)" by (simp add: Suc_le_eq)
  with Cons show ?case by simp
qed simp

lemma enc_prefix_free_view:
  assumes "wf x" "wf y" "enc x @ r = enc y @ s" "length (enc x @ r) < usize_bound"
  shows "view x = view y \<and> r = s"
proof -
  have "dec (enc x @ r) 0 = Inr (view x, length (enc x))"
    using dec_enc [of x "[]" r] assms by simp
  moreover have "dec (enc x @ r) 0 = Inr (view y, length (enc y))"
    using dec_enc [of y "[]" s] assms by simp
  ultimately show ?thesis using assms by simp
qed

end

locale cursor_codec = cursor_view enc dec wf "\<lambda>x. x"
  for enc :: "'a \<Rightarrow> bytes" and dec :: "bytes \<Rightarrow> nat \<Rightarrow> 'e + 'a \<times> nat" and wf :: "'a \<Rightarrow> bool"
begin

lemma enc_prefix_free:
  assumes "wf x" "wf y" "enc x @ r = enc y @ s" "length (enc x @ r) < usize_bound"
  shows "x = y \<and> r = s"
  using enc_prefix_free_view [OF assms] by simp

end

section \<open>Lists\<close>

lemma find_SomeE:
  assumes "find P xs = Some x"
  obtains ys zs where "xs = ys @ x # zs" "P x" "\<forall>y \<in> set ys. \<not> P y"
  using assms
proof (induction xs arbitrary: thesis)
  case (Cons a xs)
  show ?case
  proof (cases "P a")
    case True
    then show ?thesis using Cons.prems(1) [of "[]" xs] Cons.prems(2) by simp
  next
    case False
    then obtain ys zs where "xs = ys @ x # zs" "P x" "\<forall>y \<in> set ys. \<not> P y"
      using Cons.IH Cons.prems(2) by auto
    then show ?thesis using Cons.prems(1) [of "a # ys" zs] False by simp
  qed
qed simp

lemma length_le_concat: "\<forall>g \<in> set gs. g \<noteq> [] \<Longrightarrow> length gs \<le> length (concat gs)"
proof (induction gs)
  case (Cons g gs)
  then have "1 \<le> length g" by (cases g) auto
  with Cons show ?case by simp
qed simp

section \<open>Ordered maps\<close>

text \<open>
  A \<open>BTreeMap\<close> is its in-order contents: an association list whose keys increase strictly.
  \<open>bt_ok\<close> is that invariant.
\<close>

type_synonym ('k, 'v) btree = "('k \<times> 'v) list"

abbreviation bt_ok :: "('k::linorder, 'v) btree \<Rightarrow> bool" where
  "bt_ok m \<equiv> sorted_wrt (<) (map fst m)"

fun bt_insert :: "'k::linorder \<Rightarrow> 'v \<Rightarrow> ('k, 'v) btree \<Rightarrow> ('k, 'v) btree" where
  "bt_insert k v [] = [(k, v)]"
| "bt_insert k v (kv # m) =
     (if fst kv < k then kv # bt_insert k v m
      else if fst kv = k then (k, v) # m
      else (k, v) # kv # m)"

definition bt_remove :: "'k \<Rightarrow> ('k, 'v) btree \<Rightarrow> ('k, 'v) btree" where
  "bt_remove k m = filter (\<lambda>kv. fst kv \<noteq> k) m"

lemma set_bt_insert: "bt_ok m \<Longrightarrow> set (bt_insert k v m) = insert (k, v) {kv \<in> set m. fst kv \<noteq> k}"
  by (induction m) (auto split: if_splits)

lemma keys_bt_insert: "fst ` set (bt_insert k v m) = insert k (fst ` set m)"
  by (induction m) auto

lemma bt_ok_insert [simp]: "bt_ok m \<Longrightarrow> bt_ok (bt_insert k v m)"
proof (induction m)
  case (Cons kv m)
  have "fst kv < x" if "fst kv < k" "x \<in> fst ` set (bt_insert k v m)" for x
    using that Cons.prems by (auto simp: keys_bt_insert)
  with Cons show ?case by auto
qed simp

lemma map_of_bt_insert [simp]: "map_of (bt_insert k v m) = (map_of m)(k \<mapsto> v)"
  by (induction m) (auto simp: fun_eq_iff)

lemma map_of_bt_remove [simp]: "map_of (bt_remove k m) = (map_of m)(k := None)"
  by (induction m) (auto simp: bt_remove_def fun_eq_iff)

lemma bt_ok_filter [simp]: "bt_ok m \<Longrightarrow> bt_ok (filter P m)"
  by (induction m) auto

lemma bt_ok_remove [simp]: "bt_ok m \<Longrightarrow> bt_ok (bt_remove k m)"
  by (simp add: bt_remove_def)

lemma bt_ok_distinct: "bt_ok m \<Longrightarrow> distinct (map fst m)"
  by (simp add: strict_sorted_iff)

lemma bt_ok_map_of_iff: "bt_ok m \<Longrightarrow> map_of m k = Some v \<longleftrightarrow> (k, v) \<in> set m"
  by (simp add: bt_ok_distinct)

lemma bt_from_keys: "distinct (map fst m) \<Longrightarrow> map (\<lambda>k. (k, the (map_of m k))) (map fst m) = m"
  by (auto intro!: map_idI simp: map_of_eq_Some_iff [THEN iffD2])

lemma bt_eqI:
  assumes "bt_ok m" "bt_ok m'" "map_of m = map_of m'"
  shows "m = m'"
proof -
  have "fst ` set m = fst ` set m'" using assms(3) by (metis dom_map_of_conv_image_fst)
  then have "map fst m = map fst m'" using assms(1,2) strict_sorted_equal by (metis image_set)
  then have "map (\<lambda>k. (k, the (map_of m k))) (map fst m) = map (\<lambda>k. (k, the (map_of m' k))) (map fst m')"
    by (simp only: assms(3))
  then show ?thesis using assms(1,2) by (simp only: bt_ok_distinct bt_from_keys)
qed

lemma bt_ok_Cons_less: "bt_ok (e # rest) \<Longrightarrow> x \<in> set rest \<Longrightarrow> fst e < fst x"
  by simp

lemma bt_ok_append_iff:
  "bt_ok (xs @ ys) \<longleftrightarrow> bt_ok xs \<and> bt_ok ys \<and> (\<forall>x \<in> set xs. \<forall>y \<in> set ys. fst x < fst y)"
  by (auto simp: sorted_wrt_append)

lemma bt_ok_append_less: "bt_ok (xs @ ys @ zs) \<Longrightarrow> x \<in> set xs \<Longrightarrow> y \<in> set ys \<Longrightarrow> fst x < fst y"
  by (simp add: sorted_wrt_append)

lemma bt_ok_Cons_ge: "bt_ok (e # rest) \<Longrightarrow> x \<in> set (e # rest) \<Longrightarrow> fst e \<le> fst x"
  by (auto intro: order_less_imp_le)

lemma map_of_append_disjoint:
  assumes "\<forall>x \<in> set xs. fst x \<noteq> k" "\<forall>x \<in> set zs. fst x \<noteq> k"
  shows "map_of (xs @ ys @ zs) k = map_of ys k"
proof -
  have "map_of xs k = None" "map_of zs k = None" using assms by (auto simp: map_of_eq_None_iff)
  then show ?thesis by (simp add: map_add_def split: option.split)
qed

subsection \<open>Interface of an ordered map\<close>

locale ordered_map =
  fixes lookup :: "'m \<Rightarrow> 'k::linorder \<Rightarrow> 'v option"
    and ins :: "'k \<Rightarrow> 'v \<Rightarrow> 'm \<Rightarrow> 'm"
    and del :: "'k \<Rightarrow> 'm \<Rightarrow> 'm"
    and inorder :: "'m \<Rightarrow> ('k \<times> 'v) list"
    and inv :: "'m \<Rightarrow> bool"
  assumes lookup_ins: "inv m \<Longrightarrow> lookup (ins k v m) = (lookup m)(k \<mapsto> v)"
    and lookup_del: "inv m \<Longrightarrow> lookup (del k m) = (lookup m)(k := None)"
    and lookup_inorder: "inv m \<Longrightarrow> lookup m = map_of (inorder m)"
    and inorder_sorted: "inv m \<Longrightarrow> bt_ok (inorder m)"
    and inv_ins: "inv m \<Longrightarrow> inv (ins k v m)"
    and inv_del: "inv m \<Longrightarrow> inv (del k m)"
begin

text \<open>A loop of insertions: the last binding of a key wins, other keys keep their value.\<close>

lemma inv_ins_all: "inv m \<Longrightarrow> inv (fold (\<lambda>(k, v). ins k v) kvs m)"
  by (induction kvs arbitrary: m) (auto simp: inv_ins)

lemma lookup_ins_all: "inv m \<Longrightarrow> lookup (fold (\<lambda>(k, v). ins k v) kvs m) = lookup m ++ map_of (rev kvs)"
  by (induction kvs arbitrary: m) (auto simp: inv_ins lookup_ins map_add_def fun_eq_iff split: option.splits)

lemma inorder_ins: "inv m \<Longrightarrow> inorder (ins k v m) = bt_insert k v (inorder m)"
  by (rule bt_eqI) (simp_all add: inv_ins inorder_sorted lookup_inorder [symmetric] lookup_ins)

text \<open>Re-inserting the in-order contents of a map into an empty one rebuilds it.\<close>

lemma inorder_rebuild:
  assumes "inv e" "inorder e = []" "bt_ok kvs"
  shows "inorder (fold (\<lambda>(k, v). ins k v) kvs e) = kvs"
proof (rule bt_eqI)
  have "distinct (map fst (rev kvs))" using bt_ok_distinct [OF assms(3)] by (simp flip: rev_map)
  then have "map_of (rev kvs) = map_of kvs"
    using bt_ok_distinct [OF assms(3)] by (intro map_of_eqI) (auto simp: map_of_eq_Some_iff simp flip: rev_map)
  then show "map_of (inorder (fold (\<lambda>(k, v). ins k v) kvs e)) = map_of kvs"
    using assms(1,2) by (simp add: lookup_ins_all inv_ins_all flip: lookup_inorder) (simp add: lookup_inorder)
qed (use assms inorder_sorted inv_ins_all in simp_all)

end

interpretation bt: ordered_map map_of bt_insert bt_remove "\<lambda>m. m" bt_ok
  by unfold_locales simp_all

end
