(* ===== verification/Hlc.thy ===== *)
theory Hlc
  imports Prelude
begin

text \<open>
  Hybrid logical clocks (\<open>crates/skaidb-storage/src/hlc.rs\<close>): the version stamp \<open>Hlc\<close> with its
  derived order, its 12-byte layout, and the clock that generates and observes stamps. The wall
  clock is an argument. \<open>logical + 1\<close> is a \<open>u32\<close> addition: it wraps in the release profile the
  workspace builds with, and the theorems carry the bound under which it does not.
\<close>

section \<open>Stamps\<close>

datatype hlc = Hlc (physical: u64) (logical: u32)

instantiation hlc :: linorder
begin

definition less_eq_hlc :: "hlc \<Rightarrow> hlc \<Rightarrow> bool" where
  "a \<le> b \<longleftrightarrow> physical a < physical b \<or> physical a = physical b \<and> logical a \<le> logical b"

definition less_hlc :: "hlc \<Rightarrow> hlc \<Rightarrow> bool" where
  "a < b \<longleftrightarrow> physical a < physical b \<or> physical a = physical b \<and> logical a < logical b"

instance
  by standard (auto simp: less_eq_hlc_def less_hlc_def intro: hlc.expand)

end

definition hlc_MIN :: hlc where "hlc_MIN = Hlc 0 0"

definition hlc_MAX :: hlc where "hlc_MAX = Hlc (-1) (-1)"

lemma hlc_le_MAX [simp]: "h \<le> hlc_MAX"
  using word_order.extremum [of "physical h"] word_order.extremum [of "logical h"]
  by (auto simp: hlc_MAX_def less_eq_hlc_def le_less)

lemma hlc_MAX_not_less [simp]: "\<not> hlc_MAX < h"
  by (simp add: not_less)

lemma hlc_MIN_le [simp]: "hlc_MIN \<le> h"
  using word_zero_le [of "physical h"] word_zero_le [of "logical h"]
  by (auto simp: hlc_MIN_def less_eq_hlc_def le_less)

definition hlc_to_bytes :: "hlc \<Rightarrow> bytes" where
  "hlc_to_bytes h = be_bytes 8 (physical h) @ be_bytes 4 (logical h)"

definition hlc_from_bytes :: "bytes \<Rightarrow> hlc" where
  "hlc_from_bytes bs = Hlc (from_be_bytes (take 8 bs)) (from_be_bytes (drop 8 bs))"

lemma length_hlc_to_bytes [simp]: "length (hlc_to_bytes h) = 12"
  by (simp add: hlc_to_bytes_def)

lemma hlc_from_to_bytes [simp, codec_simps]: "hlc_from_bytes (hlc_to_bytes h) = h"
  by (cases h) (simp add: hlc_to_bytes_def hlc_from_bytes_def)

lemma append_less_append_iff:
  fixes a b c d :: "'a::linorder list"
  assumes "length a = length b"
  shows "a @ c < b @ d \<longleftrightarrow> a < b \<or> a = b \<and> c < d"
  using assms by (induction a b rule: list_induct2) auto

lemma be_bytes_inj:
  fixes v w :: "'a::len word"
  assumes "LENGTH('a) = 8 * n"
  shows "be_bytes n v = be_bytes n w \<longleftrightarrow> v = w"
  using assms by (metis from_be_be_bytes_full)

lemma hlc_to_bytes_less_iff: "hlc_to_bytes a < hlc_to_bytes b \<longleftrightarrow> a < b"
  by (simp add: hlc_to_bytes_def append_less_append_iff be_bytes_less_iff be_bytes_inj less_hlc_def)

section \<open>The clock\<close>

record hlc_clock =
  last_hlc :: hlc

definition hlc_clock_new :: hlc_clock where
  "hlc_clock_new = \<lparr>last_hlc = hlc_MIN\<rparr>"

definition advance :: "hlc \<Rightarrow> u64 \<Rightarrow> hlc" where
  "advance lst wall =
     (if wall > physical lst then Hlc wall 0 else Hlc (physical lst) (logical lst + 1))"

text \<open>\<open>SystemTime::now().duration_since(UNIX_EPOCH)\<close> fails for a clock before the epoch.\<close>

definition physical_now_ms :: "nat option \<Rightarrow> u64" where
  "physical_now_ms since_epoch = (case since_epoch of Some ms \<Rightarrow> of_nat ms | None \<Rightarrow> 0)"

definition clock_now :: "u64 \<Rightarrow> hlc_clock \<Rightarrow> hlc_clock \<times> hlc" where
  "clock_now wall c = (let nxt = advance (last_hlc c) wall in (c\<lparr>last_hlc := nxt\<rparr>, nxt))"

definition clock_peek :: "hlc_clock \<Rightarrow> hlc" where
  "clock_peek c = last_hlc c"

definition clock_observe :: "u64 \<Rightarrow> hlc \<Rightarrow> hlc_clock \<Rightarrow> hlc_clock \<times> hlc" where
  "clock_observe wall remote c =
     (let base = max (last_hlc c) remote; nxt = advance base wall in (c\<lparr>last_hlc := nxt\<rparr>, nxt))"

lemma advance_greater:
  assumes "logical h \<noteq> - 1"
  shows "h < advance h wall"
proof (cases "wall > physical h")
  case False
  have "1 + logical h \<noteq> 0" using assms by (metis add_eq_0_iff)
  then have "logical h < logical h + 1" by (simp add: word_less_nat_alt unatSuc add.commute)
  with False show ?thesis by (simp add: advance_def less_hlc_def)
qed (simp add: advance_def less_hlc_def)

lemma advance_logical: "unat (logical (advance h wall)) \<le> Suc (unat (logical h))"
  using mod_less_eq_dividend [of "Suc (unat (logical h))" "2 ^ 32"]
  by (simp add: advance_def unat_word_ariths)

subsection \<open>Runs of the clock\<close>

datatype clock_op = ClockNow u64 | ClockObserve hlc u64

fun clock_step :: "clock_op \<Rightarrow> hlc_clock \<Rightarrow> hlc_clock \<times> hlc" where
  "clock_step (ClockNow wall) c = clock_now wall c"
| "clock_step (ClockObserve remote wall) c = clock_observe wall remote c"

fun clock_run :: "clock_op list \<Rightarrow> hlc_clock \<Rightarrow> hlc list" where
  "clock_run [] c = []"
| "clock_run (e # es) c = (case clock_step e c of (c', h) \<Rightarrow> h # clock_run es c')"

text \<open>The stamps an operation has to stay above: those observed before or with it.\<close>

fun observed :: "clock_op \<Rightarrow> hlc" where
  "observed (ClockNow _) = hlc_MIN"
| "observed (ClockObserve remote _) = remote"

lemma clock_step_last: "clock_step e c = (c', h) \<Longrightarrow> last_hlc c' = h"
  by (cases e) (auto simp: clock_now_def clock_observe_def Let_def)

lemma clock_step_advances:
  assumes "clock_step e c = (c', h)" "unat (logical (last_hlc c)) \<le> b"
    "unat (logical (observed e)) \<le> b" "Suc b < 2 ^ 32"
  shows "last_hlc c < h" and "observed e < h" and "unat (logical h) \<le> Suc b"
proof -
  define base where "base = max (last_hlc c) (observed e)"
  obtain wall where h: "h = advance base wall"
    using assms(1) by (cases e) (auto simp: base_def clock_now_def clock_observe_def Let_def max.absorb1)
  have b: "unat (logical base) \<le> b" using assms(2,3) by (simp add: base_def max_def)
  then have "logical base \<noteq> - 1" using assms(4) by (auto simp: unsigned_minus_1_eq_mask mask_eq_exp_minus_1)
  then have "base < h" by (simp add: h advance_greater)
  then show "last_hlc c < h" "observed e < h" by (simp_all add: base_def)
  show "unat (logical h) \<le> Suc b" using advance_logical [of base wall] b h by simp
qed

lemma clock_run_monotone_aux:
  assumes "unat (logical (last_hlc c)) \<le> b" "\<forall>e \<in> set es. unat (logical (observed e)) \<le> b"
    "b + length es < 2 ^ 32"
  shows "sorted_wrt (<) (last_hlc c # clock_run es c) \<and>
    (\<forall>i < length es. \<forall>j \<le> i. observed (es ! j) < clock_run es c ! i)"
  using assms
proof (induction es arbitrary: c b)
  case (Cons e es)
  obtain c' h where s: "clock_step e c = (c', h)" by force
  note adv = clock_step_advances [OF s, of b]
  have h: "last_hlc c < h" "observed e < h" "unat (logical h) \<le> Suc b"
    using adv Cons.prems by auto
  have "last_hlc c' = h" using s by (rule clock_step_last)
  then have IH: "sorted_wrt (<) (h # clock_run es c')"
    "\<forall>i < length es. \<forall>j \<le> i. observed (es ! j) < clock_run es c' ! i"
    using Cons.IH [of c' "Suc b"] Cons.prems h le_SucI by auto
  have len: "length (clock_run es c') = length es"
    by (induction es arbitrary: c') (auto split: prod.splits)
  have "observed ((e # es) ! j) < (h # clock_run es c') ! i" if "i < Suc (length es)" "j \<le> i" for i j
  proof (cases i)
    case (Suc i')
    then have "h < clock_run es c' ! i'" using IH(1) that(1) len by simp
    then show ?thesis using h IH(2) Suc that by (cases j) auto
  qed (use h that in simp)
  moreover have "last_hlc c < x" if "x \<in> set (clock_run es c')" for x
    using IH(1) h(1) that by auto
  ultimately show ?case using s IH(1) h(1) by auto
qed simp

text \<open>The counter is a \<open>u32\<close> and \<open>logical + 1\<close> wraps: at its last value the clock steps back.\<close>

lemma clock_now_wraps: "snd (clock_now 5 \<lparr>last_hlc = Hlc 5 0xFFFFFFFF\<rparr>) = Hlc 5 0"
  by (simp add: clock_now_def advance_def Let_def)

section \<open>Properties\<close>

text \<open>
  C17: the stamps of one clock increase strictly over any sequence of local events and observed
  remote stamps, and each is above every remote stamp observed up to then, as long as the logical
  counters in play leave room for the number of events (the counter is 32 bits wide).
\<close>

theorem clock_run_monotone:
  assumes "unat (logical (last_hlc c)) \<le> b"
    and "\<forall>e \<in> set es. unat (logical (observed e)) \<le> b"
    and "b + length es < 2 ^ 32"
  shows "sorted_wrt (<) (last_hlc c # clock_run es c)
    \<and> (\<forall>i < length es. \<forall>j \<le> i. observed (es ! j) < clock_run es c ! i)"
  using assms by (rule clock_run_monotone_aux)

theorem clock_run_monotone_witness:
  "sorted_wrt (<) (last_hlc hlc_clock_new #
     clock_run [ClockNow 5, ClockObserve (Hlc 9 3) 5, ClockNow 7] hlc_clock_new)"
  using clock_run_monotone [of hlc_clock_new 3 "[ClockNow 5, ClockObserve (Hlc 9 3) 5, ClockNow 7]"]
  by (simp add: hlc_clock_new_def hlc_MIN_def)

text \<open>
  C19: the 12 byte form of a stamp decodes to the stamp, and comparing the byte strings compares
  the stamps, which is what lets an encoded stamp be part of an ordered key.
\<close>

theorem hlc_bytes_order:
  "hlc_from_bytes (hlc_to_bytes a) = a \<and> (hlc_to_bytes a < hlc_to_bytes b \<longleftrightarrow> a < b)"
  by (simp add: hlc_from_to_bytes hlc_to_bytes_less_iff)

end
