(* ===== verification/Memtable.thy ===== *)
theory Memtable
  imports Hlc
begin

text \<open>
  The multi-version write buffer (\<open>crates/skaidb-storage/src/memtable.rs\<close>). The map is keyed by
  \<open>(user key, Reverse(hlc))\<close>, so the newest version of a key comes first; every reader below is
  the code's loop over that order. The lemmas reduce each of them to two notions: the newest
  visible version of a key, and the list of newest versions in key order.
\<close>

section \<open>State and operations\<close>

datatype 'a reverse = Reverse (unreverse: 'a)

instantiation reverse :: (linorder) linorder
begin

definition less_eq_reverse :: "'a reverse \<Rightarrow> 'a reverse \<Rightarrow> bool" where
  "a \<le> b \<longleftrightarrow> unreverse b \<le> unreverse a"

definition less_reverse :: "'a reverse \<Rightarrow> 'a reverse \<Rightarrow> bool" where
  "a < b \<longleftrightarrow> unreverse b < unreverse a"

instance
  by standard (auto simp: less_eq_reverse_def less_reverse_def intro: reverse.expand)

end

lemma Reverse_le [simp]: "Reverse a \<le> Reverse b \<longleftrightarrow> b \<le> a"
  by (simp add: less_eq_reverse_def)

lemma Reverse_less [simp]: "Reverse a < Reverse b \<longleftrightarrow> b < a"
  by (simp add: less_reverse_def)

lemma Reverse_MAX_le [simp]: "Reverse hlc_MAX \<le> r"
  by (cases r) simp

datatype version_value = Put bytes | Delete

text \<open>One key's version as the scans carry it: \<open>(key, stamp, version)\<close>.\<close>

type_synonym entry = "bytes \<times> hlc \<times> version_value"

type_synonym version_map = "(bytes \<times> hlc reverse, version_value) btree"

record memtable =
  mt_map :: version_map
  mt_bytes :: nat

definition mt_new :: memtable where
  "mt_new = \<lparr>mt_map = [], mt_bytes = 0\<rparr>"

definition mt_iter_versions :: "memtable \<Rightarrow> entry list" where
  "mt_iter_versions m = map (\<lambda>((k, r), v). (k, unreverse r, v)) (mt_map m)"

definition mt_max_hlc :: "memtable \<Rightarrow> hlc option" where
  "mt_max_hlc m =
     (case map (\<lambda>((_, r), _). unreverse r) (mt_map m) of
        [] \<Rightarrow> None
      | h # hs \<Rightarrow> Some (fold max hs h))"

text \<open>\<open>size_of::<Hlc>()\<close> is 16: a \<open>u64\<close> and a \<open>u32\<close>, padded to the alignment of the former.\<close>

definition mt_insert :: "bytes \<Rightarrow> hlc \<Rightarrow> version_value \<Rightarrow> memtable \<Rightarrow> memtable" where
  "mt_insert key h value m =
     (let val_bytes = (case value of Put v \<Rightarrow> length v | Delete \<Rightarrow> 0)
      in m\<lparr>mt_bytes := mt_bytes m + (length key + 16 + val_bytes + 32),
           mt_map := bt_insert (key, Reverse h) value (mt_map m)\<rparr>)"

text \<open>\<open>BTreeMap::range(start..)\<close> on the in-order contents.\<close>

definition range_from :: "'k::linorder \<Rightarrow> ('k, 'v) btree \<Rightarrow> ('k, 'v) btree" where
  "range_from lo m = filter (\<lambda>kv. lo \<le> fst kv) m"

fun latest_loop :: "bytes \<Rightarrow> hlc \<Rightarrow> version_map \<Rightarrow> version_value option" where
  "latest_loop key as_of [] = None"
| "latest_loop key as_of (((k, r), value) # rest) =
     (if k \<noteq> key then None
      else if unreverse r \<le> as_of then Some value
      else latest_loop key as_of rest)"

definition mt_latest_version :: "memtable \<Rightarrow> bytes \<Rightarrow> hlc \<Rightarrow> version_value option" where
  "mt_latest_version m key as_of =
     latest_loop key as_of (range_from (key, Reverse hlc_MAX) (mt_map m))"

definition live :: "version_value \<Rightarrow> bytes option" where
  "live v = (case v of Put bs \<Rightarrow> Some bs | Delete \<Rightarrow> None)"

definition mt_get :: "memtable \<Rightarrow> bytes \<Rightarrow> bytes option" where
  "mt_get m key = Option.bind (mt_latest_version m key hlc_MAX) live"

definition mt_get_as_of :: "memtable \<Rightarrow> bytes \<Rightarrow> hlc \<Rightarrow> bytes option" where
  "mt_get_as_of m key as_of = Option.bind (mt_latest_version m key as_of) live"

definition mt_get_entry :: "memtable \<Rightarrow> bytes \<Rightarrow> version_value option" where
  "mt_get_entry m key = mt_latest_version m key hlc_MAX"

definition mt_get_entry_versioned :: "memtable \<Rightarrow> bytes \<Rightarrow> (hlc \<times> version_value) option" where
  "mt_get_entry_versioned m key =
     (case range_from (key, Reverse hlc_MAX) (mt_map m) of
        [] \<Rightarrow> None
      | ((k, r), value) # _ \<Rightarrow> if k = key then Some (unreverse r, value) else None)"

text \<open>The \<open>filter_map\<close> of \<open>iter_latest_lazy\<close>, with \<open>current\<close> the key yielded last.\<close>

fun latest_lazy :: "bytes option \<Rightarrow> version_map \<Rightarrow> entry list" where
  "latest_lazy current [] = []"
| "latest_lazy current (((k, r), value) # rest) =
     (if current = Some k then latest_lazy current rest
      else (k, unreverse r, value) # latest_lazy (Some k) rest)"

definition mt_iter_latest_lazy :: "memtable \<Rightarrow> entry list" where
  "mt_iter_latest_lazy m = latest_lazy None (mt_map m)"

definition mt_iter_latest_entries :: "memtable \<Rightarrow> entry list" where
  "mt_iter_latest_entries m = mt_iter_latest_lazy m"

text \<open>
  \<open>BTreeMap::range((lo, hi))\<close> on the in-order contents. On a map that has an entry it panics when the
  start lies above the end, or when both are excluded and equal; the map without entries has no root
  and is not searched. \<open>None\<close> is the panic.
\<close>

datatype 'k bound = Included 'k | Excluded 'k | Unbounded

fun bounds_panic :: "'k::linorder bound \<Rightarrow> 'k bound \<Rightarrow> bool" where
  "bounds_panic Unbounded hi = False"
| "bounds_panic lo Unbounded = False"
| "bounds_panic (Excluded s) (Excluded e) = (s \<ge> e)"
| "bounds_panic (Excluded s) (Included e) = (s > e)"
| "bounds_panic (Included s) (Excluded e) = (s > e)"
| "bounds_panic (Included s) (Included e) = (s > e)"

fun above_start :: "'k::linorder bound \<Rightarrow> 'k \<Rightarrow> bool" where
  "above_start (Included s) k = (s \<le> k)"
| "above_start (Excluded s) k = (s < k)"
| "above_start Unbounded k = True"

fun below_end :: "'k::linorder bound \<Rightarrow> 'k \<Rightarrow> bool" where
  "below_end (Included e) k = (k \<le> e)"
| "below_end (Excluded e) k = (k < e)"
| "below_end Unbounded k = True"

definition bt_range :: "'k::linorder bound \<Rightarrow> 'k bound \<Rightarrow> ('k, 'v) btree \<Rightarrow> ('k, 'v) btree option" where
  "bt_range lo hi m =
     (if m \<noteq> [] \<and> bounds_panic lo hi then None
      else Some (filter (\<lambda>kv. above_start lo (fst kv) \<and> below_end hi (fst kv)) m))"

definition mt_range_latest :: "memtable \<Rightarrow> bytes option \<Rightarrow> bytes option \<Rightarrow> entry list option" where
  "mt_range_latest m start end =
     (let lo = (case start of Some s \<Rightarrow> Included (s, Reverse hlc_MAX) | None \<Rightarrow> Unbounded);
          hi = (case end of Some e \<Rightarrow> Excluded (e, Reverse hlc_MAX) | None \<Rightarrow> Unbounded)
      in map_option (latest_lazy None) (bt_range lo hi (mt_map m)))"

text \<open>The loop of \<open>range_latest_page\<close>; \<open>n\<close> is the number of rows pushed so far.\<close>

fun page_loop :: "bytes option \<Rightarrow> nat \<Rightarrow> bytes option \<Rightarrow> nat \<Rightarrow> version_map \<Rightarrow> entry list" where
  "page_loop after mx current n [] = []"
| "page_loop after mx current n (((k, r), value) # rest) =
     (if (case after of Some a \<Rightarrow> k \<le> a | None \<Rightarrow> False) then page_loop after mx current n rest
      else if current = Some k then page_loop after mx current n rest
      else if n \<ge> mx then []
      else (k, unreverse r, value) # page_loop after mx (Some k) (Suc n) rest)"

definition mt_range_latest_page :: "memtable \<Rightarrow> bytes option \<Rightarrow> nat \<Rightarrow> entry list" where
  "mt_range_latest_page m after mx =
     page_loop after mx None 0
       (case after of Some s \<Rightarrow> range_from (s, Reverse hlc_MAX) (mt_map m) | None \<Rightarrow> mt_map m)"

definition mt_approx_bytes :: "memtable \<Rightarrow> nat" where
  "mt_approx_bytes m = mt_bytes m"

definition mt_version_count :: "memtable \<Rightarrow> nat" where
  "mt_version_count m = length (mt_map m)"

definition mt_is_empty :: "memtable \<Rightarrow> bool" where
  "mt_is_empty m \<longleftrightarrow> mt_map m = []"

fun iter_latest_loop :: "bytes option \<Rightarrow> version_map \<Rightarrow> (bytes \<times> bytes) list" where
  "iter_latest_loop current [] = []"
| "iter_latest_loop current (((k, r), value) # rest) =
     (if current = Some k then iter_latest_loop current rest
      else (case value of Put bs \<Rightarrow> [(k, bs)] | Delete \<Rightarrow> []) @ iter_latest_loop (Some k) rest)"

definition mt_iter_latest :: "memtable \<Rightarrow> (bytes \<times> bytes) list" where
  "mt_iter_latest m = iter_latest_loop None (mt_map m)"


section \<open>Correctness\<close>

definition mt_inv :: "memtable \<Rightarrow> bool" where
  "mt_inv m \<longleftrightarrow> bt_ok (mt_map m)"

lemma mt_inv_new [simp]: "mt_inv mt_new"
  by (simp add: mt_inv_def mt_new_def)

lemma mt_inv_insert [simp]: "mt_inv m \<Longrightarrow> mt_inv (mt_insert k h v m)"
  by (simp add: mt_inv_def mt_insert_def Let_def)

text \<open>The abstract content: for every key, its stamped versions.\<close>

definition mt_versions :: "memtable \<Rightarrow> bytes \<Rightarrow> hlc \<Rightarrow> version_value option" where
  "mt_versions m k h = map_of (mt_map m) (k, Reverse h)"

lemma mt_versions_new [simp]: "mt_versions mt_new k h = None"
  by (simp add: mt_versions_def mt_new_def)

lemma mt_versions_insert [simp]:
  "mt_versions (mt_insert k h v m) k' = (if k' = k then (mt_versions m k)(h \<mapsto> v) else mt_versions m k')"
  by (auto simp: mt_versions_def mt_insert_def Let_def fun_eq_iff)

definition is_newest :: "(hlc \<Rightarrow> version_value option) \<Rightarrow> hlc \<Rightarrow> hlc \<Rightarrow> version_value \<Rightarrow> bool" where
  "is_newest f as_of h v \<longleftrightarrow> h \<le> as_of \<and> f h = Some v \<and> (\<forall>h'. h < h' \<and> h' \<le> as_of \<longrightarrow> f h' = None)"

lemma is_newest_unique: "is_newest f t h v \<Longrightarrow> is_newest f t h' v' \<Longrightarrow> h = h' \<and> v = v'"
  unfolding is_newest_def by (metis linorder_neqE option.distinct(1) option.inject)

subsection \<open>The order of the versions\<close>

abbreviation ekey :: "(bytes \<times> hlc reverse) \<times> version_value \<Rightarrow> bytes" where
  "ekey e \<equiv> fst (fst e)"

lemma bt_ok_keys_sorted: "bt_ok (xs :: version_map) \<Longrightarrow> sorted (map ekey xs)"
  by (induction xs) (auto simp: less_prod_def less_imp_le)

lemma range_from_MAX: "range_from (k, Reverse hlc_MAX) xs = filter (\<lambda>e. k \<le> ekey e) xs"
  unfolding range_from_def by (rule filter_cong) (auto simp: less_eq_prod_def)

lemma latest_loop_find:
  assumes "sorted (map ekey xs)" "\<forall>e \<in> set xs. key \<le> ekey e"
  shows "latest_loop key t xs =
    map_option snd (find (\<lambda>e. ekey e = key \<and> unreverse (snd (fst e)) \<le> t) xs)"
  using assms
proof (induction xs)
  case (Cons e xs)
  obtain k r v where e: "e = ((k, r), v)" by (metis prod.exhaust)
  show ?case
  proof (cases "k = key")
    case False
    then have "\<forall>e \<in> set xs. ekey e \<noteq> key" using Cons.prems e by fastforce
    then have "find (\<lambda>e. ekey e = key \<and> unreverse (snd (fst e)) \<le> t) xs = None"
      by (auto simp: find_None_iff)
    then show ?thesis using e False by simp
  qed (use Cons e in auto)
qed simp

lemma find_filter_ge: "find (\<lambda>e. ekey e = key \<and> P e) (filter (\<lambda>e. key \<le> ekey e) xs) = find (\<lambda>e. ekey e = key \<and> P e) xs"
  by (induction xs) auto

lemma mt_latest_version_find:
  assumes "mt_inv m"
  shows "mt_latest_version m key t =
    map_option snd (find (\<lambda>e. ekey e = key \<and> unreverse (snd (fst e)) \<le> t) (mt_map m))"
proof -
  have "sorted (map ekey (filter (\<lambda>e. key \<le> ekey e) (mt_map m)))"
    using assms by (intro bt_ok_keys_sorted) (simp add: mt_inv_def)
  then show ?thesis
    by (simp add: mt_latest_version_def range_from_MAX latest_loop_find find_filter_ge)
qed

lemma find_newest:
  assumes "bt_ok xs" "find (\<lambda>e. ekey e = key \<and> unreverse (snd (fst e)) \<le> t) xs = Some e"
  shows "is_newest (\<lambda>h. map_of xs (key, Reverse h)) t (unreverse (snd (fst e))) (snd e)"
proof -
  obtain ys zs where xs: "xs = ys @ e # zs" and e: "ekey e = key" "unreverse (snd (fst e)) \<le> t"
    and ys: "\<forall>y \<in> set ys. \<not> (ekey y = key \<and> unreverse (snd (fst y)) \<le> t)"
    using assms(2) by (rule find_SomeE) blast
  have mem: "((key, Reverse (unreverse (snd (fst e)))), snd e) \<in> set xs"
    using e(1) xs by (cases e) (auto simp: prod_eq_iff)
  have "map_of xs (key, Reverse h) = None" if "unreverse (snd (fst e)) < h" "h \<le> t" for h
  proof (rule ccontr)
    assume "map_of xs (key, Reverse h) \<noteq> None"
    then obtain v where v: "((key, Reverse h), v) \<in> set xs" by (auto dest: map_of_SomeD)
    moreover have "((key, Reverse h), v) \<notin> set ys" using ys that(2) by auto
    moreover have "((key, Reverse h), v) \<noteq> e" using that(1) by auto
    ultimately have "((key, Reverse h), v) \<in> set zs" using xs by simp
    then have "fst e < (key, Reverse h)" using assms(1) xs by (auto simp: sorted_wrt_append)
    then show False using that e(1) by (cases e) (auto simp: less_prod_def less_reverse_def)
  qed
  then show ?thesis
    using e mem assms(1) by (auto simp: is_newest_def bt_ok_map_of_iff)
qed

lemma find_None_versions:
  assumes "bt_ok xs" "find (\<lambda>e. ekey e = key \<and> unreverse (snd (fst e)) \<le> t) xs = None" "h \<le> t"
  shows "map_of xs (key, Reverse h) = None"
proof (rule ccontr)
  assume "map_of xs (key, Reverse h) \<noteq> None"
  then obtain v where "((key, Reverse h), v) \<in> set xs" by (auto dest: map_of_SomeD)
  with assms(2,3) show False by (force simp: find_None_iff)
qed

lemma mt_latest_version_newest:
  assumes "mt_inv m"
  shows "mt_latest_version m key t = Some v \<longleftrightarrow> (\<exists>h. is_newest (mt_versions m key) t h v)"
    (is "?L \<longleftrightarrow> ?R")
proof -
  let ?f = "find (\<lambda>e. ekey e = key \<and> unreverse (snd (fst e)) \<le> t) (mt_map m)"
  have ok: "bt_ok (mt_map m)" using assms by (simp add: mt_inv_def)
  have eq: "(\<lambda>h. map_of (mt_map m) (key, Reverse h)) = mt_versions m key"
    by (simp add: mt_versions_def fun_eq_iff)
  show ?thesis
  proof (cases ?f)
    case None
    then have "mt_versions m key h = None" if "h \<le> t" for h
      using find_None_versions [OF ok None that] by (simp add: mt_versions_def)
    then show ?thesis using None by (auto simp: mt_latest_version_find [OF assms] is_newest_def)
  next
    case (Some e)
    then have "is_newest (mt_versions m key) t (unreverse (snd (fst e))) (snd e)"
      using find_newest [OF ok Some] by (simp add: eq)
    then show ?thesis
      using Some by (auto simp: mt_latest_version_find [OF assms] dest: is_newest_unique)
  qed
qed

definition first_version :: "version_map \<Rightarrow> bytes \<Rightarrow> (hlc \<times> version_value) option" where
  "first_version xs key = map_option (\<lambda>e. (unreverse (snd (fst e)), snd e)) (find (\<lambda>e. ekey e = key) xs)"

lemma mt_get_entry_versioned_first:
  assumes "mt_inv m"
  shows "mt_get_entry_versioned m key = first_version (mt_map m) key"
proof -
  have s: "sorted (map ekey xs) \<Longrightarrow>
      (case filter (\<lambda>e. key \<le> ekey e) xs of [] \<Rightarrow> None
       | ((k, r), value) # _ \<Rightarrow> if k = key then Some (unreverse r, value) else None) = first_version xs key"
    for xs
  proof (induction xs)
    case (Cons e xs)
    show ?case
    proof (cases "ekey e = key \<or> ekey e < key")
      case True
      then show ?thesis using Cons by (auto simp: first_version_def split: prod.splits)
    next
      case False
      then have "\<forall>x \<in> set xs. ekey x \<noteq> key" using Cons.prems by fastforce
      then have "find (\<lambda>e. ekey e = key) xs = None" by (auto simp: find_None_iff)
      then show ?thesis using False by (auto simp: first_version_def split: prod.splits)
    qed
  qed (simp add: first_version_def)
  show ?thesis
    using s [OF bt_ok_keys_sorted] assms by (simp add: mt_inv_def mt_get_entry_versioned_def range_from_MAX)
qed

lemma mt_get_entry_versioned_newest:
  assumes "mt_inv m"
  shows "mt_get_entry_versioned m key = Some (h, v) \<longleftrightarrow> is_newest (mt_versions m key) hlc_MAX h v"
proof -
  have ok: "bt_ok (mt_map m)" using assms by (simp add: mt_inv_def)
  have eq: "(\<lambda>h. map_of (mt_map m) (key, Reverse h)) = mt_versions m key"
    by (simp add: mt_versions_def fun_eq_iff)
  show ?thesis
  proof (cases "find (\<lambda>e. ekey e = key) (mt_map m)")
    case None
    then have "mt_versions m key h = None" for h
      using find_None_versions [OF ok, of key hlc_MAX h] by (simp add: mt_versions_def)
    then show ?thesis
      using None by (simp add: mt_get_entry_versioned_first [OF assms] first_version_def is_newest_def)
  next
    case (Some e)
    then have "is_newest (mt_versions m key) hlc_MAX (unreverse (snd (fst e))) (snd e)"
      using find_newest [OF ok, of key hlc_MAX e] by (simp add: eq)
    then show ?thesis
      using Some by (auto simp: mt_get_entry_versioned_first [OF assms] first_version_def dest: is_newest_unique)
  qed
qed

lemma mt_get_entry_versioned_None:
  assumes "mt_inv m"
  shows "mt_get_entry_versioned m key = None \<longleftrightarrow> (\<forall>h. mt_versions m key h = None)"
proof (cases "find (\<lambda>e. ekey e = key) (mt_map m)")
  case None
  have "bt_ok (mt_map m)" using assms by (simp add: mt_inv_def)
  then have "mt_versions m key h = None" for h
    using None find_None_versions [of "mt_map m" key hlc_MAX h] by (simp add: mt_versions_def)
  then show ?thesis using None by (simp add: mt_get_entry_versioned_first [OF assms] first_version_def)
next
  case (Some e)
  then have "mt_get_entry_versioned m key = Some (unreverse (snd (fst e)), snd e)"
    by (simp add: mt_get_entry_versioned_first [OF assms] first_version_def)
  moreover from this have "mt_versions m key (unreverse (snd (fst e))) = Some (snd e)"
    using mt_get_entry_versioned_newest [OF assms] by (simp add: is_newest_def)
  ultimately show ?thesis by auto
qed

lemma mt_get_entry_eq:
  assumes "mt_inv m"
  shows "mt_get_entry m key = map_option snd (mt_get_entry_versioned m key)"
proof (cases "mt_get_entry_versioned m key")
  case None
  then have "mt_get_entry m key \<noteq> Some v" for v
    using assms by (simp add: mt_get_entry_def mt_latest_version_newest mt_get_entry_versioned_None is_newest_def)
  then show ?thesis using None by (metis map_option_is_None option.exhaust)
next
  case (Some hv)
  then have "is_newest (mt_versions m key) hlc_MAX (fst hv) (snd hv)"
    using assms by (cases hv) (simp add: mt_get_entry_versioned_newest)
  then have "mt_get_entry m key = Some (snd hv)"
    using assms by (auto simp: mt_get_entry_def mt_latest_version_newest)
  then show ?thesis using Some by simp
qed

text \<open>The effect of a write on the newest version: it wins unless an existing stamp is higher.\<close>

lemma mt_get_entry_versioned_insert:
  assumes "mt_inv m"
  shows "mt_get_entry_versioned (mt_insert k h v m) k' =
    (if k' \<noteq> k then mt_get_entry_versioned m k'
     else case mt_get_entry_versioned m k of
        Some (h0, v0) \<Rightarrow> if h < h0 then Some (h0, v0) else Some (h, v)
      | None \<Rightarrow> Some (h, v))"
proof (cases "k' = k")
  case False
  then show ?thesis
    using assms by (intro option.expand) (auto simp: mt_get_entry_versioned_None,
      metis mt_get_entry_versioned_newest mt_inv_insert mt_versions_insert option.exhaust_sel surj_pair)
next
  case True
  show ?thesis
  proof (cases "mt_get_entry_versioned m k")
    case None
    then have "is_newest (mt_versions (mt_insert k h v m) k) hlc_MAX h v"
      using assms by (auto simp: is_newest_def mt_get_entry_versioned_None)
    then have "mt_get_entry_versioned (mt_insert k h v m) k = Some (h, v)"
      using assms mt_get_entry_versioned_newest [OF mt_inv_insert] by blast
    then show ?thesis using None True by simp
  next
    case (Some hv)
    obtain h0 v0 where hv: "hv = (h0, v0)" by force
    then have n: "is_newest (mt_versions m k) hlc_MAX h0 v0"
      using Some assms by (simp add: mt_get_entry_versioned_newest)
    have "is_newest (mt_versions (mt_insert k h v m) k) hlc_MAX (if h < h0 then h0 else h) (if h < h0 then v0 else v)"
      using n by (auto simp: is_newest_def)
    then have "mt_get_entry_versioned (mt_insert k h v m) k = Some (if h < h0 then (h0, v0) else (h, v))"
      using assms mt_get_entry_versioned_newest [OF mt_inv_insert] by (metis (full_types))
    then show ?thesis using Some hv True by simp
  qed
qed

subsection \<open>The newest versions in key order\<close>

lemma latest_lazy_keys: "k \<in> fst ` set (latest_lazy cur xs) \<Longrightarrow> k \<in> ekey ` set xs"
  by (induction cur xs rule: latest_lazy.induct) (auto split: if_splits)

lemma latest_lazy_sorted:
  assumes "sorted (map ekey xs)" "\<forall>c. cur = Some c \<longrightarrow> (\<forall>e \<in> set xs. c \<le> ekey e)"
  shows "bt_ok (latest_lazy cur xs) \<and> (\<forall>c k. cur = Some c \<longrightarrow> k \<in> fst ` set (latest_lazy cur xs) \<longrightarrow> c < k)"
  using assms
proof (induction cur xs rule: latest_lazy.induct)
  case (2 cur k r v xs)
  show ?case
  proof (cases "cur = Some k")
    case True
    then show ?thesis using 2 by simp
  next
    case False
    then have "bt_ok (latest_lazy (Some k) xs)" "\<forall>k' \<in> fst ` set (latest_lazy (Some k) xs). k < k'"
      using "2.IH"(2) "2.prems" by auto
    moreover have "c < k" if "cur = Some c" for c using False "2.prems"(2) that by force
    ultimately show ?thesis using False by fastforce
  qed
qed simp

lemma map_of_latest_lazy:
  assumes "sorted (map ekey xs)" "\<forall>c. cur = Some c \<longrightarrow> (\<forall>e \<in> set xs. c \<le> ekey e)"
  shows "map_of (latest_lazy cur xs) k = (if cur = Some k then None else first_version xs k)"
  using assms
proof (induction cur xs rule: latest_lazy.induct)
  case (2 cur k' r v xs)
  show ?case
  proof (cases "cur = Some k'")
    case True
    then show ?thesis using 2 by (auto simp: first_version_def)
  next
    case False
    then have "map_of (latest_lazy (Some k') xs) k = (if k = k' then None else first_version xs k)"
      using "2.IH"(2) "2.prems" by auto
    moreover have "k < k'" if "cur = Some k" using False "2.prems"(2) that by force
    moreover have "first_version xs k = None" if "k < k'"
      using "2.prems"(1) that by (fastforce simp: first_version_def find_None_iff)
    ultimately show ?thesis using False by (auto simp: first_version_def)
  qed
qed (simp add: first_version_def)

lemma mt_iter_latest_lazy_ok: "mt_inv m \<Longrightarrow> bt_ok (mt_iter_latest_lazy m)"
  using latest_lazy_sorted [of "mt_map m" None] bt_ok_keys_sorted
  by (simp add: mt_inv_def mt_iter_latest_lazy_def)

lemma map_of_mt_iter_latest_lazy:
  "mt_inv m \<Longrightarrow> map_of (mt_iter_latest_lazy m) k = mt_get_entry_versioned m k"
  using map_of_latest_lazy [of "mt_map m" None k] bt_ok_keys_sorted
  by (simp add: mt_inv_def mt_iter_latest_lazy_def mt_get_entry_versioned_first)

definition in_range :: "bytes option \<Rightarrow> bytes option \<Rightarrow> bytes \<Rightarrow> bool" where
  "in_range start end k \<longleftrightarrow>
     (case start of Some s \<Rightarrow> s \<le> k | None \<Rightarrow> True) \<and> (case end of Some e \<Rightarrow> k < e | None \<Rightarrow> True)"

lemma first_version_filter:
  "first_version (filter (\<lambda>e. P (ekey e)) xs) k = (if P k then first_version xs k else None)"
  by (induction xs) (auto simp: first_version_def)

lemma map_of_filter_key: "map_of (filter (\<lambda>e. P (fst e)) xs) k = (if P k then map_of xs k else None)"
  by (induction xs) auto

lemma latest_lazy_filter:
  assumes "bt_ok xs"
  shows "latest_lazy None (filter (\<lambda>e. P (ekey e)) xs) = filter (\<lambda>e. P (fst e)) (latest_lazy None xs)"
proof (rule bt_eqI)
  have s: "sorted (map ekey xs)" "sorted (map ekey (filter (\<lambda>e. P (ekey e)) xs))"
    using assms by (simp_all add: bt_ok_keys_sorted)
  then show "bt_ok (latest_lazy None (filter (\<lambda>e. P (ekey e)) xs))"
    "bt_ok (filter (\<lambda>e. P (fst e)) (latest_lazy None xs))"
    using latest_lazy_sorted by auto
  show "map_of (latest_lazy None (filter (\<lambda>e. P (ekey e)) xs)) =
      map_of (filter (\<lambda>e. P (fst e)) (latest_lazy None xs))"
    using s by (simp add: fun_eq_iff map_of_latest_lazy first_version_filter map_of_filter_key)
qed

text \<open>A start above the end: the one form of range a memtable with an entry cannot search.\<close>

definition inverted :: "bytes option \<Rightarrow> bytes option \<Rightarrow> bool" where
  "inverted start end \<longleftrightarrow> (case (start, end) of (Some s, Some e) \<Rightarrow> e < s | _ \<Rightarrow> False)"

lemma mt_range_latest_eq:
  assumes "mt_inv m"
  shows "mt_range_latest m start end =
    (if \<not> mt_is_empty m \<and> inverted start end then None
     else Some (filter (\<lambda>e. in_range start end (fst e)) (mt_iter_latest_lazy m)))"
proof -
  let ?lo = "case start of Some s \<Rightarrow> Included (s, Reverse hlc_MAX) | None \<Rightarrow> Unbounded"
  let ?hi = "case end of Some e \<Rightarrow> Excluded (e, Reverse hlc_MAX) | None \<Rightarrow> Unbounded"
  have "(\<lambda>kv :: (bytes \<times> hlc reverse) \<times> version_value. above_start ?lo (fst kv) \<and> below_end ?hi (fst kv)) =
      (\<lambda>kv. in_range start end (ekey kv))"
    by (auto simp: in_range_def fun_eq_iff less_eq_prod_def less_prod_def less_reverse_def not_less
        split: option.splits)
  moreover have "bounds_panic ?lo ?hi = inverted start end"
    by (auto simp: inverted_def less_prod_def less_reverse_def split: option.splits)
  ultimately show ?thesis
    using assms latest_lazy_filter
    by (simp add: mt_range_latest_def bt_range_def mt_iter_latest_lazy_def mt_is_empty_def mt_inv_def Let_def)
qed

abbreviation after_key :: "bytes option \<Rightarrow> bytes \<Rightarrow> bool" where
  "after_key after k \<equiv> (case after of Some a \<Rightarrow> a < k | None \<Rightarrow> True)"

lemma page_loop_eq:
  "page_loop after mx cur n xs = take (mx - n) (latest_lazy cur (filter (\<lambda>e. after_key after (ekey e)) xs))"
  by (induction after mx cur n xs rule: page_loop.induct)
    (auto simp: not_less Suc_diff_le [symmetric] Suc_diff_Suc take_Cons' split: option.splits)

lemma mt_range_latest_page_eq:
  assumes "mt_inv m"
  shows "mt_range_latest_page m after mx =
    take mx (filter (\<lambda>e. after_key after (fst e)) (mt_iter_latest_lazy m))"
proof -
  have "filter (\<lambda>e. after_key after (ekey e))
      (case after of Some s \<Rightarrow> range_from (s, Reverse hlc_MAX) (mt_map m) | None \<Rightarrow> mt_map m) =
      filter (\<lambda>e. after_key after (ekey e)) (mt_map m)"
    by (auto simp: range_from_MAX intro!: filter_cong split: option.splits)
  then show ?thesis
    using assms latest_lazy_filter [of "mt_map m" "after_key after"]
    by (simp add: mt_range_latest_page_def page_loop_eq mt_iter_latest_lazy_def mt_inv_def)
qed

lemma mt_iter_latest_eq:
  "mt_iter_latest m = List.map_filter (\<lambda>(k, h, v). map_option (Pair k) (live v)) (mt_iter_latest_lazy m)"
proof -
  have "iter_latest_loop cur xs = List.map_filter (\<lambda>(k, h, v). map_option (Pair k) (live v)) (latest_lazy cur xs)" for cur xs
    by (induction cur xs rule: iter_latest_loop.induct)
      (auto simp: live_def List.map_filter_simps split: version_value.splits)
  then show ?thesis by (simp add: mt_iter_latest_def mt_iter_latest_lazy_def)
qed

lemma mt_max_hlc_ge: "mt_versions m k h = Some v \<Longrightarrow> \<exists>mh. mt_max_hlc m = Some mh \<and> h \<le> mh"
proof -
  assume "mt_versions m k h = Some v"
  then have "h \<in> set (map (\<lambda>((_, r), _). unreverse r) (mt_map m))"
    by (force simp: mt_versions_def dest: map_of_SomeD)
  moreover have "h' \<le> fold max hs h0" if "h' \<in> set (h0 # hs)" for h' h0 :: hlc and hs
    using Max_ge [of "set (h0 # hs)" h'] that by (simp only: Max.set_eq_fold finite_set)
  ultimately show ?thesis
    by (cases "map (\<lambda>((_, r), _). unreverse r) (mt_map m)") (auto simp: mt_max_hlc_def)
qed

subsection \<open>A memtable after a sequence of writes\<close>

definition mt_of :: "entry list \<Rightarrow> memtable" where
  "mt_of ws = fold (\<lambda>(k, h, v). mt_insert k h v) ws mt_new"

text \<open>The abstract history: the last write of a key at a stamp.\<close>

definition written :: "entry list \<Rightarrow> bytes \<Rightarrow> hlc \<Rightarrow> version_value option" where
  "written ws k h = map_of (rev (map (\<lambda>(k, h, v). ((k, h), v)) ws)) (k, h)"

lemma written_snoc:
  "written (ws @ [(k, h, v)]) k' = (if k' = k then (written ws k)(h \<mapsto> v) else written ws k')"
  by (auto simp: written_def fun_eq_iff)

lemma mt_of_snoc: "mt_of (ws @ [(k, h, v)]) = mt_insert k h v (mt_of ws)"
  by (simp add: mt_of_def)

lemma mt_inv_of [simp]: "mt_inv (mt_of ws)"
proof (induction ws rule: rev_induct)
  case (snoc e ws)
  then show ?case by (cases e) (simp add: mt_of_snoc)
qed (simp add: mt_of_def)

lemma mt_versions_of: "mt_versions (mt_of ws) k = written ws k"
proof (induction ws arbitrary: k rule: rev_induct)
  case (snoc e ws)
  then show ?case by (cases e) (auto simp: mt_of_snoc written_snoc)
qed (simp add: mt_of_def written_def fun_eq_iff)

lemma bt_insert_nonempty [simp]: "bt_insert k v m \<noteq> []"
  by (cases m) auto

lemma mt_is_empty_of: "mt_is_empty (mt_of ws) \<longleftrightarrow> ws = []"
proof (cases ws rule: rev_cases)
  case (snoc ws' e)
  then show ?thesis by (cases e) (simp add: mt_of_snoc mt_insert_def mt_is_empty_def Let_def)
qed (simp add: mt_of_def mt_is_empty_def mt_new_def)

section \<open>Properties\<close>

text \<open>
  C10: a snapshot read of a memtable built by any sequence of writes returns the value of the
  newest version of the key at or below the snapshot stamp, and nothing when that version is a
  delete marker or when there is none.
\<close>

theorem memtable_snapshot_read:
  "mt_get_as_of (mt_of ws) key t = Some bs \<longleftrightarrow> (\<exists>h. is_newest (written ws key) t h (Put bs))"
proof -
  have "mt_get_as_of (mt_of ws) key t = Some bs \<longleftrightarrow> mt_latest_version (mt_of ws) key t = Some (Put bs)"
    by (cases "mt_latest_version (mt_of ws) key t")
      (auto simp: mt_get_as_of_def live_def split: version_value.splits)
  then show ?thesis by (simp add: mt_latest_version_newest mt_versions_of)
qed

text \<open>
  C18: the range scan of a memtable panics exactly when the memtable has an entry and the start of the
  range lies above its end. Otherwise it lists, in strictly increasing key order, exactly the keys of
  the half-open range that have a version, each with its newest one. The scan without bounds never
  panics, and a page of at most \<open>mx\<close> rows after a key is the first \<open>mx\<close> of its rows that follow the key.
\<close>

theorem memtable_range_scan:
  "\<exists>es rows. mt_range_latest (mt_of ws) start end = (if ws \<noteq> [] \<and> inverted start end then None else Some es)
    \<and> bt_ok es
    \<and> (\<forall>k h v. map_of es k = Some (h, v) \<longleftrightarrow> in_range start end k \<and> is_newest (written ws k) hlc_MAX h v)
    \<and> mt_range_latest (mt_of ws) None None = Some rows
    \<and> mt_range_latest_page (mt_of ws) after mx = take mx (filter (\<lambda>e. after_key after (fst e)) rows)"
proof (intro exI conjI allI)
  let ?m = "mt_of ws"
  let ?es = "filter (\<lambda>e. in_range start end (fst e)) (mt_iter_latest_lazy ?m)"
  show "mt_range_latest ?m start end = (if ws \<noteq> [] \<and> inverted start end then None else Some ?es)"
    by (simp add: mt_range_latest_eq mt_is_empty_of)
  show "bt_ok ?es" using mt_iter_latest_lazy_ok [of ?m] by simp
  show "map_of ?es k = Some (h, v) \<longleftrightarrow> in_range start end k \<and> is_newest (written ws k) hlc_MAX h v" for k h v
    by (simp add: map_of_filter_key map_of_mt_iter_latest_lazy mt_get_entry_versioned_newest mt_versions_of)
  show "mt_range_latest ?m None None = Some (mt_iter_latest_lazy ?m)"
    by (simp add: mt_range_latest_eq inverted_def in_range_def)
  show "mt_range_latest_page ?m after mx =
      take mx (filter (\<lambda>e. after_key after (fst e)) (mt_iter_latest_lazy ?m))"
    by (simp add: mt_range_latest_page_eq)
qed

end
