(* ===== verification/Bloom.thy ===== *)
theory Bloom
  imports Prelude
begin

text \<open>
  The Bloom filter of a table (\<open>crates/skaidb-storage/src/bloom.rs\<close>). Indexing out of range and
  the remainder by zero panic in Rust: \<open>None\<close>. The filter's invariant \<open>bloom_ok\<close> (a whole, positive
  number of bytes) excludes both. The interface \<open>membership_filter\<close> is what the table
  writer and reader rely on: no false negatives.
\<close>

section \<open>State and operations\<close>

record bloom =
  bl_bits :: bytes
  bl_m :: u64
  bl_k :: u32

definition fnv1a :: "bytes \<Rightarrow> u64 \<Rightarrow> u64" where
  "fnv1a key seed = foldl (\<lambda>h b. (h XOR ucast b) * 0x100000001b3) seed key"

definition hashes :: "bytes \<Rightarrow> u64 \<times> u64" where
  "hashes key = (fnv1a key 0xcbf29ce484222325, fnv1a key 0x10000000000001b3)"

definition combined :: "u64 \<Rightarrow> u64 \<Rightarrow> nat \<Rightarrow> u64" where
  "combined h1 h2 i = h1 + of_nat i * h2"

text \<open>
  \<open>raw_m\<close> and \<open>raw_k\<close> are the values of the two floating-point sizing formulas, after their
  \<open>max(8.0) as u64\<close> and \<open>round() as u32\<close>.
\<close>

definition bloom_with_capacity :: "u64 \<Rightarrow> u32 \<Rightarrow> bloom" where
  "bloom_with_capacity raw_m raw_k =
     (let m = (raw_m div 8 + (if raw_m mod 8 > 0 then 1 else 0)) * 8
      in \<lparr>bl_bits = replicate (unat (m div 8)) 0, bl_m = m, bl_k = min (max raw_k 1) 30\<rparr>)"

fun add_loop :: "u64 \<Rightarrow> u64 \<Rightarrow> u64 \<Rightarrow> nat list \<Rightarrow> bytes \<Rightarrow> bytes option" where
  "add_loop m h1 h2 [] bits = Some bits"
| "add_loop m h1 h2 (i # is) bits =
     (if m = 0 then None
      else let bit = combined h1 h2 i mod m; j = unat (bit div 8)
           in if j < length bits
              then add_loop m h1 h2 is (bits[j := bits ! j OR push_bit (unat (bit mod 8)) 1])
              else None)"

definition bloom_add :: "bytes \<Rightarrow> bloom \<Rightarrow> bloom option" where
  "bloom_add key b =
     (let (h1, h2) = hashes key
      in map_option (\<lambda>bits. b\<lparr>bl_bits := bits\<rparr>)
           (add_loop (bl_m b) h1 h2 [0..<unat (bl_k b)] (bl_bits b)))"

fun contains_loop :: "u64 \<Rightarrow> u64 \<Rightarrow> u64 \<Rightarrow> nat list \<Rightarrow> bytes \<Rightarrow> bool option" where
  "contains_loop m h1 h2 [] bits = Some True"
| "contains_loop m h1 h2 (i # is) bits =
     (if m = 0 then None
      else let bit = combined h1 h2 i mod m; j = unat (bit div 8)
           in if j < length bits
              then if bits ! j AND push_bit (unat (bit mod 8)) 1 = 0 then Some False
                   else contains_loop m h1 h2 is bits
              else None)"

definition bloom_contains :: "bloom \<Rightarrow> bytes \<Rightarrow> bool option" where
  "bloom_contains b key =
     (let (h1, h2) = hashes key
      in contains_loop (bl_m b) h1 h2 [0..<unat (bl_k b)] (bl_bits b))"

definition bloom_encode :: "bloom \<Rightarrow> bytes" where
  "bloom_encode b = le_bytes 8 (bl_m b) @ le_bytes 4 (bl_k b) @ bl_bits b"

definition bloom_decode :: "bytes \<Rightarrow> bloom option" where
  "bloom_decode bs =
     (if length bs < 12 then None
      else let m = from_le_bytes (take 8 bs); k = from_le_bytes (take 4 (drop 8 bs));
               bits = drop 12 bs
           in if of_nat (length bits) * 8 \<noteq> m then None
              else Some \<lparr>bl_bits = bits, bl_m = m, bl_k = k\<rparr>)"

section \<open>Correctness\<close>

definition bloom_ok :: "bloom \<Rightarrow> bool" where
  "bloom_ok b \<longleftrightarrow> 0 < length (bl_bits b) \<and> unat (bl_m b) = 8 * length (bl_bits b)"

text \<open>The positions that are set.\<close>

definition bit_set :: "bytes \<Rightarrow> nat set" where
  "bit_set bits = {p. p < 8 * length bits \<and> bit (bits ! (p div 8)) (p mod 8)}"

definition probe :: "u64 \<Rightarrow> u64 \<Rightarrow> u64 \<Rightarrow> nat \<Rightarrow> nat" where
  "probe m h1 h2 i = unat (combined h1 h2 i mod m)"

lemma probe_index:
  assumes "unat m = 8 * length bits" "0 < length bits"
  shows "unat ((combined h1 h2 i mod m) div 8) = probe m h1 h2 i div 8"
    "unat ((combined h1 h2 i mod m) mod 8) = probe m h1 h2 i mod 8"
    "probe m h1 h2 i div 8 < length bits" "probe m h1 h2 i < 8 * length bits"
proof -
  show p: "probe m h1 h2 i < 8 * length bits"
    using assms by (simp add: probe_def unat_mod_distrib)
  then show "probe m h1 h2 i div 8 < length bits" by (simp add: less_mult_imp_div_less mult.commute)
  show "unat ((combined h1 h2 i mod m) div 8) = probe m h1 h2 i div 8"
    "unat ((combined h1 h2 i mod m) mod 8) = probe m h1 h2 i mod 8"
    by (simp_all add: probe_def unat_div_distrib unat_mod_distrib)
qed

lemma bit_set_update:
  assumes "p < 8 * length bits"
  shows "bit_set (bits[p div 8 := bits ! (p div 8) OR 2 ^ (p mod 8)]) = insert p (bit_set bits)"
proof (rule set_eqI)
  fix q
  have j: "p div 8 < length bits" using assms by (simp add: less_mult_imp_div_less mult.commute)
  have "bit ((2 :: byte) ^ (p mod 8)) (q mod 8) \<longleftrightarrow> q mod 8 = p mod 8"
    by (auto simp: bit_exp_iff)
  moreover have "q = p" if "q mod 8 = p mod 8" "q div 8 = p div 8"
    using that by (metis div_mult_mod_eq)
  ultimately show "q \<in> bit_set (bits[p div 8 := bits ! (p div 8) OR 2 ^ (p mod 8)]) \<longleftrightarrow>
      q \<in> insert p (bit_set bits)"
    using j assms by (auto simp: bit_set_def nth_list_update bit_or_iff)
qed

lemma add_loop_ok:
  assumes "unat m = 8 * length bits" "0 < length bits"
  shows "\<exists>bits'. add_loop m h1 h2 is bits = Some bits' \<and> length bits' = length bits \<and>
    bit_set bits' = bit_set bits \<union> probe m h1 h2 ` set is"
  using assms
proof (induction "is" arbitrary: bits)
  case (Cons i "is")
  let ?p = "probe m h1 h2 i"
  let ?bits = "bits[?p div 8 := bits ! (?p div 8) OR push_bit (?p mod 8) 1]"
  obtain bits' where "add_loop m h1 h2 is ?bits = Some bits'" "length bits' = length bits"
    "bit_set bits' = bit_set ?bits \<union> probe m h1 h2 ` set is"
    using Cons.IH [of ?bits] Cons.prems by auto
  then show ?case
    using probe_index [OF Cons.prems, of h1 h2 i] Cons.prems by (auto simp: Let_def bit_set_update)
qed simp

lemma contains_loop_iff:
  assumes "unat m = 8 * length bits" "0 < length bits"
  shows "contains_loop m h1 h2 is bits = Some (\<forall>i \<in> set is. probe m h1 h2 i \<in> bit_set bits)"
  using assms
proof (induction "is")
  case (Cons i "is")
  have "w AND push_bit n 1 = 0 \<longleftrightarrow> \<not> bit w n" for w :: byte and n
    by (simp add: and_exp_eq_0_iff_not_bit push_bit_eq_mult)
  then show ?case
    using Cons probe_index [OF Cons.prems, of h1 h2 i] by (auto simp: Let_def bit_set_def)
qed simp

subsection \<open>Interface of a membership filter\<close>

locale membership_filter =
  fixes add :: "'k \<Rightarrow> 'f \<Rightarrow> 'f option"
    and contains :: "'f \<Rightarrow> 'k \<Rightarrow> bool option"
    and inv :: "'f \<Rightarrow> bool"
  assumes add_total: "inv f \<Longrightarrow> \<exists>f'. add k f = Some f' \<and> inv f'"
    and contains_total: "inv f \<Longrightarrow> contains f k \<noteq> None"
    and contains_added: "inv f \<Longrightarrow> add k f = Some f' \<Longrightarrow> contains f' k = Some True"
    and contains_kept: "inv f \<Longrightarrow> add k f = Some f' \<Longrightarrow> contains f k' = Some True \<Longrightarrow> contains f' k' = Some True"
begin

lemma add_all_no_false_negatives:
  assumes "inv f"
  shows "\<exists>f'. foldl (\<lambda>f k. Option.bind f (add k)) (Some f) ks = Some f' \<and> inv f' \<and>
    (\<forall>k. k \<in> set ks \<or> contains f k = Some True \<longrightarrow> contains f' k = Some True)"
  using assms
proof (induction ks arbitrary: f)
  case (Cons k ks)
  obtain g where g: "add k f = Some g" "inv g" using add_total Cons.prems by blast
  then obtain f' where "foldl (\<lambda>f k. Option.bind f (add k)) (Some g) ks = Some f'" "inv f'"
    "\<forall>k. k \<in> set ks \<or> contains g k = Some True \<longrightarrow> contains f' k = Some True"
    using Cons.IH by blast
  then show ?case
    using g contains_added [OF Cons.prems g(1)] contains_kept [OF Cons.prems g(1)] by auto
qed auto

end

lemma bloom_add_ok:
  assumes "bloom_ok b"
  obtains b' where "bloom_add key b = Some b'" "bloom_ok b'" "bl_m b' = bl_m b" "bl_k b' = bl_k b"
    "length (bl_bits b') = length (bl_bits b)"
    "bit_set (bl_bits b') = bit_set (bl_bits b) \<union>
       probe (bl_m b) (fst (hashes key)) (snd (hashes key)) ` set [0..<unat (bl_k b)]"
proof -
  obtain bits' where "add_loop (bl_m b) (fst (hashes key)) (snd (hashes key)) [0..<unat (bl_k b)] (bl_bits b) = Some bits'"
    "length bits' = length (bl_bits b)"
    "bit_set bits' = bit_set (bl_bits b) \<union>
      probe (bl_m b) (fst (hashes key)) (snd (hashes key)) ` set [0..<unat (bl_k b)]"
    using add_loop_ok assms unfolding bloom_ok_def by blast
  then show thesis
    using assms that [of "b\<lparr>bl_bits := bits'\<rparr>"] by (simp add: bloom_add_def bloom_ok_def case_prod_unfold Let_def)
qed

lemma bloom_contains_iff:
  assumes "bloom_ok b"
  shows "bloom_contains b key = Some (\<forall>i \<in> set [0..<unat (bl_k b)].
    probe (bl_m b) (fst (hashes key)) (snd (hashes key)) i \<in> bit_set (bl_bits b))"
  using assms unfolding bloom_ok_def by (simp add: bloom_contains_def contains_loop_iff case_prod_unfold Let_def)

interpretation bloom_filter: membership_filter bloom_add bloom_contains bloom_ok
proof
  fix f k assume ok: "bloom_ok f"
  then show "\<exists>f'. bloom_add k f = Some f' \<and> bloom_ok f'" by (metis bloom_add_ok)
  show "bloom_contains f k \<noteq> None" using ok by (simp add: bloom_contains_iff)
next
  fix f k f' assume ok: "bloom_ok f" and add: "bloom_add k f = Some f'"
  then have f': "bloom_ok f'" "bl_m f' = bl_m f" "bl_k f' = bl_k f"
    "bit_set (bl_bits f') = bit_set (bl_bits f) \<union>
       probe (bl_m f) (fst (hashes k)) (snd (hashes k)) ` set [0..<unat (bl_k f)]"
    by (metis bloom_add_ok option.inject)+
  then show "bloom_contains f' k = Some True" by (simp add: bloom_contains_iff)
  show "bloom_contains f' k' = Some True" if "bloom_contains f k' = Some True" for k'
    using that f' by (simp add: bloom_contains_iff [OF ok] bloom_contains_iff [OF f'(1)])
qed

lemma ceil8: "8 * (n div 8 + (if n mod 8 > 0 then 1 else 0)) < n + 8"
    "8 \<le> n \<Longrightarrow> 0 < n div 8 + (if n mod 8 > 0 then 1 else (0 :: nat))"
  by presburger+

lemma bloom_with_capacity_ok:
  assumes "8 \<le> raw_m" "unat raw_m + 8 \<le> 2 ^ 64"
  shows "bloom_ok (bloom_with_capacity raw_m raw_k)"
proof -
  define q where "q = raw_m div 8 + (if raw_m mod 8 > 0 then 1 else 0)"
  have q: "unat q = unat raw_m div 8 + (if unat raw_m mod 8 > 0 then 1 else 0)"
    using assms by (simp add: q_def word_less_nat_alt unat_mod_distrib unat_div_distrib unat_word_ariths)
  then have "8 * unat q < 2 ^ 64" "0 < unat q"
    using assms ceil8 [of "unat raw_m"] by (auto simp: word_le_nat_alt)
  moreover from this have "unat (q * 8) = 8 * unat q" by (simp add: unat_word_ariths)
  ultimately show ?thesis
    by (simp add: bloom_ok_def bloom_with_capacity_def unat_div_distrib flip: q_def)
qed

lemma bloom_decode_encode:
  assumes "bloom_ok b"
  shows "bloom_decode (bloom_encode b) = Some b"
proof -
  have "of_nat (length (bl_bits b)) * 8 = (of_nat (8 * length (bl_bits b)) :: u64)" by simp
  also have "8 * length (bl_bits b) = unat (bl_m b)" using assms by (simp add: bloom_ok_def)
  finally have "of_nat (length (bl_bits b)) * 8 = bl_m b" by simp
  then show ?thesis
    by (simp add: bloom_decode_def bloom_encode_def Let_def from_le_le_bytes_full)
qed

section \<open>Properties\<close>

text \<open>
  C23: a filter of any size built by adding keys one after the other never panics, survives its
  serialization, and answers yes for every key that was added.
\<close>

theorem bloom_no_false_negatives:
  assumes "8 \<le> raw_m" and "unat raw_m + 8 \<le> 2 ^ 64"
  shows "\<exists>b. foldl (\<lambda>f k. Option.bind f (bloom_add k)) (Some (bloom_with_capacity raw_m raw_k)) ks = Some b
    \<and> bloom_decode (bloom_encode b) = Some b \<and> (\<forall>k \<in> set ks. bloom_contains b k = Some True)"
  using bloom_filter.add_all_no_false_negatives [OF bloom_with_capacity_ok [OF assms]] bloom_decode_encode
  by blast

theorem bloom_no_false_negatives_witness:
  "\<exists>b. foldl (\<lambda>f k. Option.bind f (bloom_add k)) (Some (bloom_with_capacity 20 7)) [[1], [2, 3]] = Some b
    \<and> bloom_decode (bloom_encode b) = Some b
    \<and> bloom_contains b [1] = Some True \<and> bloom_contains b [2, 3] = Some True"
  using bloom_no_false_negatives [of 20 7 "[[1], [2, 3]]"] by auto

end
