(* ===== verification/Cache_Interface.thy ===== *)
theory Cache_Interface
  imports Main
begin

text \<open>
  What a cache promises its clients. The truth is a function from keys to answers. A lossy cache
  may drop any entry at any time, and remembers only what it was told; a cache with invalidation
  also forgets the key of a write. The read cache of the engine and the block cache of a table
  are interpretations.
\<close>

definition submap :: "('k \<Rightarrow> 'v option) \<Rightarrow> ('k \<Rightarrow> 'v option) \<Rightarrow> bool" where
  "submap f g \<longleftrightarrow> (\<forall>k. f k = None \<or> f k = g k)"

lemma submap_refl [simp]: "submap f f"
  by (simp add: submap_def)

lemma submap_trans: "submap f g \<Longrightarrow> submap g h \<Longrightarrow> submap f h"
  unfolding submap_def by metis

lemma submap_drop [simp]: "submap (f(k := None)) f"
  by (simp add: submap_def)

locale lossy_cache =
  fixes look :: "'c \<Rightarrow> 'k \<Rightarrow> 'v option"
    and remember :: "'k \<Rightarrow> 'v \<Rightarrow> 'c \<Rightarrow> 'c"
    and inv :: "'c \<Rightarrow> bool"
  assumes look_remember: "inv c \<Longrightarrow> submap (look (remember k v c)) ((look c)(k \<mapsto> v))"
    and inv_remember: "inv c \<Longrightarrow> inv (remember k v c)"
begin

definition coherent :: "'c \<Rightarrow> ('k \<Rightarrow> 'v) \<Rightarrow> bool" where
  "coherent c truth \<longleftrightarrow> (\<forall>k v. look c k = Some v \<longrightarrow> v = truth k)"

lemma coherentD: "coherent c truth \<Longrightarrow> look c k = Some v \<Longrightarrow> v = truth k"
  by (simp add: coherent_def)

lemma coherent_remember:
  assumes "inv c" "coherent c truth" "v = truth k"
  shows "coherent (remember k v c) truth"
proof -
  have "v' = truth k'" if "look (remember k v c) k' = Some v'" for k' v'
    using look_remember [OF assms(1), of k v] assms(2,3) that
    by (auto simp: submap_def coherent_def split: if_splits) (metis option.distinct(1) option.inject)
  then show ?thesis by (simp add: coherent_def)
qed

lemma coherent_cong: "coherent c truth \<Longrightarrow> (\<And>k. truth k = truth' k) \<Longrightarrow> coherent c truth'"
  by (simp add: coherent_def)

end

locale coherent_cache = lossy_cache look remember inv
  for look :: "'c \<Rightarrow> 'k \<Rightarrow> 'v option" and remember :: "'k \<Rightarrow> 'v \<Rightarrow> 'c \<Rightarrow> 'c" and inv :: "'c \<Rightarrow> bool" +
  fixes forget :: "'k \<Rightarrow> 'c \<Rightarrow> 'c"
  assumes look_forget: "inv c \<Longrightarrow> look (forget k c) = (look c)(k := None)"
    and inv_forget: "inv c \<Longrightarrow> inv (forget k c)"
begin

lemma coherent_write:
  assumes "inv c" "coherent c truth" "\<And>k'. k' \<noteq> k \<Longrightarrow> truth' k' = truth k'"
  shows "coherent (forget k c) truth'"
  using assms look_forget [of c k] by (auto simp: coherent_def)

end

end
