(* ===== verification/Read_Cache.thy ===== *)
theory Read_Cache
  imports Memtable Bloom Cache_Interface
begin

text \<open>
  The point-read cache (\<open>crates/skaidb-storage/src/cache.rs\<close>). A \<open>HashMap\<close> whose iteration order
  is never observed is represented by its key-sorted contents. A shard's lock is held for the whole of each operation,
  so an operation is one function on the shard; the counters are 64-bit atomics. It implements the interface
  \<open>coherent_cache\<close>, which states what the engine relies on: a cached answer is one that was
  recorded for the key and not invalidated since.
\<close>

section \<open>State and operations\<close>

type_synonym cached_read = "(hlc \<times> version_value) option"

record cache_stats =
  cs_hits :: u64
  cs_misses :: u64
  cs_evictions :: u64
  cs_entries :: nat

record shard =
  sh_capacity :: nat
  sh_byte_capacity :: nat
  sh_bytes :: nat
  sh_map :: "(bytes, cached_read) btree"
  sh_fifo :: "bytes list"

record read_cache =
  rc_shards :: "shard list"
  rc_hits :: u64
  rc_misses :: u64
  rc_evictions :: u64

abbreviation MAX_SHARDS :: nat where "MAX_SHARDS \<equiv> 64"
abbreviation MIN_SHARD_BYTES :: nat where "MIN_SHARD_BYTES \<equiv> 64 * 1024"

definition saturating_add :: "nat \<Rightarrow> nat \<Rightarrow> nat" where
  "saturating_add a b = min (a + b) (usize_bound - 1)"

definition weight :: "bytes \<Rightarrow> cached_read \<Rightarrow> nat" where
  "weight key value =
     (let payload = (case value of Some (_, Put bs) \<Rightarrow> length bs | _ \<Rightarrow> 0)
      in length key * 2 + payload + 80)"

definition new_shard :: "nat \<Rightarrow> nat \<Rightarrow> nat \<Rightarrow> nat \<Rightarrow> shard" where
  "new_shard capacity byte_cap n_shards i =
     \<lparr>sh_capacity = capacity div n_shards + (if i < capacity mod n_shards then 1 else 0),
      sh_byte_capacity =
        (if byte_cap = 0 then 0
         else max (byte_cap div n_shards + (if i < byte_cap mod n_shards then 1 else 0)) 1),
      sh_bytes = 0, sh_map = [], sh_fifo = []\<rparr>"

definition rc_new :: "nat \<Rightarrow> nat \<Rightarrow> read_cache" where
  "rc_new capacity byte_cap =
     (let n = min capacity MAX_SHARDS;
          n_shards = (if byte_cap > 0 then min n (max (byte_cap div MIN_SHARD_BYTES) 1) else n)
      in \<lparr>rc_shards = map (new_shard capacity byte_cap n_shards) [0..<n_shards],
          rc_hits = 0, rc_misses = 0, rc_evictions = 0\<rparr>)"

definition rc_shard :: "read_cache \<Rightarrow> bytes \<Rightarrow> nat" where
  "rc_shard c key =
     (let h = foldl (\<lambda>h b. (h XOR ucast b) * 0x100000001b3) (0xcbf29ce484222325 :: u64) key
      in unat (h mod of_nat (length (rc_shards c))))"

definition rc_get :: "bytes \<Rightarrow> read_cache \<Rightarrow> read_cache \<times> cached_read option" where
  "rc_get key c =
     (if rc_shards c = [] then (c, None)
      else let found = map_of (sh_map (rc_shards c ! rc_shard c key)) key
           in (if found \<noteq> None then c\<lparr>rc_hits := rc_hits c + 1\<rparr>
               else c\<lparr>rc_misses := rc_misses c + 1\<rparr>, found))"

definition rc_stats :: "read_cache \<Rightarrow> cache_stats" where
  "rc_stats c =
     \<lparr>cs_hits = rc_hits c, cs_misses = rc_misses c, cs_evictions = rc_evictions c,
      cs_entries = sum_list (map (\<lambda>s. length (sh_map s)) (rc_shards c))\<rparr>"

text \<open>The loop condition, and the loop that evicts from the front of the queue.\<close>

definition over_budget :: "shard \<Rightarrow> bool" where
  "over_budget s \<longleftrightarrow>
     length (sh_map s) > sh_capacity s \<or> (sh_byte_capacity s > 0 \<and> sh_bytes s > sh_byte_capacity s)"

definition evict_key :: "bytes \<Rightarrow> shard \<Rightarrow> shard" where
  "evict_key old s =
     (case map_of (sh_map s) old of
        Some v \<Rightarrow> s\<lparr>sh_map := bt_remove old (sh_map s), sh_bytes := sh_bytes s - weight old v\<rparr>
      | None \<Rightarrow> s)"

fun evict_loop :: "bytes list \<Rightarrow> shard \<Rightarrow> u64 \<Rightarrow> shard \<times> u64" where
  "evict_loop [] s ev = (s\<lparr>sh_fifo := []\<rparr>, ev)"
| "evict_loop (old # fifo) s ev =
     (if over_budget s
      then evict_loop fifo (evict_key old s)
             (if map_of (sh_map s) old \<noteq> None then ev + 1 else ev)
      else (s\<lparr>sh_fifo := old # fifo\<rparr>, ev))"

fun trim_fifo :: "nat \<Rightarrow> (bytes, cached_read) btree \<Rightarrow> bytes list \<Rightarrow> bytes list" where
  "trim_fifo capacity m [] = []"
| "trim_fifo capacity m (front # fifo) =
     (if Suc (length fifo) > capacity \<and> map_of m front = None
      then trim_fifo capacity m fifo
      else front # fifo)"

definition shard_insert :: "bytes \<Rightarrow> cached_read \<Rightarrow> shard \<Rightarrow> u64 \<Rightarrow> shard \<times> u64" where
  "shard_insert key value s ev =
     (let added = saturating_add (sh_bytes s) (weight key value);
          s1 = (case map_of (sh_map s) key of
                  None \<Rightarrow> s\<lparr>sh_bytes := added, sh_map := bt_insert key value (sh_map s),
                            sh_fifo := sh_fifo s @ [key]\<rparr>
                | Some old \<Rightarrow> s\<lparr>sh_bytes := added - weight key old,
                                sh_map := bt_insert key value (sh_map s)\<rparr>);
          (s2, ev2) = evict_loop (sh_fifo s1) s1 ev
      in (s2\<lparr>sh_fifo := trim_fifo (sh_capacity s2) (sh_map s2) (sh_fifo s2)\<rparr>, ev2))"

definition rc_insert :: "bytes \<Rightarrow> cached_read \<Rightarrow> read_cache \<Rightarrow> read_cache" where
  "rc_insert key value c =
     (if rc_shards c = [] then c
      else let i = rc_shard c key; (s, ev) = shard_insert key value (rc_shards c ! i) (rc_evictions c)
           in c\<lparr>rc_shards := (rc_shards c)[i := s], rc_evictions := ev\<rparr>)"

definition rc_invalidate :: "bytes \<Rightarrow> read_cache \<Rightarrow> read_cache" where
  "rc_invalidate key c =
     (if rc_shards c = [] then c
      else let i = rc_shard c key
           in c\<lparr>rc_shards := (rc_shards c)[i := evict_key key (rc_shards c ! i)]\<rparr>)"

section \<open>Correctness\<close>

text \<open>
  A shard is well formed when its map is, when every live key is queued for eviction, and when the
  byte count is the weight of what it holds.
\<close>

definition shard_weight :: "(bytes, cached_read) btree \<Rightarrow> nat" where
  "shard_weight m = sum_list (map (\<lambda>(k, v). weight k v) m)"

definition shard_ok :: "shard \<Rightarrow> bool" where
  "shard_ok s \<longleftrightarrow> bt_ok (sh_map s) \<and> fst ` set (sh_map s) \<subseteq> set (sh_fifo s) \<and>
     sh_bytes s = shard_weight (sh_map s)"

definition rc_inv :: "read_cache \<Rightarrow> bool" where
  "rc_inv c \<longleftrightarrow> (\<forall>s \<in> set (rc_shards c). shard_ok s \<and> \<not> over_budget s)"

lemma shard_weight_insert:
  assumes "bt_ok m"
  shows "shard_weight (bt_insert k v m) + (case map_of m k of Some old \<Rightarrow> weight k old | None \<Rightarrow> 0) =
    shard_weight m + weight k v"
  using assms
proof (induction m)
  case (Cons kv m)
  have "map_of m k = None" if "\<not> fst kv < k"
    using Cons.prems that by (auto simp: map_of_eq_None_iff)
  then show ?case using Cons by (cases kv) (auto simp: shard_weight_def split: option.splits)
qed (simp add: shard_weight_def)

lemma shard_weight_remove:
  assumes "bt_ok m" "map_of m k = Some v"
  shows "shard_weight (bt_remove k m) + weight k v = shard_weight m"
  using assms
proof (induction m)
  case (Cons kv m)
  have "bt_remove k m = m" if "k = fst kv"
    using that Cons.prems by (auto simp: bt_remove_def intro!: filter_True)
  then show ?case using Cons by (cases kv) (auto simp: shard_weight_def bt_remove_def split: if_splits)
qed simp

lemma evict_key_fields [simp]:
  "sh_capacity (evict_key k s) = sh_capacity s" "sh_byte_capacity (evict_key k s) = sh_byte_capacity s"
  "sh_fifo (evict_key k s) = sh_fifo s"
  by (simp_all add: evict_key_def split: option.splits)

lemma map_of_evict_key [simp]: "map_of (sh_map (evict_key k s)) = (map_of (sh_map s))(k := None)"
  by (auto simp: evict_key_def split: option.splits)

text \<open>A shard whose queue of the loop is \<open>fifo\<close>.\<close>

definition queued :: "bytes list \<Rightarrow> shard \<Rightarrow> bool" where
  "queued fifo s \<longleftrightarrow> bt_ok (sh_map s) \<and> fst ` set (sh_map s) \<subseteq> set fifo \<and>
     sh_bytes s = shard_weight (sh_map s)"

lemma shard_ok_queued: "shard_ok s \<longleftrightarrow> queued (sh_fifo s) s"
  by (simp add: shard_ok_def queued_def)

lemma queued_evict: "queued (k # fifo) s \<Longrightarrow> queued fifo (evict_key k s)"
  using shard_weight_remove [of "sh_map s" k]
  by (auto simp: queued_def evict_key_def map_of_eq_None_iff split: option.splits) (auto simp: bt_remove_def)

lemma queued_evict_any: "queued fifo s \<Longrightarrow> queued fifo (evict_key k s)"
  using shard_weight_remove [of "sh_map s" k]
  by (auto simp: queued_def evict_key_def split: option.splits) (auto simp: bt_remove_def)

lemma evict_loop_ok:
  assumes "queued fifo s" "evict_loop fifo s ev = (s', ev')"
  shows "shard_ok s' \<and> \<not> over_budget s' \<and> sh_capacity s' = sh_capacity s \<and>
    sh_byte_capacity s' = sh_byte_capacity s \<and> submap (map_of (sh_map s')) (map_of (sh_map s))"
  using assms
proof (induction fifo s ev rule: evict_loop.induct)
  case (1 s ev)
  then show ?case
    by (auto simp: shard_ok_def queued_def over_budget_def shard_weight_def submap_def)
next
  case (2 old fifo s ev)
  show ?case
  proof (cases "over_budget s")
    case True
    then show ?thesis using 2 by (auto simp: queued_evict submap_def split: if_splits)
  next
    case False
    then have "s' = s\<lparr>sh_fifo := old # fifo\<rparr>" using "2.prems"(2) by simp
    then show ?thesis
      using "2.prems"(1) False by (simp add: shard_ok_def queued_def over_budget_def submap_def)
  qed
qed

lemma trim_fifo_keeps: "x \<in> set fifo \<Longrightarrow> map_of m x \<noteq> None \<Longrightarrow> x \<in> set (trim_fifo c m fifo)"
  by (induction fifo) auto

text \<open>The byte count does not saturate while it stays below the word size.\<close>

lemma shard_insert_ok:
  assumes "shard_ok s" "sh_bytes s + weight key value < usize_bound"
    and "shard_insert key value s ev = (s', ev')"
  shows "shard_ok s' \<and> \<not> over_budget s' \<and>
    sh_capacity s' = sh_capacity s \<and> sh_byte_capacity s' = sh_byte_capacity s \<and>
    submap (map_of (sh_map s')) ((map_of (sh_map s))(key \<mapsto> value))"
proof -
  define s1 where "s1 = (case map_of (sh_map s) key of
      None \<Rightarrow> s\<lparr>sh_bytes := saturating_add (sh_bytes s) (weight key value),
        sh_map := bt_insert key value (sh_map s), sh_fifo := sh_fifo s @ [key]\<rparr>
    | Some old \<Rightarrow> s\<lparr>sh_bytes := saturating_add (sh_bytes s) (weight key value) - weight key old,
        sh_map := bt_insert key value (sh_map s)\<rparr>)"
  obtain s2 ev2 where loop: "evict_loop (sh_fifo s1) s1 ev = (s2, ev2)" by force
  have s': "s' = s2\<lparr>sh_fifo := trim_fifo (sh_capacity s2) (sh_map s2) (sh_fifo s2)\<rparr>"
    using assms(3) loop by (simp add: shard_insert_def Let_def s1_def)
  have ok: "bt_ok (sh_map s)" and bytes: "sh_bytes s = shard_weight (sh_map s)"
    and keys: "fst ` set (sh_map s) \<subseteq> set (sh_fifo s)"
    using assms(1) by (auto simp: shard_ok_def)
  have "queued (sh_fifo s1) s1"
  proof (cases "map_of (sh_map s) key")
    case None
    then show ?thesis
      using keys shard_weight_insert [OF ok, of key "value"] ok bytes assms(2)
      by (auto simp: queued_def s1_def saturating_add_def keys_bt_insert)
  next
    case (Some old)
    then have "key \<in> set (sh_fifo s)" using keys by (force dest: map_of_SomeD)
    then show ?thesis
      using Some keys shard_weight_insert [OF ok, of key "value"] ok bytes assms(2)
      by (auto simp: queued_def s1_def saturating_add_def keys_bt_insert)
  qed
  then have l: "shard_ok s2" "\<not> over_budget s2" "sh_capacity s2 = sh_capacity s1"
    "sh_byte_capacity s2 = sh_byte_capacity s1" "submap (map_of (sh_map s2)) (map_of (sh_map s1))"
    using evict_loop_ok [OF _ loop] by auto
  have "fst ` set (sh_map s2) \<subseteq> set (trim_fifo (sh_capacity s2) (sh_map s2) (sh_fifo s2))"
  proof
    fix x assume x: "x \<in> fst ` set (sh_map s2)"
    then have "map_of (sh_map s2) x \<noteq> None" by (simp add: map_of_eq_None_iff)
    moreover have "x \<in> set (sh_fifo s2)" using x l(1) by (auto simp: shard_ok_def)
    ultimately show "x \<in> set (trim_fifo (sh_capacity s2) (sh_map s2) (sh_fifo s2))"
      by (rule trim_fifo_keeps [rotated])
  qed
  then have "shard_ok s'" using l(1) by (simp add: shard_ok_def s')
  with l show ?thesis by (auto simp: s' s1_def over_budget_def split: option.splits)
qed

subsection \<open>The cache as a partial memory\<close>

definition rc_lookup :: "read_cache \<Rightarrow> bytes \<Rightarrow> cached_read option" where
  "rc_lookup c key = snd (rc_get key c)"

definition rc_wf :: "read_cache \<Rightarrow> bool" where
  "rc_wf c \<longleftrightarrow> length (rc_shards c) \<le> MAX_SHARDS"

lemma rc_shard_less:
  assumes "rc_wf c" "rc_shards c \<noteq> []"
  shows "rc_shard c key < length (rc_shards c)"
proof -
  have "unat (of_nat (length (rc_shards c)) :: u64) = length (rc_shards c)"
    using assms by (simp add: rc_wf_def unat_of_nat)
  then show ?thesis using assms(2) by (simp add: rc_shard_def unat_mod_distrib Let_def)
qed

lemma rc_lookup_eq:
  "rc_lookup c key = (if rc_shards c = [] then None else map_of (sh_map (rc_shards c ! rc_shard c key)) key)"
  by (simp add: rc_lookup_def rc_get_def Let_def)

lemma rc_get_lookup: "rc_get key c = (c', r) \<Longrightarrow> r = rc_lookup c key \<and> rc_lookup c' = rc_lookup c \<and> rc_wf c' = rc_wf c"
  by (auto simp: rc_lookup_eq rc_get_def rc_shard_def rc_wf_def Let_def fun_eq_iff split: if_splits)

lemma evict_loop_submap: "submap (map_of (sh_map (fst (evict_loop fifo s ev)))) (map_of (sh_map s))"
proof (induction fifo s ev rule: evict_loop.induct)
  case (2 old fifo s ev)
  have "submap (map_of (sh_map (evict_key old s))) (map_of (sh_map s))"
    by (simp only: map_of_evict_key submap_drop)
  then show ?case
    using submap_trans [OF 2] by (cases "over_budget s") (simp_all del: map_of_evict_key split del: if_split)
qed simp

lemma shard_insert_submap:
  "submap (map_of (sh_map (fst (shard_insert key value s ev)))) ((map_of (sh_map s))(key \<mapsto> value))"
proof -
  define s1 where "s1 = (case map_of (sh_map s) key of
      None \<Rightarrow> s\<lparr>sh_bytes := saturating_add (sh_bytes s) (weight key value),
        sh_map := bt_insert key value (sh_map s), sh_fifo := sh_fifo s @ [key]\<rparr>
    | Some old \<Rightarrow> s\<lparr>sh_bytes := saturating_add (sh_bytes s) (weight key value) - weight key old,
        sh_map := bt_insert key value (sh_map s)\<rparr>)"
  have "map_of (sh_map s1) = (map_of (sh_map s))(key \<mapsto> value)"
    by (simp add: s1_def split: option.splits)
  moreover have "sh_map (fst (shard_insert key value s ev)) = sh_map (fst (evict_loop (sh_fifo s1) s1 ev))"
    by (simp add: shard_insert_def Let_def case_prod_unfold s1_def)
  ultimately show ?thesis using evict_loop_submap [of "sh_fifo s1" s1 ev] by simp
qed

lemma rc_insert_wf [simp]: "rc_wf (rc_insert k v c) = rc_wf c"
  by (simp add: rc_wf_def rc_insert_def Let_def case_prod_unfold)

lemma rc_invalidate_wf [simp]: "rc_wf (rc_invalidate k c) = rc_wf c"
  by (simp add: rc_wf_def rc_invalidate_def Let_def)

lemma rc_lookup_update:
  assumes "rc_wf c" "rc_shards c \<noteq> []" "rc_shards c' = (rc_shards c)[rc_shard c key := s]"
  shows "rc_lookup c' k =
    (if rc_shard c k = rc_shard c key then map_of (sh_map s) k else rc_lookup c k)"
proof -
  have "rc_shard c' k = rc_shard c k" using assms(3) by (simp add: rc_shard_def)
  then show ?thesis using assms rc_shard_less [OF assms(1,2)] by (auto simp: rc_lookup_eq)
qed

interpretation reads: coherent_cache rc_lookup rc_insert rc_wf rc_invalidate
proof
  fix c k v assume wf: "rc_wf c"
  show "submap (rc_lookup (rc_insert k v c)) ((rc_lookup c)(k \<mapsto> v))"
  proof (cases "rc_shards c = []")
    case True
    then show ?thesis by (simp add: submap_def rc_lookup_eq rc_insert_def)
  next
    case False
    have "rc_lookup (rc_insert k v c) k' =
        (if rc_shard c k' = rc_shard c k
         then map_of (sh_map (fst (shard_insert k v (rc_shards c ! rc_shard c k) (rc_evictions c)))) k'
         else rc_lookup c k')" for k'
      using False by (intro rc_lookup_update [OF wf False]) (simp add: rc_insert_def Let_def case_prod_unfold)
    then show ?thesis
      using shard_insert_submap [of k v "rc_shards c ! rc_shard c k" "rc_evictions c"] False
      unfolding submap_def by (auto simp: rc_lookup_eq)
  qed
  show "rc_lookup (rc_invalidate k c) = (rc_lookup c)(k := None)"
  proof (cases "rc_shards c = []")
    case True
    then show ?thesis by (simp add: fun_eq_iff rc_lookup_eq rc_invalidate_def)
  next
    case False
    have "rc_lookup (rc_invalidate k c) k' =
        (if rc_shard c k' = rc_shard c k
         then map_of (sh_map (evict_key k (rc_shards c ! rc_shard c k))) k' else rc_lookup c k')" for k'
      using False by (intro rc_lookup_update [OF wf False]) (simp add: rc_invalidate_def Let_def)
    then show ?thesis using False by (auto simp: fun_eq_iff rc_lookup_eq)
  qed
qed simp_all

subsection \<open>Runs of the cache\<close>

datatype cache_op = CacheGet bytes | CacheInsert bytes cached_read | CacheInvalidate bytes

fun cache_step :: "cache_op \<Rightarrow> read_cache \<Rightarrow> read_cache" where
  "cache_step (CacheGet k) c = fst (rc_get k c)"
| "cache_step (CacheInsert k v) c = rc_insert k v c"
| "cache_step (CacheInvalidate k) c = rc_invalidate k c"

text \<open>What a perfect, unbounded cache would answer.\<close>

fun answer_step :: "cache_op \<Rightarrow> (bytes \<Rightarrow> cached_read option) \<Rightarrow> bytes \<Rightarrow> cached_read option" where
  "answer_step (CacheGet k) f = f"
| "answer_step (CacheInsert k v) f = f(k \<mapsto> v)"
| "answer_step (CacheInvalidate k) f = f(k := None)"

lemma rc_new_wf [simp]: "rc_wf (rc_new capacity byte_cap)"
  by (simp add: rc_wf_def rc_new_def Let_def min.coboundedI1)

lemma new_shard_empty [simp]: "sh_map (new_shard c b n i) = []" "sh_fifo (new_shard c b n i) = []"
    "sh_bytes (new_shard c b n i) = 0"
  by (simp_all add: new_shard_def)

lemma rc_new_shards: "s \<in> set (rc_shards (rc_new c b)) \<Longrightarrow> \<exists>n i. s = new_shard c b n i"
  unfolding rc_new_def Let_def by auto

lemma rc_new_empty: "rc_lookup (rc_new capacity byte_cap) = Map.empty"
proof
  fix k
  show "rc_lookup (rc_new capacity byte_cap) k = None"
  proof (cases "rc_shards (rc_new capacity byte_cap) = []")
    case False
    have "rc_shards (rc_new capacity byte_cap) ! rc_shard (rc_new capacity byte_cap) k
        \<in> set (rc_shards (rc_new capacity byte_cap))"
      using rc_shard_less [OF rc_new_wf False] by (rule nth_mem)
    moreover have "sh_map s = []" if "s \<in> set (rc_shards (rc_new capacity byte_cap))" for s
      using rc_new_shards [OF that] by auto
    ultimately show ?thesis using False by (simp add: rc_lookup_eq)
  qed (simp add: rc_lookup_eq)
qed

lemma cache_step_submap:
  assumes "rc_wf c" "submap (rc_lookup c) f"
  shows "rc_wf (cache_step e c)" "submap (rc_lookup (cache_step e c)) (answer_step e f)"
proof -
  show "rc_wf (cache_step e c)"
    using assms(1) rc_get_lookup by (cases e) (simp_all, metis prod.collapse)
  have "submap ((rc_lookup c)(k := x)) (f(k := x))" for k x
    using assms(2) by (auto simp: submap_def)
  then show "submap (rc_lookup (cache_step e c)) (answer_step e f)"
    using assms reads.look_remember [OF assms(1)] reads.look_forget [OF assms(1)] rc_get_lookup
    by (cases e) (simp_all del: fun_upd_apply, metis prod.collapse, metis submap_trans)
qed

lemma fold_cache_step:
  assumes "rc_wf c" "submap (rc_lookup c) f"
  shows "submap (rc_lookup (fold cache_step ops c)) (fold answer_step ops f)"
  using assms by (induction ops arbitrary: c f) (simp_all add: cache_step_submap)

subsection \<open>Budgets\<close>

lemma rc_inv_insert:
  assumes "rc_wf c" "rc_inv c" "\<forall>s \<in> set (rc_shards c). sh_bytes s + weight k v < usize_bound"
  shows "rc_inv (rc_insert k v c) \<and>
    map (\<lambda>s. (sh_capacity s, sh_byte_capacity s)) (rc_shards (rc_insert k v c)) =
    map (\<lambda>s. (sh_capacity s, sh_byte_capacity s)) (rc_shards c)"
proof (cases "rc_shards c = []")
  case False
  let ?i = "rc_shard c k"
  obtain s ev where s: "shard_insert k v (rc_shards c ! ?i) (rc_evictions c) = (s, ev)" by force
  have mem: "?i < length (rc_shards c)" using assms(1) False by (rule rc_shard_less)
  then have i: "rc_shards c ! ?i \<in> set (rc_shards c)" by simp
  have "shard_ok s \<and> \<not> over_budget s \<and> sh_capacity s = sh_capacity (rc_shards c ! ?i) \<and>
      sh_byte_capacity s = sh_byte_capacity (rc_shards c ! ?i)"
    using shard_insert_ok [OF _ _ s] assms(2,3) i by (auto simp: rc_inv_def)
  then show ?thesis
    using assms(2) s mem set_update_subset_insert [of "rc_shards c" ?i s]
    by (auto simp: rc_inv_def rc_insert_def map_update list_update_same_conv)
qed (use assms in \<open>simp add: rc_insert_def\<close>)

lemma evict_key_not_over: "\<not> over_budget s \<Longrightarrow> \<not> over_budget (evict_key k s)"
  by (auto simp: over_budget_def evict_key_def bt_remove_def split: option.splits)
    (metis length_filter_le less_le_trans)+

lemma rc_inv_invalidate:
  assumes "rc_wf c" "rc_inv c"
  shows "rc_inv (rc_invalidate k c) \<and>
    map (\<lambda>s. (sh_capacity s, sh_byte_capacity s)) (rc_shards (rc_invalidate k c)) =
    map (\<lambda>s. (sh_capacity s, sh_byte_capacity s)) (rc_shards c)"
proof (cases "rc_shards c = []")
  case False
  let ?i = "rc_shard c k"
  have mem: "?i < length (rc_shards c)" using assms(1) False by (rule rc_shard_less)
  then have "rc_shards c ! ?i \<in> set (rc_shards c)" by simp
  then have "shard_ok (evict_key k (rc_shards c ! ?i)) \<and> \<not> over_budget (evict_key k (rc_shards c ! ?i))"
    using assms(2) evict_key_not_over queued_evict_any by (simp add: rc_inv_def shard_ok_queued)
  then show ?thesis
    using assms(2) mem set_update_subset_insert [of "rc_shards c" ?i "evict_key k (rc_shards c ! ?i)"]
    by (auto simp: rc_inv_def rc_invalidate_def Let_def map_update list_update_same_conv)
qed (use assms in \<open>simp add: rc_invalidate_def\<close>)

lemma sum_split_budget:
  assumes "0 < n"
  shows "sum_list (map (\<lambda>i. c div n + (if i < c mod n then 1 else 0)) [0..<n]) = (c :: nat)"
proof -
  have "sum_list (map (\<lambda>i. if i < k then 1 else 0) [0..<m]) = min k (m::nat)" for k m
    by (induction m) (auto simp: min_def)
  then have "sum_list (map (\<lambda>i. if i < c mod n then 1 else 0) [0..<n]) = c mod n"
    using assms by (simp add: min.absorb1 less_imp_le)
  moreover have "sum_list (map (\<lambda>i. c div n + f i) [0..<m]) = m * (c div n) + sum_list (map f [0..<m])" for f m
    by (induction m) auto
  ultimately show ?thesis by simp
qed

definition rc_budget :: "nat \<Rightarrow> nat \<Rightarrow> read_cache \<Rightarrow> bool" where
  "rc_budget capacity byte_cap c \<longleftrightarrow> rc_wf c \<and> rc_inv c \<and>
     sum_list (map sh_capacity (rc_shards c)) \<le> capacity \<and>
     sum_list (map sh_byte_capacity (rc_shards c)) \<le> byte_cap \<and>
     (\<forall>s \<in> set (rc_shards c). 0 < sh_byte_capacity s \<and> sh_byte_capacity s \<le> byte_cap)"

lemma rc_budget_new:
  assumes "0 < byte_cap"
  shows "rc_budget capacity byte_cap (rc_new capacity byte_cap)"
proof -
  define n where "n = min (min capacity MAX_SHARDS) (max (byte_cap div MIN_SHARD_BYTES) 1)"
  have sh: "rc_shards (rc_new capacity byte_cap) = map (new_shard capacity byte_cap n) [0..<n]"
    using assms by (simp add: rc_new_def n_def Let_def)
  have n: "n \<le> byte_cap" using assms by (auto simp: n_def)
  have pos: "0 < byte_cap div n" if "0 < n" using n that by (simp add: div_greater_zero_iff)
  then have b: "sh_byte_capacity (new_shard capacity byte_cap n i) =
      byte_cap div n + (if i < byte_cap mod n then 1 else 0)" if "0 < n" for i
    using pos [OF that] assms by (simp add: new_shard_def max_def)
  show ?thesis
  proof (cases "n = 0")
    case True
    then show ?thesis using sh by (simp add: rc_budget_def rc_inv_def)
  next
    case False
    have bytes: "sum_list (map sh_byte_capacity (rc_shards (rc_new capacity byte_cap))) = byte_cap"
      using False b sum_split_budget [of n byte_cap] by (simp add: sh comp_def)
    have "sum_list (map sh_capacity (rc_shards (rc_new capacity byte_cap))) = capacity"
      using False sum_split_budget [of n capacity] by (simp add: sh comp_def new_shard_def)
    moreover have "rc_inv (rc_new capacity byte_cap)"
      by (auto simp: rc_inv_def sh shard_ok_def over_budget_def shard_weight_def)
    moreover have "0 < sh_byte_capacity s" if "s \<in> set (rc_shards (rc_new capacity byte_cap))" for s
      using that False b pos by (auto simp: sh)
    moreover have "sh_byte_capacity s \<le> byte_cap" if "s \<in> set (rc_shards (rc_new capacity byte_cap))" for s
      using that bytes member_le_sum_list [of "sh_byte_capacity s"
          "map sh_byte_capacity (rc_shards (rc_new capacity byte_cap))"] by simp
    ultimately show ?thesis using bytes by (simp add: rc_budget_def)
  qed
qed

lemma rc_budget_cong:
  assumes "rc_inv c'" "rc_wf c'" "rc_budget capacity byte_cap c"
    "map (\<lambda>s. (sh_capacity s, sh_byte_capacity s)) (rc_shards c') =
      map (\<lambda>s. (sh_capacity s, sh_byte_capacity s)) (rc_shards c)"
  shows "rc_budget capacity byte_cap c'"
proof -
  have "map sh_capacity (rc_shards c') = map sh_capacity (rc_shards c)"
    "map sh_byte_capacity (rc_shards c') = map sh_byte_capacity (rc_shards c)"
    using arg_cong [OF assms(4), of "map fst"] arg_cong [OF assms(4), of "map snd"]
    by (simp_all add: comp_def)
  moreover from this(2) have "sh_byte_capacity ` set (rc_shards c') = sh_byte_capacity ` set (rc_shards c)"
    by (metis image_set)
  ultimately show ?thesis using assms(1-3) unfolding rc_budget_def by (metis (no_types, lifting) image_iff)
qed

lemma rc_budget_step:
  assumes "rc_budget capacity byte_cap c" "\<And>k v. e = CacheInsert k v \<Longrightarrow> byte_cap + weight k v < usize_bound"
  shows "rc_budget capacity byte_cap (cache_step e c)"
proof (cases e)
  case (CacheGet k)
  have "rc_shards (fst (rc_get k c)) = rc_shards c" by (simp add: rc_get_def Let_def)
  then show ?thesis using assms(1) CacheGet by (simp add: rc_budget_def rc_wf_def rc_inv_def)
next
  case (CacheInsert k v)
  have "sh_bytes s \<le> byte_cap" if "s \<in> set (rc_shards c)" for s
    using assms(1) that by (fastforce simp: rc_budget_def rc_inv_def over_budget_def)
  then have "\<forall>s \<in> set (rc_shards c). sh_bytes s + weight k v < usize_bound"
    using assms(2) [OF CacheInsert] by (meson add_le_mono1 le_less_trans)
  then have "rc_inv (rc_insert k v c)" "map (\<lambda>s. (sh_capacity s, sh_byte_capacity s)) (rc_shards (rc_insert k v c)) =
      map (\<lambda>s. (sh_capacity s, sh_byte_capacity s)) (rc_shards c)"
    using assms(1) rc_inv_insert [of c k v] by (simp_all add: rc_budget_def)
  then show ?thesis
    using rc_budget_cong [OF _ _ assms(1)] CacheInsert assms(1) by (simp add: rc_budget_def)
next
  case (CacheInvalidate k)
  have "rc_wf c" "rc_inv c" using assms(1) by (simp_all add: rc_budget_def)
  then show ?thesis
    using rc_budget_cong [OF _ _ assms(1), of "rc_invalidate k c"] rc_inv_invalidate [of c k] CacheInvalidate by simp
qed

lemma rc_budget_entries:
  assumes "rc_budget capacity byte_cap c"
  shows "cs_entries (rc_stats c) \<le> capacity" "sum_list (map (\<lambda>s. shard_weight (sh_map s)) (rc_shards c)) \<le> byte_cap"
proof -
  have "sum_list (map (\<lambda>s. length (sh_map s)) (rc_shards c)) \<le> sum_list (map sh_capacity (rc_shards c))"
    using assms by (intro sum_list_mono) (auto simp: rc_budget_def rc_inv_def over_budget_def not_less)
  then show "cs_entries (rc_stats c) \<le> capacity" using assms by (simp add: rc_stats_def rc_budget_def)
  have "sum_list (map (\<lambda>s. shard_weight (sh_map s)) (rc_shards c)) \<le> sum_list (map sh_byte_capacity (rc_shards c))"
    using assms by (intro sum_list_mono) (force simp: rc_budget_def rc_inv_def over_budget_def shard_ok_def not_less)
  then show "sum_list (map (\<lambda>s. shard_weight (sh_map s)) (rc_shards c)) \<le> byte_cap"
    using assms by (simp add: rc_budget_def)
qed

section \<open>Properties\<close>

text \<open>
  C9: the read cache never answers from the past. After any sequence of lookups, insertions and
  invalidations, with any budgets, a lookup that hits returns the answer recorded last for the
  key, and it hits only if the key was not invalidated since.
\<close>

theorem cache_hit_is_latest:
  "snd (rc_get key (fold cache_step ops (rc_new capacity byte_cap))) \<in>
     {None, fold answer_step ops Map.empty key}"
proof -
  have "submap (rc_lookup (fold cache_step ops (rc_new capacity byte_cap))) (fold answer_step ops Map.empty)"
    by (rule fold_cache_step) (simp_all add: rc_new_empty)
  then show ?thesis by (simp add: submap_def rc_lookup_def)
qed

text \<open>
  C24: the cache stays within both of its budgets. With a byte ceiling, and entries too small to
  saturate the byte counters, after any sequence of operations it holds at most
  \<open>capacity\<close> entries in total and their weight is at most \<open>byte_cap\<close>.
\<close>

theorem cache_within_budgets:
  assumes "0 < byte_cap"
    and "\<forall>k v. CacheInsert k v \<in> set ops \<longrightarrow> byte_cap + weight k v < usize_bound"
    and "c = fold cache_step ops (rc_new capacity byte_cap)"
  shows "cs_entries (rc_stats c) \<le> capacity
    \<and> sum_list (map (\<lambda>s. shard_weight (sh_map s)) (rc_shards c)) \<le> byte_cap"
proof -
  have "rc_budget capacity byte_cap (fold cache_step ops c0)" if "rc_budget capacity byte_cap c0" for c0
    using assms(2) that by (induction ops arbitrary: c0) (simp_all add: rc_budget_step)
  then show ?thesis using rc_budget_entries rc_budget_new [OF assms(1)] assms(3) by blast
qed

theorem cache_within_budgets_witness:
  "cs_entries (rc_stats (fold cache_step [CacheInsert [1] None, CacheInsert [2] None] (rc_new 1 100))) \<le> 1"
  using cache_within_budgets [of 100 "[CacheInsert [1] None, CacheInsert [2] None]" _ 1]
  by (simp add: weight_def)

text \<open>
  C25: the eviction queue is not bounded by the cache. With room for two entries, a live entry at the
  head of the queue and a second key that is inserted and invalidated over and over, the queue
  gains one stale element per round although the cache never holds more than two entries.
\<close>

theorem cache_fifo_grows:
  "\<exists>s. rc_shards (fold cache_step
       (CacheInsert [0] None # concat (replicate n [CacheInsert [1] None, CacheInvalidate [1]])) (rc_new 2 65536)) = [s]
     \<and> sh_capacity s = 2 \<and> length (sh_map s) = 1 \<and> length (sh_fifo s) = n + 1"
proof -
  define st where "st n = \<lparr>rc_shards = [\<lparr>sh_capacity = 2, sh_byte_capacity = 65536, sh_bytes = 82,
      sh_map = [([0], None)], sh_fifo = [0] # replicate n [1]\<rparr>],
      rc_hits = 0, rc_misses = 0, rc_evictions = 0\<rparr>" for n
  have new: "rc_new 2 65536 = \<lparr>rc_shards = [\<lparr>sh_capacity = 2, sh_byte_capacity = 65536, sh_bytes = 0,
      sh_map = [], sh_fifo = []\<rparr>], rc_hits = 0, rc_misses = 0, rc_evictions = 0\<rparr>"
    by (simp add: rc_new_def new_shard_def Let_def)
  have sh: "rc_shard \<lparr>rc_shards = [s], rc_hits = 0, rc_misses = 0, rc_evictions = 0\<rparr> k = 0" for s k
    by (simp add: rc_shard_def Let_def)
  have first: "cache_step (CacheInsert [0] None) (rc_new 2 65536) = st 0"
    by (simp add: st_def new rc_insert_def sh shard_insert_def Let_def weight_def saturating_add_def over_budget_def)
  have step: "cache_step (CacheInvalidate [1]) (cache_step (CacheInsert [1] None) (st n)) = st (Suc n)" for n
    by (simp add: st_def rc_insert_def rc_invalidate_def sh shard_insert_def Let_def weight_def
        saturating_add_def over_budget_def evict_key_def bt_remove_def replicate_append_same)
  have "fold cache_step (concat (replicate m [CacheInsert [1] None, CacheInvalidate [1]])) (st n) =
      st (n + m)" for n m
    by (induction m arbitrary: n) (simp_all add: step del: cache_step.simps)
  from this [of n 0] show ?thesis by (simp add: first st_def del: cache_step.simps)
qed

end
