(* ===== verification/Storage_Base.thy ===== *)
theory Storage_Base
  imports Hlc
begin

text \<open>
  What the log and the tables share: the error type (\<open>error.rs\<close>), the CRC-32 checksum
  (\<open>crc.rs\<close>), the block codecs (\<open>compress.rs\<close>) and the at-rest envelope encryption
  (\<open>crypto.rs\<close>). The compression and AEAD primitives are third-party crates (\<open>lz4_flex\<close>,
  \<open>brotli\<close>, \<open>ring\<close>): they are the fields of \<open>externals\<close>, an argument of every definition that
  uses them, and \<open>codec_ok\<close> and \<open>aead_ok\<close> state their documented behaviour. The random bytes
  that \<open>ring::rand\<close> draws are arguments too (\<open>None\<close> when the generator fails).
\<close>

section \<open>Errors\<close>

datatype storage_error =
    Io string
  | Corruption u64 string
  | Crypto string

section \<open>CRC-32\<close>

definition crc_poly :: u32 where "crc_poly = 0xEDB88320"

definition crc_bit :: "u32 \<Rightarrow> u32" where
  "crc_bit crc = (let mask = - (crc AND 1) in drop_bit 1 crc XOR (crc_poly AND mask))"

definition crc_byte :: "u32 \<Rightarrow> byte \<Rightarrow> u32" where
  "crc_byte crc b = (crc_bit ^^ 8) (crc XOR ucast b)"

definition crc32 :: "bytes \<Rightarrow> u32" where
  "crc32 data = NOT (foldl crc_byte 0xFFFFFFFF data)"

lemma crc_bit_alt: "crc_bit c = drop_bit 1 c XOR (if bit c 0 then crc_poly else 0)"
proof -
  have "c AND 1 = (if bit c 0 then 1 else 0)"
    by (simp add: and_one_eq mod_2_eq_odd bit_0)
  then show ?thesis by (simp add: crc_bit_def Let_def)
qed

text \<open>The polynomial's top bit makes one division step invertible.\<close>

lemma crc_bit_inj: "inj crc_bit"
proof (rule injI)
  fix c d assume eq: "crc_bit c = crc_bit d"
  have top: "bit (crc_bit x) 31 = bit x 0" for x
    using bit_imp_le_length [of x 32] by (auto simp: crc_bit_alt crc_poly_def bit_simps)
  have b: "bit c 0 = bit d 0" using top [of c] top [of d] eq by simp
  then have "drop_bit 1 c = drop_bit 1 d"
    using eq by (simp add: crc_bit_alt xor_right_cancel split: if_splits)
  then have "bit c (Suc n) = bit d (Suc n)" for n
    by (metis bit_drop_bit_eq comp_apply plus_1_eq_Suc)
  with b have "bit c n = bit d n" for n by (cases n) auto
  then show "c = d" by (simp add: bit_eq_iff)
qed

lemma crc_byte_inj_state: "crc_byte c b = crc_byte d b \<longleftrightarrow> c = d"
proof -
  have "inj (crc_bit ^^ 8)" by (rule inj_fn [OF crc_bit_inj])
  then show ?thesis by (simp add: crc_byte_def inj_eq xor_right_cancel)
qed

lemma crc_byte_inj_byte: "crc_byte c a = crc_byte c b \<longleftrightarrow> a = b"
proof -
  have "inj (crc_bit ^^ 8)" by (rule inj_fn [OF crc_bit_inj])
  moreover have "bit x n = bit (ucast x :: u32) n" for x :: byte and n
    using bit_imp_le_length [of x n] by (auto simp: bit_simps)
  then have "ucast a = (ucast b :: u32) \<longleftrightarrow> a = b"
    by (metis bit_eqI)
  ultimately show ?thesis by (simp add: crc_byte_def inj_eq xor_left_cancel)
qed

lemma foldl_crc_inj: "foldl crc_byte c xs = foldl crc_byte d xs \<longleftrightarrow> c = d"
  by (induction xs arbitrary: c d) (simp_all add: crc_byte_inj_state)

lemma crc32_single_byte:
  assumes "a \<noteq> b"
  shows "crc32 (xs @ a # ys) \<noteq> crc32 (xs @ b # ys)"
  using assms by (simp add: crc32_def foldl_crc_inj crc_byte_inj_byte)

section \<open>Files\<close>

definition write_all_at :: "bytes \<Rightarrow> bytes \<Rightarrow> nat \<Rightarrow> bytes" where
  "write_all_at f bs off =
     take off f @ replicate (off - length f) 0 @ bs @ drop (off + length bs) f"

definition set_len :: "nat \<Rightarrow> bytes \<Rightarrow> bytes" where
  "set_len n f = take n f @ replicate (n - length f) 0"

definition read_exact_at :: "bytes \<Rightarrow> nat \<Rightarrow> nat \<Rightarrow> storage_error + bytes" where
  "read_exact_at f n off =
     (if off + n \<le> length f then Inr (take n (drop off f)) else Inl (Io ''UnexpectedEof''))"

text \<open>The operation byte of a logged or stored version.\<close>

definition OP_PUT :: byte where "OP_PUT = 0"
definition OP_DELETE :: byte where "OP_DELETE = 1"

section \<open>Parameters\<close>

text \<open>
  \<open>bloom_sizing\<close> stands for the two floating-point formulas by which \<open>Bloom::with_capacity\<close> derives
  the number of bits, at least 8, and of probes from the number of keys.
\<close>

record externals =
  lz4_compress :: "bytes \<Rightarrow> bytes"
  lz4_decompress :: "bytes \<Rightarrow> nat \<Rightarrow> bytes option"
  brotli_compress :: "bytes \<Rightarrow> bytes"
  brotli_decompress :: "bytes \<Rightarrow> bytes option"
  aead_seal :: "bytes \<Rightarrow> bytes \<Rightarrow> bytes \<Rightarrow> bytes \<Rightarrow> bytes option"
  aead_open :: "bytes \<Rightarrow> bytes \<Rightarrow> bytes \<Rightarrow> bytes \<Rightarrow> bytes option"
  bloom_sizing :: "nat \<Rightarrow> u64 \<times> u32"

text \<open>
  Decompression inverts compression when it is given the original length; the output for a
  non-empty input is not empty and far from twice as long.
\<close>

definition codec_ok :: "externals \<Rightarrow> bool" where
  "codec_ok X \<longleftrightarrow>
     (\<forall>d. lz4_decompress X (lz4_compress X d) (length d) = Some d) \<and>
     (\<forall>d. brotli_decompress X (brotli_compress X d) = Some d) \<and>
     (\<forall>d. d \<noteq> [] \<longrightarrow> lz4_compress X d \<noteq> [] \<and> brotli_compress X d \<noteq> []) \<and>
     (\<forall>d. length (lz4_compress X d) \<le> 2 * length d + 1024 \<and>
          length (brotli_compress X d) \<le> 2 * length d + 1024)"

definition sizing_ok :: "externals \<Rightarrow> bool" where
  "sizing_ok X \<longleftrightarrow> (\<forall>n. 8 \<le> fst (bloom_sizing X n) \<and> unat (fst (bloom_sizing X n)) + 8 \<le> 2 ^ 64)"

text \<open>
  AES-256-GCM: the arguments are the key, the nonce, the associated data and the text. What was
  sealed opens to the plain text under the same key, nonce and associated data, and the sealed
  region is the 16 byte tag longer.
\<close>

definition aead_ok :: "externals \<Rightarrow> bool" where
  "aead_ok X \<longleftrightarrow>
     (\<forall>k n a p c. aead_seal X k n a p = Some c \<longrightarrow>
        aead_open X k n a c = Some p \<and> length c = length p + 16)"

text \<open>A concrete instance: no compression, a tag of zero bytes, and filters of 64 bits.\<close>

definition plain_externals :: externals where
  "plain_externals =
     \<lparr> lz4_compress = (\<lambda>d. d), lz4_decompress = (\<lambda>d _. Some d),
       brotli_compress = (\<lambda>d. d), brotli_decompress = Some,
       aead_seal = (\<lambda>_ _ _ p. Some (p @ replicate 16 0)),
       aead_open = (\<lambda>_ _ _ c. if length c < 16 then None else Some (take (length c - 16) c)),
       bloom_sizing = (\<lambda>_. (64, 7)) \<rparr>"

lemma sizing_ok_plain: "sizing_ok plain_externals"
  by (simp add: sizing_ok_def plain_externals_def)

lemma codec_ok_plain: "codec_ok plain_externals"
  by (simp add: codec_ok_def plain_externals_def)

lemma aead_ok_plain: "aead_ok plain_externals"
  by (auto simp: aead_ok_def plain_externals_def)

section \<open>Block codecs\<close>

datatype codec = Codec_None | Lz4 | Brotli

fun codec_to_u8 :: "codec \<Rightarrow> byte" where
  "codec_to_u8 Codec_None = 0"
| "codec_to_u8 Lz4 = 1"
| "codec_to_u8 Brotli = 2"

definition codec_from_u8 :: "byte \<Rightarrow> codec option" where
  "codec_from_u8 b =
     (if b = 0 then Some Codec_None else if b = 1 then Some Lz4
      else if b = 2 then Some Brotli else None)"

fun compress :: "externals \<Rightarrow> codec \<Rightarrow> bytes \<Rightarrow> bytes" where
  "compress X Codec_None data = data"
| "compress X Lz4 data = lz4_compress X data"
| "compress X Brotli data = brotli_compress X data"

fun decompress :: "externals \<Rightarrow> codec \<Rightarrow> bytes \<Rightarrow> nat \<Rightarrow> storage_error + bytes" where
  "decompress X Codec_None data n = Inr data"
| "decompress X Lz4 data n =
     (case lz4_decompress X data n of
        Some d \<Rightarrow> Inr d | None \<Rightarrow> Inl (Corruption 0 ''lz4 decompress''))"
| "decompress X Brotli data n =
     (case brotli_decompress X data of
        Some d \<Rightarrow> Inr d | None \<Rightarrow> Inl (Corruption 0 ''brotli decompress''))"

lemma codec_from_to_u8 [simp, codec_simps]: "codec_from_u8 (codec_to_u8 c) = Some c"
  by (cases c) (simp_all add: codec_from_u8_def)

lemma codec_from_u8_SomeD: "codec_from_u8 b = Some c \<Longrightarrow> b = codec_to_u8 c"
  by (auto simp: codec_from_u8_def split: if_splits)

lemma compress_nonempty: "codec_ok X \<Longrightarrow> d \<noteq> [] \<Longrightarrow> compress X c d \<noteq> []"
  by (cases c) (simp_all add: codec_ok_def)

lemma compress_length: "codec_ok X \<Longrightarrow> length (compress X c d) \<le> 2 * length d + 1024"
  by (cases c) (simp_all add: codec_ok_def)

lemma decompress_compress [codec_simps]:
  "codec_ok X \<Longrightarrow> decompress X c (compress X c data) (length data) = Inr data"
  by (cases c) (simp_all add: codec_ok_def)

section \<open>Envelope encryption\<close>

abbreviation NONCE_LEN :: nat where "NONCE_LEN \<equiv> 12"
abbreviation TAG_LEN :: nat where "TAG_LEN \<equiv> 16"
abbreviation KEY_LEN :: nat where "KEY_LEN \<equiv> 32"

datatype kek = Kek bytes
datatype dek = Dek bytes

definition nonce_from_offset :: "u64 \<Rightarrow> bytes" where
  "nonce_from_offset offset = replicate (NONCE_LEN - 8) 0 @ le_bytes 8 offset"

definition kek_from_bytes :: "bytes \<Rightarrow> storage_error + kek" where
  "kek_from_bytes bs =
     (if length bs = KEY_LEN then Inr (Kek bs) else Inl (Crypto ''key must be exactly 32 bytes''))"

definition dek_from_bytes :: "bytes \<Rightarrow> storage_error + dek" where
  "dek_from_bytes bs =
     (if length bs = KEY_LEN then Inr (Dek bs) else Inl (Crypto ''dek must be 32 bytes''))"

fun random_key :: "bytes option \<Rightarrow> storage_error + bytes" where
  "random_key None = Inl (Crypto ''rng'')"
| "random_key (Some k) = Inr k"

definition kek_generate :: "bytes option \<Rightarrow> storage_error + kek" where
  "kek_generate rnd = rbind (random_key rnd) (\<lambda>k. Inr (Kek k))"

fun as_bytes :: "kek \<Rightarrow> bytes" where
  "as_bytes (Kek k) = k"

text \<open>\<open>rk\<close> and \<open>rn\<close> are the random key and nonce the generator yields.\<close>

fun wrap_new_dek ::
    "externals \<Rightarrow> kek \<Rightarrow> bytes option \<Rightarrow> bytes option \<Rightarrow> storage_error + (dek \<times> bytes)" where
  "wrap_new_dek X (Kek k) rk rn =
     rbind (random_key rk) (\<lambda>dek.
     case rn of
       None \<Rightarrow> Inl (Crypto ''rng'')
     | Some nonce \<Rightarrow>
         (case aead_seal X k nonce [] dek of
            None \<Rightarrow> Inl (Crypto ''wrap dek'')
          | Some in_out \<Rightarrow> Inr (Dek dek, nonce @ in_out)))"

fun unwrap_dek :: "externals \<Rightarrow> kek \<Rightarrow> bytes \<Rightarrow> storage_error + dek" where
  "unwrap_dek X (Kek k) wrapped =
     (if length wrapped < NONCE_LEN + KEY_LEN + TAG_LEN
      then Inl (Crypto ''wrapped DEK too short'')
      else case aead_open X k (take NONCE_LEN wrapped) [] (drop NONCE_LEN wrapped) of
             None \<Rightarrow> Inl (Crypto ''unwrap dek (wrong KEK or corrupt header)'')
           | Some plain \<Rightarrow> dek_from_bytes plain)"

fun dek_seal :: "externals \<Rightarrow> dek \<Rightarrow> u64 \<Rightarrow> bytes \<Rightarrow> storage_error + bytes" where
  "dek_seal X (Dek k) offset plaintext =
     (case aead_seal X k (nonce_from_offset offset) (le_bytes 8 offset) plaintext of
        None \<Rightarrow> Inl (Crypto ''seal'')
      | Some c \<Rightarrow> Inr c)"

fun dek_open :: "externals \<Rightarrow> dek \<Rightarrow> u64 \<Rightarrow> bytes \<Rightarrow> storage_error + bytes" where
  "dek_open X (Dek k) offset ciphertext =
     (if length ciphertext < TAG_LEN then Inl (Crypto ''ciphertext shorter than tag'')
      else case aead_open X k (nonce_from_offset offset) (le_bytes 8 offset) ciphertext of
             None \<Rightarrow> Inl (Crypto ''open (auth failed: wrong key or tampered data)'')
           | Some plain \<Rightarrow> Inr plain)"

text \<open>The nonces of one file's regions never repeat: they are the offsets.\<close>

lemma nonce_from_offset_inj: "nonce_from_offset a = nonce_from_offset b \<longleftrightarrow> a = b"
proof
  assume "nonce_from_offset a = nonce_from_offset b"
  then have "le_bytes 8 a = le_bytes 8 b" by (simp add: nonce_from_offset_def)
  then have "from_le_bytes (le_bytes 8 a) = (from_le_bytes (le_bytes 8 b) :: u64)" by simp
  then show "a = b" by (simp add: from_le_le_bytes_full)
qed simp

lemma unwrap_wrap_dek:
  assumes "aead_ok X" "length rk = KEY_LEN" "length rn = NONCE_LEN"
    and "wrap_new_dek X kek (Some rk) (Some rn) = Inr (dek, wrapped)"
  shows "unwrap_dek X kek wrapped = Inr dek" "length wrapped = NONCE_LEN + KEY_LEN + TAG_LEN"
  using assms by (cases kek; auto simp: aead_ok_def dek_from_bytes_def split: option.splits)+

lemma dek_open_seal:
  assumes "aead_ok X" "dek_seal X dek off p = Inr c"
  shows "dek_open X dek off c = Inr p" "length c = length p + TAG_LEN"
  using assms by (cases dek; auto simp: aead_ok_def split: option.splits)+

text \<open>The generator, when it does not fail, fills the key and the nonce it is given.\<close>

definition rng_ok :: "bytes option \<Rightarrow> bytes option \<Rightarrow> bool" where
  "rng_ok rk rn \<longleftrightarrow> (\<forall>k. rk = Some k \<longrightarrow> length k = KEY_LEN) \<and> (\<forall>n. rn = Some n \<longrightarrow> length n = NONCE_LEN)"

lemma unwrap_wrap_dek_rng:
  assumes "aead_ok X" "rng_ok rk rn" "wrap_new_dek X kek rk rn = Inr (dek, wrapped)"
  shows "unwrap_dek X kek wrapped = Inr dek" "length wrapped = NONCE_LEN + KEY_LEN + TAG_LEN"
proof -
  obtain k where k: "rk = Some k" using assms(3) by (cases kek; cases rk) auto
  obtain n where n: "rn = Some n" using assms(3) by (cases kek; cases rk; cases rn) auto
  show "unwrap_dek X kek wrapped = Inr dek" "length wrapped = NONCE_LEN + KEY_LEN + TAG_LEN"
    using unwrap_wrap_dek [OF assms(1), of k n kek dek wrapped] assms(2,3) by (auto simp: k n rng_ok_def)
qed

subsection \<open>Keyfiles\<close>

definition is_ascii_whitespace :: "byte \<Rightarrow> bool" where
  "is_ascii_whitespace b \<longleftrightarrow> b \<in> set [9, 10, 11, 12, 13, 32]"

definition hex_digit :: "byte \<Rightarrow> byte option" where
  "hex_digit b =
     (if 48 \<le> b \<and> b \<le> 57 then Some (b - 48)
      else if 97 \<le> b \<and> b \<le> 102 then Some (b - 87)
      else if 65 \<le> b \<and> b \<le> 70 then Some (b - 55) else None)"

text \<open>
  \<open>u8::from_str_radix(s, 16)\<close> on two ASCII characters: a leading \<open>+\<close> is accepted.
\<close>

definition from_str_radix_16 :: "byte \<Rightarrow> byte \<Rightarrow> byte option" where
  "from_str_radix_16 a b =
     (if a = 43 then hex_digit b
      else case (hex_digit a, hex_digit b) of
             (Some h, Some l) \<Rightarrow> Some (16 * h + l)
           | _ \<Rightarrow> None)"

fun hex_pairs :: "bytes \<Rightarrow> bytes option" where
  "hex_pairs (a # b # s) =
     (case from_str_radix_16 a b of
        None \<Rightarrow> None
      | Some v \<Rightarrow> map_option ((#) v) (hex_pairs s))"
| "hex_pairs _ = Some []"

definition decode_hex :: "bytes \<Rightarrow> bytes option" where
  "decode_hex s = (if length s mod 2 \<noteq> 0 then None else hex_pairs s)"

text \<open>
  \<open>Kek::from_keyfile\<close> on the bytes of an ASCII keyfile, after the file was read.
\<close>

definition kek_from_keyfile :: "bytes \<Rightarrow> storage_error + kek" where
  "kek_from_keyfile raw =
     (case kek_from_bytes raw of
        Inr k \<Rightarrow> Inr k
      | Inl _ \<Rightarrow>
          (case decode_hex (filter (\<lambda>c. \<not> is_ascii_whitespace c) raw) of
             None \<Rightarrow> Inl (Crypto ''keyfile is neither 32 raw bytes nor 64 hex chars'')
           | Some decoded \<Rightarrow> kek_from_bytes decoded))"

definition hex_char :: "byte \<Rightarrow> byte" where
  "hex_char d = (if d < 10 then 48 + d else 87 + d)"

definition hex_encode :: "bytes \<Rightarrow> bytes" where
  "hex_encode bs = concat (map (\<lambda>b. [hex_char (drop_bit 4 b), hex_char (b AND 15)]) bs)"

lemma less_16_cases:
  "(n :: nat) < 16 \<Longrightarrow> n \<in> {0, 1, 2, 3, 4, 5, 6, 7, 8, 9, 10, 11, 12, 13, 14, 15}"
  by (simp add: eval_nat_numeral less_Suc_eq)

lemma hex_digit_char:
  assumes "d < 16"
  shows "hex_digit (hex_char d) = Some d" "hex_char d \<noteq> 43"
proof -
  let ?ds = "[0, 1, 2, 3, 4, 5, 6, 7, 8, 9, 10, 11, 12, 13, 14, 15]"
  have "unat d < 16" using assms by (simp add: word_less_nat_alt)
  then have "d \<in> set ?ds" using less_16_cases by (simp add: word_unat_eq_iff)
  moreover have "list_all (\<lambda>d. hex_digit (hex_char d) = Some d \<and> hex_char d \<noteq> 43) ?ds"
    by (simp add: hex_char_def hex_digit_def)
  ultimately have "hex_digit (hex_char d) = Some d \<and> hex_char d \<noteq> 43"
    unfolding list_all_iff by (rule bspec [rotated])
  then show "hex_digit (hex_char d) = Some d" "hex_char d \<noteq> 43" by simp_all
qed

lemma and_15: "(b :: byte) AND 15 = take_bit 4 b"
  by (simp add: take_bit_eq_mask mask_eq_exp_minus_1)

lemma nibble_less: "drop_bit 4 b < (16 :: byte)" "b AND 15 < (16 :: byte)"
  using unsigned_less [of b, where ?'a = nat]
  by (simp_all add: word_less_nat_alt unat_drop_bit_div and_15 unat_take_bit_mod)

lemma from_str_radix_hex_char:
  "from_str_radix_16 (hex_char (drop_bit 4 b)) (hex_char (b AND 15)) = Some b"
proof -
  have "16 * drop_bit 4 b + (b AND 15) = b"
    using bits_ident [of 4 b] by (simp add: and_15 push_bit_eq_mult mult.commute)
  then show ?thesis
    by (simp only: from_str_radix_16_def hex_digit_char nibble_less if_False option.case prod.case)
qed

lemma decode_hex_encode: "decode_hex (hex_encode bs) = Some bs"
proof -
  have "hex_pairs (hex_encode bs) = Some bs"
    by (induction bs) (simp_all add: hex_encode_def from_str_radix_hex_char)
  moreover have "length (hex_encode bs) = 2 * length bs"
    by (induction bs) (simp_all add: hex_encode_def)
  ultimately show ?thesis by (simp add: decode_hex_def)
qed

section \<open>Properties\<close>

text \<open>
  C20: the checksum detects every change of a single byte: two strings of the same length that
  differ in exactly one place have different CRC-32 values.
\<close>

theorem crc32_detects_byte_change:
  assumes "i < length xs" and "b \<noteq> xs ! i"
  shows "crc32 (xs[i := b]) \<noteq> crc32 xs"
proof -
  have "crc32 (take i xs @ b # drop (Suc i) xs) \<noteq> crc32 (take i xs @ xs ! i # drop (Suc i) xs)"
    using assms(2) by (rule crc32_single_byte)
  then show ?thesis using assms(1) by (simp add: upd_conv_take_nth_drop id_take_nth_drop [symmetric])
qed

theorem crc32_detects_byte_change_witness: "crc32 [1, 9, 3] \<noteq> crc32 [1, 2, 3]"
  using crc32_detects_byte_change [of 1 "[1, 2, 3]" 9] by simp

text \<open>
  C21: envelope encryption is invertible. A wrapped data key unwraps under the same key-encryption
  key, has the fixed length that the file headers rely on, and a region sealed at an offset opens
  at that offset to the plain text and is one tag longer; distinct offsets have distinct nonces.
\<close>

theorem envelope_round_trip:
  assumes "aead_ok X" and "length rk = KEY_LEN" and "length rn = NONCE_LEN"
    and "wrap_new_dek X kek (Some rk) (Some rn) = Inr (dek, wrapped)"
    and "dek_seal X dek off p = Inr c"
  shows "length wrapped = NONCE_LEN + KEY_LEN + TAG_LEN \<and> length c = length p + TAG_LEN
    \<and> rbind (unwrap_dek X kek wrapped) (\<lambda>d. dek_open X d off c) = Inr p
    \<and> (nonce_from_offset off = nonce_from_offset off' \<longleftrightarrow> off = off')"
  using unwrap_wrap_dek [OF assms(1-4)] dek_open_seal [OF assms(1,5)]
  by (simp add: nonce_from_offset_inj)

theorem envelope_round_trip_witness:
  "rbind (unwrap_dek plain_externals (Kek (replicate 32 7))
       (replicate 12 2 @ replicate 32 1 @ replicate 16 0))
     (\<lambda>d. dek_open plain_externals d 64 ([5, 6] @ replicate 16 0)) = Inr [5, 6]"
  using envelope_round_trip [OF aead_ok_plain, of "replicate 32 1" "replicate 12 2"
      "Kek (replicate 32 7)" "Dek (replicate 32 1)" _ 64 "[5, 6]" "[5, 6] @ replicate 16 0" 0]
  by (simp add: plain_externals_def)

text \<open>
  C22: a keyfile may hold the key as 64 hexadecimal digits: the digits of any 32 byte key, with
  white space anywhere around them, load as that key.
\<close>

theorem keyfile_hex:
  assumes "length k = KEY_LEN" and "\<forall>c \<in> set (pre @ post). is_ascii_whitespace c"
  shows "kek_from_keyfile (pre @ hex_encode k @ post) = Inr (Kek k)"
proof -
  have len: "length (hex_encode bs) = 2 * length bs" for bs
    by (induction bs) (simp_all add: hex_encode_def)
  have "\<not> is_ascii_whitespace (hex_char d)" if "d < 16" for d
    using hex_digit_char(1) [OF that] by (auto simp: is_ascii_whitespace_def hex_digit_def)
  then have "filter (\<lambda>c. \<not> is_ascii_whitespace c) (hex_encode bs) = hex_encode bs" for bs
    by (induction bs) (simp_all add: hex_encode_def nibble_less)
  moreover have "filter (\<lambda>c. \<not> is_ascii_whitespace c) pre = []"
    "filter (\<lambda>c. \<not> is_ascii_whitespace c) post = []"
    using assms(2) by (auto simp: filter_empty_conv)
  ultimately show ?thesis
    using assms(1) len [of k] by (simp add: kek_from_keyfile_def kek_from_bytes_def decode_hex_encode)
qed

theorem keyfile_hex_witness:
  "kek_from_keyfile ([] @ hex_encode (replicate 32 0xAB) @ [10]) = Inr (Kek (replicate 32 0xAB))"
  by (rule keyfile_hex) (simp_all add: is_ascii_whitespace_def)

end
