(* ===== verification/Wal.thy ===== *)
theory Wal
  imports Storage_Base
begin

text \<open>
  The write-ahead log (\<open>crates/skaidb-storage/src/wal.rs\<close>). A file is its bytes, written
  positionally and extended with zeros (\<open>posfile.rs\<close>); the directory's sealed segments are
  a map from their numbers to their contents. The operating system calls succeed; the failures
  that the code itself can raise (a key that does not open, random bytes that are not available, a
  record that does not decode) are values. Offsets and counters are 64-bit words as in the code.
\<close>

section \<open>Records\<close>

definition WAL_ENC_MAGIC :: bytes where
  "WAL_ENC_MAGIC = [0x73, 0x6b, 0x61, 0x77, 0xEE, 0x45, 0x57, 0x4c]"

abbreviation WAL_ENC_HEADER_LEN :: nat where "WAL_ENC_HEADER_LEN \<equiv> 8 + 2 + (12 + 32 + 16)"

record wal_crypto =
  wc_kek :: kek
  wc_dek :: dek
  wc_header :: bytes

definition enc_header :: "bytes \<Rightarrow> bytes" where
  "enc_header wrapped = WAL_ENC_MAGIC @ le_bytes 2 (of_nat (length wrapped) :: 16 word) @ wrapped"

definition wal_crypto_fresh ::
    "externals \<Rightarrow> kek \<Rightarrow> bytes option \<Rightarrow> bytes option \<Rightarrow> storage_error + wal_crypto" where
  "wal_crypto_fresh X kek rk rn =
     rbind (wrap_new_dek X kek rk rn) (\<lambda>(dek, wrapped).
       Inr \<lparr>wc_kek = kek, wc_dek = dek, wc_header = enc_header wrapped\<rparr>)"

datatype wal_op = WalPut bytes | WalDelete

record wal_record =
  wr_hlc :: hlc
  wr_key :: bytes
  wr_op :: wal_op

record wal_commit =
  cm_generation :: u64
  cm_offset :: u64

text \<open>The closure \<open>take\<close> of \<open>decode_payload\<close>.\<close>

definition payload_take :: "u64 \<Rightarrow> bytes \<Rightarrow> nat \<Rightarrow> nat \<Rightarrow> storage_error + bytes \<times> nat" where
  "payload_take offset p cur n =
     cur_take (Corruption offset ''length overflow'') (Corruption offset ''payload too short'') p cur n"

definition decode_payload :: "bytes \<Rightarrow> u64 \<Rightarrow> storage_error + wal_record" where
  "decode_payload p offset =
     rbind (payload_take offset p 0 1) (\<lambda>(op_byte, cur).
     rbind (payload_take offset p cur 12) (\<lambda>(hb, cur).
     rbind (payload_take offset p cur 4) (\<lambda>(lb, cur).
     rbind (payload_take offset p cur (unat (from_le_bytes lb :: u32))) (\<lambda>(key, cur).
     rbind (if hd op_byte = OP_PUT then
              rbind (payload_take offset p cur 4) (\<lambda>(vb, cur).
              rbind (payload_take offset p cur (unat (from_le_bytes vb :: u32))) (\<lambda>(v, cur).
              Inr (WalPut v)))
            else if hd op_byte = OP_DELETE then Inr WalDelete
            else Inl (Corruption offset ''unknown op byte'')) (\<lambda>op.
     Inr \<lparr>wr_hlc = hlc_from_bytes hb, wr_key = key, wr_op = op\<rparr>)))))"

section \<open>The log file and its group commit\<close>

record wal_sync =
  ws_file :: bytes
  ws_ephemeral :: bool
  ws_write_offset :: u64
  ws_synced :: u64
  ws_generation :: u64
  ws_fsyncs :: u64

record wal =
  wal_sync :: wal_sync
  wal_segs :: "(u64, bytes) btree"
  wal_prealloc_chunk :: u64
  wal_allocated :: u64
  wal_crypto :: "wal_crypto option"

text \<open>One uninterrupted call of \<open>sync_through\<close>; its interleavings are in the theory of the group commit.\<close>

definition sync_through :: "wal_commit \<Rightarrow> wal_sync \<Rightarrow> wal_sync" where
  "sync_through commit s =
     (if ws_ephemeral s then s
      else if ws_generation s \<noteq> cm_generation commit \<or> ws_synced s \<ge> cm_offset commit then s
      else s\<lparr>ws_fsyncs := ws_fsyncs s + 1, ws_synced := ws_write_offset s\<rparr>)"

definition fsync_count :: "wal_sync \<Rightarrow> u64" where
  "fsync_count s = ws_fsyncs s"

definition size_bytes :: "wal_sync \<Rightarrow> u64" where
  "size_bytes s = ws_write_offset s"

definition round_up :: "u64 \<Rightarrow> u64 \<Rightarrow> u64" where
  "round_up n chunk = (n div chunk + (if n mod chunk > 0 then 1 else 0)) * chunk"

text \<open>
  The names \<open><base>.seg.<number>\<close> of the directory, as the sorted list of their numbers.
\<close>

definition list_segments :: "(u64, bytes) btree \<Rightarrow> u64 list" where
  "list_segments segs = map fst segs"

subsection \<open>Replay\<close>

definition read_enc_header :: "bytes \<Rightarrow> storage_error + (bytes \<times> u64) option" where
  "read_enc_header f =
     (if length f < WAL_ENC_HEADER_LEN then Inr None
      else rbind (read_exact_at f 8 0) (\<lambda>magic.
        if magic \<noteq> WAL_ENC_MAGIC then Inr None
        else rbind (read_exact_at f 2 8) (\<lambda>lenbuf.
          let wlen = unat (from_le_bytes lenbuf :: 16 word)
          in rbind (read_exact_at f wlen 10) (\<lambda>wrapped. Inr (Some (wrapped, 10 + of_nat wlen))))))"

text \<open>
  The loop of \<open>replay\<close>: \<open>rest\<close> is what the reader has not consumed. A short read, a zero
  length and a checksum that does not match end the log; a record that passes its checksum and
  does not open or decode is an error.
\<close>

function replay_loop ::
    "externals \<Rightarrow> dek option \<Rightarrow> u64 \<Rightarrow> bytes \<Rightarrow> storage_error + wal_record list \<times> u64" where
  "replay_loop X dek good_len rest =
     (if length rest < 4 then Inr ([], good_len)
      else let frame_len = unat (from_le_bytes (take 4 rest) :: u32)
      in if frame_len = 0 then Inr ([], good_len)
      else if length rest < 4 + frame_len then Inr ([], good_len)
      else let frame = take frame_len (drop 4 rest)
      in if length rest < 4 + frame_len + 4 then Inr ([], good_len)
      else if (from_le_bytes (take 4 (drop (4 + frame_len) rest)) :: u32) \<noteq> crc32 frame
      then Inr ([], good_len)
      else rbind (case dek of Some d \<Rightarrow> dek_open X d good_len frame | None \<Rightarrow> Inr frame) (\<lambda>payload.
           rbind (decode_payload payload good_len) (\<lambda>record.
           rbind (replay_loop X dek (good_len + of_nat (4 + frame_len + 4)) (drop (4 + frame_len + 4) rest))
             (\<lambda>(records, g). Inr (record # records, g)))))"
  by pat_completeness auto
termination
  by (relation "measure (\<lambda>(X, dek, good_len, rest). length rest)") auto

declare replay_loop.simps [simp del]

definition replay :: "externals \<Rightarrow> bytes \<Rightarrow> dek option \<Rightarrow> u64 \<Rightarrow> storage_error + wal_record list \<times> u64" where
  "replay X f dek start_offset = replay_loop X dek start_offset (drop (unat start_offset) f)"

definition recover_file ::
    "externals \<Rightarrow> bytes \<Rightarrow> kek option \<Rightarrow> storage_error + wal_record list \<times> u64 \<times> dek option" where
  "recover_file X f kek =
     rbind (read_enc_header f) (\<lambda>header.
       case header of
         Some (wrapped, header_len) \<Rightarrow>
           (case kek of
              None \<Rightarrow> Inl (Crypto ''WAL is encrypted but no keyfile is configured'')
            | Some k \<Rightarrow>
                rbind (unwrap_dek X k wrapped) (\<lambda>dek.
                rbind (replay X f (Some dek) header_len) (\<lambda>(records, good_len).
                Inr (records, good_len, Some dek))))
       | None \<Rightarrow>
           rbind (replay X f None 0) (\<lambda>(records, good_len). Inr (records, good_len, None)))"

subsection \<open>Operations\<close>

fun recover_segments :: "externals \<Rightarrow> kek option \<Rightarrow> (u64, bytes) btree \<Rightarrow> u64 list \<Rightarrow> storage_error + wal_record list" where
  "recover_segments X kek segs [] = Inr []"
| "recover_segments X kek segs (seq # seqs) =
     rbind (recover_file X (the (map_of segs seq)) kek) (\<lambda>(seg_records, _, _).
     rbind (recover_segments X kek segs seqs) (\<lambda>records. Inr (seg_records @ records)))"

text \<open>
  The encryption state of the active file: the file, its crypto state and the append offset. The header
  and the key that the code expects in the first case are those recovery has just read the data key
  with, so the last branch is never taken.
\<close>

definition open_crypto ::
    "externals \<Rightarrow> bytes \<Rightarrow> kek option \<Rightarrow> bool \<Rightarrow> bytes option \<Rightarrow> bytes option \<Rightarrow> u64 \<Rightarrow> dek option
     \<Rightarrow> storage_error + bytes \<times> wal_crypto option \<times> u64" where
  "open_crypto X f kek encrypt_new rk rn good_len_existing existing_dek =
     (case existing_dek of
        Some dek \<Rightarrow>
          rbind (read_enc_header f) (\<lambda>header.
            case (header, kek) of
              (Some (wrapped, _), Some k) \<Rightarrow>
                Inr (f, Some \<lparr>wc_kek = k, wc_dek = dek, wc_header = enc_header wrapped\<rparr>, good_len_existing)
            | _ \<Rightarrow> Inl (Io ''panic''))
      | None \<Rightarrow>
          if good_len_existing = 0 \<and> encrypt_new then
            (case kek of
               None \<Rightarrow> Inl (Crypto ''at-rest is on but no keyfile is configured'')
             | Some k \<Rightarrow>
                 rbind (wal_crypto_fresh X k rk rn) (\<lambda>c.
                 Inr (write_all_at f (wc_header c) 0, Some c, of_nat WAL_ENC_HEADER_LEN)))
          else Inr (f, None, good_len_existing))"

definition wal_open ::
    "externals \<Rightarrow> bytes \<Rightarrow> (u64, bytes) btree \<Rightarrow> u64 \<Rightarrow> kek option \<Rightarrow> bool \<Rightarrow> bytes option \<Rightarrow> bytes option
     \<Rightarrow> storage_error + wal \<times> wal_record list" where
  "wal_open X f segs prealloc_chunk kek encrypt_new rk rn =
     rbind (recover_segments X kek segs (list_segments segs)) (\<lambda>seg_records.
     rbind (recover_file X f kek) (\<lambda>(active_records, good_len_existing, existing_dek).
     rbind (open_crypto X f kek encrypt_new rk rn good_len_existing existing_dek) (\<lambda>(f1, crypto, good_len).
     let len = of_nat (length f1);
         grow = prealloc_chunk > 0 \<and> len < round_up (max good_len 1) prealloc_chunk;
         allocated = (if grow then round_up (max good_len 1) prealloc_chunk else len);
         f2 = (if grow then set_len (unat allocated) f1 else f1)
     in Inr (\<lparr>wal_sync = \<lparr>ws_file = f2, ws_ephemeral = False, ws_write_offset = good_len,
                ws_synced = good_len, ws_generation = 0, ws_fsyncs = 0\<rparr>,
              wal_segs = segs, wal_prealloc_chunk = prealloc_chunk,
              wal_allocated = allocated, wal_crypto = crypto\<rparr>,
             seg_records @ active_records))))"

text \<open>The file of an ephemeral log is unlinked at once; segments next to the path are not read.\<close>

definition wal_open_ephemeral :: "(u64, bytes) btree \<Rightarrow> wal" where
  "wal_open_ephemeral segs =
     \<lparr>wal_sync = \<lparr>ws_file = [], ws_ephemeral = True, ws_write_offset = 0, ws_synced = 0,
        ws_generation = 0, ws_fsyncs = 0\<rparr>,
      wal_segs = segs, wal_prealloc_chunk = 0, wal_allocated = 0, wal_crypto = None\<rparr>"

definition op_payload :: "hlc \<Rightarrow> bytes \<Rightarrow> bytes option \<Rightarrow> bytes" where
  "op_payload h key val =
     [if val \<noteq> None then OP_PUT else OP_DELETE] @ hlc_to_bytes h @
     le_bytes 4 (of_nat (length key) :: u32) @ key @
     (case val of Some v \<Rightarrow> le_bytes 4 (of_nat (length v) :: u32) @ v | None \<Rightarrow> [])"

definition seal_body :: "externals \<Rightarrow> dek option \<Rightarrow> u64 \<Rightarrow> bytes \<Rightarrow> storage_error + bytes" where
  "seal_body X dek offset payload =
     (case dek of Some d \<Rightarrow> dek_seal X d offset payload | None \<Rightarrow> Inr payload)"

definition frame_of :: "bytes \<Rightarrow> bytes" where
  "frame_of body = le_bytes 4 (of_nat (length body) :: u32) @ body @ le_bytes 4 (crc32 body)"

definition append_op ::
    "externals \<Rightarrow> hlc \<Rightarrow> bytes \<Rightarrow> bytes option \<Rightarrow> wal \<Rightarrow> storage_error + wal \<times> wal_commit" where
  "append_op X h key val w =
     (let s = wal_sync w; payload = op_payload h key val; offset = ws_write_offset s
      in rbind (seal_body X (map_option wc_dek (wal_crypto w)) offset payload) (\<lambda>body.
         let frame = frame_of body; end = offset + of_nat (length frame);
             grow = wal_prealloc_chunk w > 0 \<and> end > wal_allocated w;
             new_alloc = round_up end (wal_prealloc_chunk w);
             f1 = (if grow then set_len (unat new_alloc) (ws_file s) else ws_file s);
             f2 = write_all_at f1 frame (unat offset)
         in Inr (w\<lparr>wal_sync := s\<lparr>ws_file := f2, ws_write_offset := end\<rparr>,
                   wal_allocated := (if grow then new_alloc else wal_allocated w)\<rparr>,
                 \<lparr>cm_generation = ws_generation s, cm_offset = end\<rparr>)))"

definition wal_append :: "externals \<Rightarrow> wal_record \<Rightarrow> wal \<Rightarrow> storage_error + wal \<times> wal_commit" where
  "wal_append X r w =
     append_op X (wr_hlc r) (wr_key r) (case wr_op r of WalPut v \<Rightarrow> Some v | WalDelete \<Rightarrow> None) w"

definition commit_sync :: "wal_commit \<Rightarrow> wal \<Rightarrow> wal" where
  "commit_sync commit w = w\<lparr>wal_sync := sync_through commit (wal_sync w)\<rparr>"

text \<open>The crypto state, the contents and the start offset of a file that begins anew.\<close>

definition fresh_start ::
    "externals \<Rightarrow> bytes option \<Rightarrow> bytes option \<Rightarrow> wal_crypto option \<Rightarrow> storage_error + wal_crypto option \<times> bytes \<times> u64" where
  "fresh_start X rk rn crypto =
     (case crypto of
        Some c \<Rightarrow> rbind (wal_crypto_fresh X (wc_kek c) rk rn) (\<lambda>c'.
                    Inr (Some c', write_all_at [] (wc_header c') 0, of_nat WAL_ENC_HEADER_LEN))
      | None \<Rightarrow> Inr (None, [], 0))"

text \<open>
  \<open>std::fs::rename\<close> replaces a segment that has the number already, and fails on the unlinked
  file of an ephemeral log.
\<close>

definition wal_rotate :: "externals \<Rightarrow> u64 \<Rightarrow> bytes option \<Rightarrow> bytes option \<Rightarrow> wal \<Rightarrow> storage_error + wal" where
  "wal_rotate X seq rk rn w =
     (if ws_ephemeral (wal_sync w) then Inl (Io ''NotFound'') else
     rbind (fresh_start X rk rn (wal_crypto w)) (\<lambda>(crypto, f, start).
     let allocated = (if wal_prealloc_chunk w > 0 then round_up (max start 1) (wal_prealloc_chunk w) else 0)
     in Inr (w\<lparr>wal_segs := bt_insert seq (ws_file (wal_sync w)) (wal_segs w),
               wal_crypto := crypto, wal_allocated := allocated,
               wal_sync := \<lparr>ws_file = (if wal_prealloc_chunk w > 0 then set_len (unat allocated) f else f),
                 ws_ephemeral = False, ws_write_offset = start, ws_synced = start,
                 ws_generation = ws_generation (wal_sync w) + 1, ws_fsyncs = 0\<rparr>\<rparr>)))"

definition drop_segments_through :: "u64 \<Rightarrow> wal \<Rightarrow> wal" where
  "drop_segments_through seq w = w\<lparr>wal_segs := filter (\<lambda>s. \<not> fst s \<le> seq) (wal_segs w)\<rparr>"

definition wal_truncate :: "externals \<Rightarrow> bytes option \<Rightarrow> bytes option \<Rightarrow> wal \<Rightarrow> storage_error + wal" where
  "wal_truncate X rk rn w =
     rbind (fresh_start X rk rn (wal_crypto w)) (\<lambda>(crypto, f, start).
     let s = wal_sync w;
         alloc = max (round_up (max start 1) (max (wal_prealloc_chunk w) 1)) (wal_prealloc_chunk w)
     in Inr (w\<lparr>wal_crypto := crypto, wal_allocated := alloc,
               wal_sync := s\<lparr>ws_file := set_len (unat alloc) f, ws_fsyncs := ws_fsyncs s + 1,
                 ws_write_offset := start, ws_synced := start, ws_generation := ws_generation s + 1\<rparr>\<rparr>))"

section \<open>Records round trip\<close>

definition op_value :: "wal_op \<Rightarrow> bytes option" where
  "op_value op = (case op of WalPut v \<Rightarrow> Some v | WalDelete \<Rightarrow> None)"

definition rec_payload :: "wal_record \<Rightarrow> bytes" where
  "rec_payload r = op_payload (wr_hlc r) (wr_key r) (op_value (wr_op r))"

text \<open>A record of four gigabytes, sealed or not, does not fit its length field.\<close>

definition rec_ok :: "wal_record \<Rightarrow> bool" where
  "rec_ok r \<longleftrightarrow> length (rec_payload r) + TAG_LEN < 2 ^ 32"

lemma rec_ok_lengths:
  assumes "rec_ok r"
  shows "length (wr_key r) < 2 ^ 32" "wr_op r = WalPut v \<Longrightarrow> length v < 2 ^ 32"
  using assms by (auto simp: rec_ok_def rec_payload_def op_payload_def op_value_def)

lemma payload_take_append:
  assumes "p = pre @ mid @ post" "cur = length pre" "n = length mid" "length p < usize_bound"
  shows "payload_take off p cur n = Inr (mid, cur + n)"
  using assms by (simp add: payload_take_def cur_take_append)

lemma decode_rec_payload:
  assumes "rec_ok r"
  shows "decode_payload (rec_payload r) off = Inr r"
proof -
  let ?p = "rec_payload r" and ?k = "wr_key r"
  let ?hb = "hlc_to_bytes (wr_hlc r)" and ?lb = "le_bytes 4 (of_nat (length ?k) :: u32)"
  define op where "op = (if op_value (wr_op r) \<noteq> None then OP_PUT else OP_DELETE)"
  define tl where "tl = (case op_value (wr_op r) of
      Some v \<Rightarrow> le_bytes 4 (of_nat (length v) :: u32) @ v | None \<Rightarrow> [])"
  have p: "?p = [op] @ ?hb @ ?lb @ ?k @ tl" by (simp add: rec_payload_def op_payload_def op_def tl_def)
  have "length tl < 2 ^ 32 + 4"
    using rec_ok_lengths [OF assms] by (auto simp: tl_def op_value_def split: wal_op.splits)
  then have len: "length ?p < usize_bound"
    using rec_ok_lengths [OF assms] unfolding p by simp
  have t1: "payload_take off ?p 0 1 = Inr ([op], 1)"
    using payload_take_append [OF _ _ _ len, of "[]" "[op]"] p by simp
  have t2: "payload_take off ?p 1 12 = Inr (?hb, 13)"
    using payload_take_append [OF _ _ _ len, of "[op]" ?hb] p by simp
  have t3: "payload_take off ?p 13 4 = Inr (?lb, 17)"
    using payload_take_append [OF _ _ _ len, of "[op] @ ?hb" ?lb] p by simp
  have t4: "payload_take off ?p 17 (length ?k) = Inr (?k, 17 + length ?k)"
    using payload_take_append [OF _ _ _ len, of "[op] @ ?hb @ ?lb" ?k] p by simp
  have k: "unat (from_le_bytes ?lb :: u32) = length ?k"
    using rec_ok_lengths [OF assms] by (simp add: from_le_le_bytes_full unat_of_nat_u32)
  show ?thesis
  proof (cases "wr_op r")
    case WalDelete
    then show ?thesis
      using t1 t2 t3 t4 k
      by (simp add: decode_payload_def op_def op_value_def OP_PUT_def OP_DELETE_def hlc_from_to_bytes)
  next
    case (WalPut v)
    let ?vb = "le_bytes 4 (of_nat (length v) :: u32)"
    have tl: "tl = ?vb @ v" by (simp add: tl_def op_value_def WalPut)
    have "payload_take off ?p (17 + length ?k) 4 = Inr (?vb, 21 + length ?k)"
      using payload_take_append [OF _ _ _ len, of "[op] @ ?hb @ ?lb @ ?k" ?vb v] p tl by simp
    moreover have "payload_take off ?p (21 + length ?k) (length v) = Inr (v, 21 + length ?k + length v)"
      using payload_take_append [OF _ _ _ len, of "[op] @ ?hb @ ?lb @ ?k @ ?vb" v "[]"] p tl by simp
    moreover have "unat (from_le_bytes ?vb :: u32) = length v"
      using rec_ok_lengths [OF assms] WalPut by (simp add: from_le_le_bytes_full unat_of_nat_u32)
    ultimately show ?thesis
      using t1 t2 t3 t4 k WalPut
      by (simp add: decode_payload_def op_def op_value_def OP_PUT_def hlc_from_to_bytes)
  qed
qed

lemma rec_payload_length: "17 \<le> length (rec_payload r)"
  by (simp add: rec_payload_def op_payload_def)

section \<open>Framed records\<close>

text \<open>\<open>bs\<close> is a sequence of frames that starts at the file offset \<open>off\<close> and holds \<open>rs\<close>.\<close>

fun framed :: "externals \<Rightarrow> dek option \<Rightarrow> u64 \<Rightarrow> wal_record list \<Rightarrow> bytes \<Rightarrow> bool" where
  "framed X dek off [] bs \<longleftrightarrow> bs = []"
| "framed X dek off (r # rs) bs \<longleftrightarrow>
     (\<exists>body rest. rec_ok r \<and> seal_body X dek off (rec_payload r) = Inr body \<and> length body < 2 ^ 32 \<and>
        bs = frame_of body @ rest \<and> framed X dek (off + of_nat (length (frame_of body))) rs rest)"

lemma length_frame_of [simp]: "length (frame_of body) = length body + 8"
  by (simp add: frame_of_def)

lemma framed_append:
  "framed X dek off (rs @ rs') bs \<longleftrightarrow>
     (\<exists>b1 b2. bs = b1 @ b2 \<and> framed X dek off rs b1 \<and> framed X dek (off + of_nat (length b1)) rs' b2)"
proof (induction rs arbitrary: off bs)
  case (Cons r rs)
  show ?case
  proof
    assume "framed X dek off ((r # rs) @ rs') bs"
    then obtain body b1 b2 where "rec_ok r" "seal_body X dek off (rec_payload r) = Inr body"
      "length body < 2 ^ 32" "bs = frame_of body @ b1 @ b2"
      "framed X dek (off + of_nat (length (frame_of body))) rs b1"
      "framed X dek (off + of_nat (length (frame_of body)) + of_nat (length b1)) rs' b2"
      using Cons.IH by auto
    then show "\<exists>b1 b2. bs = b1 @ b2 \<and> framed X dek off (r # rs) b1 \<and>
        framed X dek (off + of_nat (length b1)) rs' b2"
      by (intro exI [of _ "frame_of body @ b1"] exI [of _ b2]) (auto simp: algebra_simps)
  next
    assume "\<exists>b1 b2. bs = b1 @ b2 \<and> framed X dek off (r # rs) b1 \<and> framed X dek (off + of_nat (length b1)) rs' b2"
    then obtain body rest b2 where "rec_ok r" "seal_body X dek off (rec_payload r) = Inr body"
      "length body < 2 ^ 32" "bs = frame_of body @ rest @ b2"
      "framed X dek (off + of_nat (length (frame_of body))) rs rest"
      "framed X dek (off + of_nat (length (frame_of body @ rest))) rs' b2"
      by auto
    moreover from this have "framed X dek (off + of_nat (length (frame_of body))) (rs @ rs') (rest @ b2)"
      unfolding Cons.IH by (intro exI [of _ rest] exI [of _ b2]) (simp add: algebra_simps)
    ultimately show "framed X dek off ((r # rs) @ rs') bs" by auto
  qed
qed auto

text \<open>Opening what was sealed at an offset.\<close>

lemma open_seal_body:
  assumes "aead_ok X" "seal_body X dek off p = Inr body"
  shows "(case dek of Some d \<Rightarrow> dek_open X d off body | None \<Rightarrow> Inr body) = Inr p" "length p \<le> length body"
  using assms dek_open_seal [OF assms(1)] by (auto simp: seal_body_def split: option.splits)

lemma replay_loop_frame:
  assumes "aead_ok X" "rec_ok r" "seal_body X dek off (rec_payload r) = Inr body" "length body < 2 ^ 32"
  shows "replay_loop X dek off (frame_of body @ rest) =
    rbind (replay_loop X dek (off + of_nat (length (frame_of body))) rest) (\<lambda>(rs, g). Inr (r # rs, g))"
proof -
  have len: "unat (from_le_bytes (take 4 (frame_of body @ rest)) :: u32) = length body"
    using assms(4) by (simp add: frame_of_def from_le_le_bytes_full unat_of_nat_u32)
  have nz: "length body \<noteq> 0" using open_seal_body(2) [OF assms(1,3)] rec_payload_length [of r] by linarith
  have body: "take (length body) (drop 4 (frame_of body @ rest)) = body"
    by (simp add: frame_of_def)
  have crc: "(from_le_bytes (take 4 (drop (4 + length body) (frame_of body @ rest))) :: u32) = crc32 body"
    by (simp add: frame_of_def from_le_le_bytes_full)
  have rest: "drop (4 + length body + 4) (frame_of body @ rest) = rest"
    by (simp add: frame_of_def)
  show ?thesis
    by (subst replay_loop.simps)
      (use nz body crc rest len open_seal_body [OF assms(1,3)] in
        \<open>simp add: Let_def decode_rec_payload [OF assms(2)] algebra_simps\<close>)
qed

lemma replay_framed:
  assumes "aead_ok X" "framed X dek off rs bs"
  shows "replay_loop X dek off (bs @ rest) =
    rbind (replay_loop X dek (off + of_nat (length bs)) rest) (\<lambda>(rs', g). Inr (rs @ rs', g))"
  using assms(2)
proof (induction rs arbitrary: off bs)
  case Nil
  then show ?case by (cases "replay_loop X dek off rest") auto
next
  case (Cons r rs)
  then obtain body bs' where b: "rec_ok r" "seal_body X dek off (rec_payload r) = Inr body"
    "length body < 2 ^ 32" "bs = frame_of body @ bs'"
    "framed X dek (off + of_nat (length (frame_of body))) rs bs'"
    by auto
  show ?case
    using Cons.IH [OF b(5)] replay_loop_frame [OF assms(1) b(1-3), of "bs' @ rest"] b(4)
    by (cases "replay_loop X dek (off + of_nat (length bs)) rest") (auto simp: algebra_simps)
qed

lemma replay_zeros: "replay_loop X dek off (replicate n 0) = Inr ([], off)"
proof -
  have "from_le_bytes (replicate 4 0) = (0 :: u32)" by (simp add: eval_nat_numeral)
  then show ?thesis by (subst replay_loop.simps) (simp add: Let_def min_def)
qed

text \<open>A torn frame, of which the file holds only a proper prefix, ends the log.\<close>

lemma replay_torn:
  assumes "n < length (frame_of body)" "length body < 2 ^ 32"
  shows "replay_loop X dek off (take n (frame_of body)) = Inr ([], off)"
proof -
  have "unat (from_le_bytes (take 4 (take n (frame_of body))) :: u32) = length body" if "4 \<le> n"
    using that assms(2) by (simp add: frame_of_def from_le_le_bytes_full unat_of_nat_u32 min_def take_append)
  then show ?thesis
    using assms(1) by (subst replay_loop.simps) (auto simp: Let_def)
qed

section \<open>The log as a sequence of records\<close>

definition header_of :: "wal_crypto option \<Rightarrow> bytes" where
  "header_of crypto = (case crypto of Some c \<Rightarrow> wc_header c | None \<Rightarrow> [])"

definition crypto_ok :: "externals \<Rightarrow> kek option \<Rightarrow> wal_crypto option \<Rightarrow> bool" where
  "crypto_ok X ko crypto \<longleftrightarrow>
     (case crypto of
        None \<Rightarrow> True
      | Some c \<Rightarrow> ko = Some (wc_kek c) \<and>
          (\<exists>wrapped. length wrapped = 60 \<and> wc_header c = enc_header wrapped \<and>
             unwrap_dek X (wc_kek c) wrapped = Inr (wc_dek c)))"

text \<open>The file holds the header, the frames of \<open>rs\<close> up to \<open>off\<close>, and zeros.\<close>

definition log_file :: "externals \<Rightarrow> wal_crypto option \<Rightarrow> wal_record list \<Rightarrow> bytes \<Rightarrow> nat \<Rightarrow> bool" where
  "log_file X crypto rs f off \<longleftrightarrow>
     (\<exists>bs z. f = header_of crypto @ bs @ replicate z 0 \<and>
        framed X (map_option wc_dek crypto) (of_nat (length (header_of crypto))) rs bs \<and>
        off = length (header_of crypto) + length bs)"

lemma length_enc_header: "length wrapped = 60 \<Longrightarrow> length (enc_header wrapped) = WAL_ENC_HEADER_LEN"
  by (simp add: enc_header_def WAL_ENC_MAGIC_def)

lemma read_enc_header_enc:
  assumes "length wrapped = 60"
  shows "read_enc_header (enc_header wrapped @ rest) = Inr (Some (wrapped, of_nat WAL_ENC_HEADER_LEN))"
proof -
  have "unat (from_le_bytes (le_bytes 2 (of_nat (length wrapped) :: 16 word)) :: 16 word) = 60"
    using assms by (simp add: from_le_le_bytes_full)
  moreover have "take 2 (drop 8 (enc_header wrapped @ rest)) = le_bytes 2 (of_nat (length wrapped) :: 16 word)"
    "take 8 (enc_header wrapped @ rest) = WAL_ENC_MAGIC"
    "take 60 (drop 10 (enc_header wrapped @ rest)) = wrapped"
    using assms by (simp_all add: enc_header_def WAL_ENC_MAGIC_def)
  moreover have "70 \<le> length (enc_header wrapped @ rest)" using length_enc_header [OF assms] by simp
  ultimately show ?thesis using assms by (simp add: read_enc_header_def read_exact_at_def Let_def)
qed

text \<open>A plaintext log is never taken for an encrypted one: its fifth byte is an operation code.\<close>

lemma plain_not_magic:
  assumes "framed X None off rs bs" "8 \<le> length (bs @ replicate z 0)"
  shows "take 8 (bs @ replicate z 0) \<noteq> WAL_ENC_MAGIC"
proof -
  let ?f = "bs @ replicate z 0"
  have "?f ! 4 \<noteq> 0xEE"
  proof (cases rs)
    case Nil
    then show ?thesis using assms by simp
  next
    case (Cons r rs')
    then obtain rest where "bs = frame_of (rec_payload r) @ rest"
      using assms by (auto simp: seal_body_def)
    moreover have "frame_of p ! 4 = p ! 0" if "0 < length p" for p
      using that by (simp add: frame_of_def nth_append)
    moreover have "0 < length (rec_payload r)" using rec_payload_length [of r] by linarith
    ultimately have "?f ! 4 = rec_payload r ! 0" by (simp add: nth_append)
    then show ?thesis by (simp add: rec_payload_def op_payload_def OP_PUT_def OP_DELETE_def)
  qed
  moreover have "?f ! 4 = WAL_ENC_MAGIC ! 4" if "take 8 ?f = WAL_ENC_MAGIC"
    using that by (metis nth_take numeral_less_iff semiring_norm(76) semiring_norm(78))
  ultimately show ?thesis by (auto simp: WAL_ENC_MAGIC_def)
qed

lemma read_enc_header_not_magic:
  "(70 \<le> length f \<Longrightarrow> take 8 f \<noteq> WAL_ENC_MAGIC) \<Longrightarrow> read_enc_header f = Inr None"
  by (auto simp: read_enc_header_def read_exact_at_def)

lemma read_enc_header_plain:
  assumes "framed X None off rs bs"
  shows "read_enc_header (bs @ replicate z 0) = Inr None"
  using plain_not_magic [OF assms, of z] by (intro read_enc_header_not_magic) simp

lemma recover_log_file:
  assumes "aead_ok X" "crypto_ok X ko crypto" "log_file X crypto rs f off"
  shows "recover_file X f ko = Inr (rs, of_nat off, map_option wc_dek crypto)"
proof -
  obtain bs z where f: "f = header_of crypto @ bs @ replicate z 0"
    and fr: "framed X (map_option wc_dek crypto) (of_nat (length (header_of crypto))) rs bs"
    and off: "off = length (header_of crypto) + length bs"
    using assms(3) by (auto simp: log_file_def)
  have rp: "replay_loop X (map_option wc_dek crypto) (of_nat (length (header_of crypto))) (bs @ replicate z 0) =
      Inr (rs, of_nat off)"
    using replay_framed [OF assms(1) fr, of "replicate z 0"] off by (simp add: replay_zeros)
  show ?thesis
  proof (cases crypto)
    case None
    then have "read_enc_header f = Inr None"
      using fr read_enc_header_plain f by (auto simp: header_of_def)
    then show ?thesis using None rp f by (simp add: recover_file_def replay_def header_of_def)
  next
    case (Some c)
    then obtain wrapped where w: "length wrapped = 60" "wc_header c = enc_header wrapped"
      "unwrap_dek X (wc_kek c) wrapped = Inr (wc_dek c)" "ko = Some (wc_kek c)"
      using assms(2) by (auto simp: crypto_ok_def)
    have "read_enc_header f = Inr (Some (wrapped, of_nat WAL_ENC_HEADER_LEN))"
      using read_enc_header_enc [OF w(1)] f Some w(2) by (simp add: header_of_def)
    moreover have "length (header_of crypto) = WAL_ENC_HEADER_LEN"
      using Some w by (simp add: header_of_def length_enc_header)
    ultimately show ?thesis
      using rp f Some w by (simp add: recover_file_def replay_def)
  qed
qed

subsection \<open>Positional writes\<close>

lemma write_at_zeros: "write_all_at (a @ replicate z 0) b (length a) = a @ b @ replicate (z - length b) 0"
  by (simp add: write_all_at_def)

lemma set_len_zeros: "length a + z \<le> n \<Longrightarrow> set_len n (a @ replicate z 0) = a @ replicate (n - length a) 0"
  by (simp add: set_len_def flip: replicate_add)

lemma length_set_len [simp]: "length (set_len n f) = n"
  by (simp add: set_len_def)

lemma ceil_mult:
  assumes "0 < (c :: nat)"
  shows "n \<le> (n div c + (if n mod c > 0 then 1 else 0)) * c" "(n div c + (if n mod c > 0 then 1 else 0)) * c < n + c"
proof -
  obtain q m where n: "n = q * c + m" "m < c" "n div c = q" "n mod c = m"
    using assms by (metis div_mult_mod_eq mod_less_divisor)
  then show "n \<le> (n div c + (if n mod c > 0 then 1 else 0)) * c"
    "(n div c + (if n mod c > 0 then 1 else 0)) * c < n + c"
    using assms by auto
qed

lemma unat_round_up:
  assumes "0 < chunk" "unat n + unat chunk \<le> 2 ^ 64"
  shows "unat (round_up n chunk) = (unat n div unat chunk + (if unat n mod unat chunk > 0 then 1 else 0)) * unat chunk"
    "unat n \<le> unat (round_up n chunk)"
proof -
  let ?q = "unat n div unat chunk + (if unat n mod unat chunk > 0 then 1 else 0)"
  have c: "0 < unat chunk" using assms(1) by (simp add: word_less_nat_alt)
  have lt: "?q * unat chunk < 2 ^ 64" using ceil_mult(2) [OF c, of "unat n"] assms(2) by linarith
  moreover have "?q \<le> ?q * unat chunk" using c by simp
  ultimately have "?q < 2 ^ 64" by linarith
  then have "unat (n div chunk + (if n mod chunk > 0 then 1 else 0)) = ?q"
    by (cases "0 < unat n mod unat chunk")
      (simp_all add: unat_word_ariths(1) unat_div_distrib unat_mod_distrib word_less_nat_alt)
  then show "unat (round_up n chunk) = ?q * unat chunk"
    using lt by (simp add: round_up_def unat_word_ariths(2))
  then show "unat n \<le> unat (round_up n chunk)" using ceil_mult(1) [OF c, of "unat n"] by simp
qed

section \<open>Every operation keeps the log\<close>

definition wal_rel :: "externals \<Rightarrow> kek option \<Rightarrow> wal \<Rightarrow> wal_record list \<Rightarrow> bool" where
  "wal_rel X ko w rs \<longleftrightarrow>
     crypto_ok X ko (wal_crypto w) \<and>
     log_file X (wal_crypto w) rs (ws_file (wal_sync w)) (unat (ws_write_offset (wal_sync w))) \<and>
     (wal_prealloc_chunk w > 0 \<longrightarrow> unat (wal_allocated w) = length (ws_file (wal_sync w)))"

text \<open>The file and the allocation after the growth step of an append.\<close>

definition grow_file :: "wal \<Rightarrow> u64 \<Rightarrow> bytes \<times> u64" where
  "grow_file w fin =
     (if wal_prealloc_chunk w > 0 \<and> fin > wal_allocated w
      then (set_len (unat (round_up fin (wal_prealloc_chunk w))) (ws_file (wal_sync w)), round_up fin (wal_prealloc_chunk w))
      else (ws_file (wal_sync w), wal_allocated w))"

lemma wal_append_unfold:
  "wal_append X r w =
     rbind (seal_body X (map_option wc_dek (wal_crypto w)) (ws_write_offset (wal_sync w)) (rec_payload r)) (\<lambda>body.
       let fin = ws_write_offset (wal_sync w) + of_nat (length (frame_of body)); (f1, alloc) = grow_file w fin
       in Inr (w\<lparr>wal_sync := (wal_sync w)\<lparr>ws_file := write_all_at f1 (frame_of body) (unat (ws_write_offset (wal_sync w))),
                   ws_write_offset := fin\<rparr>, wal_allocated := alloc\<rparr>,
               \<lparr>cm_generation = ws_generation (wal_sync w), cm_offset = fin\<rparr>))"
  unfolding wal_append_def append_op_def rec_payload_def op_value_def Let_def grow_file_def
  by (intro rbind_cong refl) (auto simp del: length_frame_of)

lemma grow_file_zeros:
  assumes "ws_file (wal_sync w) = a @ replicate z 0" "grow_file w fin = (f1, alloc)" "length a \<le> unat fin"
    and "wal_prealloc_chunk w > 0 \<longrightarrow> unat (wal_allocated w) = length (ws_file (wal_sync w)) \<and>
      unat fin + unat (wal_prealloc_chunk w) \<le> 2 ^ 64"
  obtains z' where "f1 = a @ replicate z' 0"
    "wal_prealloc_chunk w > 0 \<Longrightarrow> unat alloc = length f1 \<and> unat fin \<le> length a + z'"
proof (cases "wal_prealloc_chunk w > 0 \<and> fin > wal_allocated w")
  case True
  let ?n = "unat (round_up fin (wal_prealloc_chunk w))"
  have n: "unat fin \<le> ?n" using True assms(4) by (intro unat_round_up) auto
  moreover have "length a + z \<le> unat fin" using True assms(1,4) by (simp add: word_less_nat_alt)
  ultimately have "f1 = a @ replicate (?n - length a) 0" "alloc = round_up fin (wal_prealloc_chunk w)"
    using True assms(1,2) set_len_zeros [of a z ?n] by (auto simp: grow_file_def)
  then show thesis using that [of "?n - length a"] n assms(3) by simp
next
  case False
  then have "f1 = a @ replicate z 0" "alloc = wal_allocated w" using assms(1,2) by (auto simp: grow_file_def)
  moreover from this have "unat alloc = length f1 \<and> unat fin \<le> length a + z" if "wal_prealloc_chunk w > 0"
    using that False assms(1,4) by (simp add: word_le_nat_alt not_less)
  ultimately show thesis using that by blast
qed

definition record_cost :: "wal_record \<Rightarrow> nat" where
  "record_cost r = length (rec_payload r) + 24"

lemma append_keeps_log:
  assumes X: "aead_ok X" and rel: "wal_rel X ko w rs" and r: "rec_ok r"
    and app: "wal_append X r w = Inr (w', cm)"
    and fits: "unat (ws_write_offset (wal_sync w)) + record_cost r + unat (wal_prealloc_chunk w) < 2 ^ 64"
  shows "wal_rel X ko w' (rs @ [r])"
    and "cm = \<lparr>cm_generation = ws_generation (wal_sync w), cm_offset = ws_write_offset (wal_sync w')\<rparr>"
    and "unat (ws_write_offset (wal_sync w')) \<le> unat (ws_write_offset (wal_sync w)) + record_cost r"
    and "wal_segs w' = wal_segs w" "wal_prealloc_chunk w' = wal_prealloc_chunk w"
    and "ws_ephemeral (wal_sync w') = ws_ephemeral (wal_sync w)"
proof -
  let ?s = "wal_sync w" and ?dek = "map_option wc_dek (wal_crypto w)" and ?hdr = "header_of (wal_crypto w)"
  obtain body where body: "seal_body X ?dek (ws_write_offset ?s) (rec_payload r) = Inr body"
    using app by (auto simp: wal_append_unfold rbind_eq_Inr_iff)
  have blen: "length body \<le> length (rec_payload r) + 16"
    using body dek_open_seal(2) [OF X] by (auto simp: seal_body_def split: option.splits)
  define fin where "fin = ws_write_offset ?s + of_nat (length (frame_of body))"
  obtain f1 alloc where g: "grow_file w fin = (f1, alloc)" by force
  have w': "w' = w\<lparr>wal_sync := ?s\<lparr>ws_file := write_all_at f1 (frame_of body) (unat (ws_write_offset ?s)),
      ws_write_offset := fin\<rparr>, wal_allocated := alloc\<rparr>"
    and cm: "cm = \<lparr>cm_generation = ws_generation ?s, cm_offset = fin\<rparr>"
    using app body g by (simp_all add: wal_append_unfold fin_def Let_def del: length_frame_of)
  obtain bs z where f: "ws_file ?s = (?hdr @ bs) @ replicate z 0" and fr: "framed X ?dek (of_nat (length ?hdr)) rs bs"
    and off: "unat (ws_write_offset ?s) = length (?hdr @ bs)"
    using rel by (auto simp: wal_rel_def log_file_def)
  have fin: "unat fin = length (?hdr @ bs) + length (frame_of body)"
    using fits blen off by (simp add: fin_def unat_word_ariths(1) unat_of_nat record_cost_def)
  then obtain z' where f1: "f1 = (?hdr @ bs) @ replicate z' 0"
    and z': "wal_prealloc_chunk w > 0 \<Longrightarrow> unat alloc = length f1 \<and> unat fin \<le> length (?hdr @ bs) + z'"
    using fits blen rel off by (elim grow_file_zeros [OF f g, rotated 2]) (auto simp: wal_rel_def record_cost_def)
  have cont: "ws_file (wal_sync w') = ?hdr @ (bs @ frame_of body) @ replicate (z' - length (frame_of body)) 0"
    using write_at_zeros [of "?hdr @ bs" z' "frame_of body"] f1 off by (simp add: w')
  have "of_nat (length ?hdr) + of_nat (length bs) = ws_write_offset ?s"
    using arg_cong [OF off, of "of_nat :: nat \<Rightarrow> u64"] by simp
  then have "framed X ?dek (of_nat (length ?hdr)) (rs @ [r]) (bs @ frame_of body)"
    using fr body r blen unfolding framed_append
    by (intro exI [of _ bs] exI [of _ "frame_of body"]) (auto simp: rec_ok_def)
  then have "log_file X (wal_crypto w') (rs @ [r]) (ws_file (wal_sync w')) (unat (ws_write_offset (wal_sync w')))"
    unfolding log_file_def using cont fin by (intro exI [of _ "bs @ frame_of body"]) (auto simp: w')
  moreover have "length (ws_file (wal_sync w')) = length f1" if "wal_prealloc_chunk w > 0"
    using cont f1 z' [OF that] fin by simp
  ultimately show "wal_rel X ko w' (rs @ [r])" using rel z' by (simp add: wal_rel_def w')
  show "cm = \<lparr>cm_generation = ws_generation ?s, cm_offset = ws_write_offset (wal_sync w')\<rparr>" by (simp add: cm w')
  show "unat (ws_write_offset (wal_sync w')) \<le> unat (ws_write_offset ?s) + record_cost r"
    using fin off blen by (simp add: w' record_cost_def)
  show "wal_segs w' = wal_segs w" "wal_prealloc_chunk w' = wal_prealloc_chunk w"
    "ws_ephemeral (wal_sync w') = ws_ephemeral ?s" by (simp_all add: w')
qed


subsection \<open>Starting a file anew\<close>

lemma wal_crypto_fresh_ok:
  assumes "aead_ok X" "rng_ok rk rn" "wal_crypto_fresh X kek rk rn = Inr c"
  shows "crypto_ok X (Some kek) (Some c)" "length (wc_header c) = WAL_ENC_HEADER_LEN" "wc_kek c = kek"
proof -
  obtain dek wrapped where w: "wrap_new_dek X kek rk rn = Inr (dek, wrapped)"
    and c: "c = \<lparr>wc_kek = kek, wc_dek = dek, wc_header = enc_header wrapped\<rparr>"
    using assms(3) by (auto simp: wal_crypto_fresh_def rbind_eq_Inr_iff)
  note u = unwrap_wrap_dek_rng [OF assms(1,2) w]
  then show "crypto_ok X (Some kek) (Some c)" "wc_kek c = kek" by (auto simp: crypto_ok_def c)
  show "length (wc_header c) = WAL_ENC_HEADER_LEN" using u by (simp add: c length_enc_header)
qed

lemma fresh_start_ok:
  assumes "aead_ok X" "rng_ok rk rn" "crypto_ok X ko crypto" "fresh_start X rk rn crypto = Inr (crypto', f, start)"
  shows "crypto_ok X ko crypto'" "f = header_of crypto'" "unat start = length (header_of crypto')" "unat start \<le> 70"
proof -
  have "crypto_ok X ko crypto' \<and> f = header_of crypto' \<and> unat start = length (header_of crypto') \<and> unat start \<le> 70"
  proof (cases crypto)
    case None
    then show ?thesis using assms(3,4) by (auto simp: fresh_start_def header_of_def crypto_ok_def)
  next
    case (Some c)
    then obtain c' where c': "wal_crypto_fresh X (wc_kek c) rk rn = Inr c'" "crypto' = Some c'"
      "f = write_all_at [] (wc_header c') 0" "start = of_nat WAL_ENC_HEADER_LEN"
      using assms(4) by (auto simp: fresh_start_def rbind_eq_Inr_iff)
    then show ?thesis
      using wal_crypto_fresh_ok [OF assms(1,2) c'(1)] Some assms(3)
      by (auto simp: crypto_ok_def header_of_def write_all_at_def)
  qed
  then show "crypto_ok X ko crypto'" "f = header_of crypto'" "unat start = length (header_of crypto')" "unat start \<le> 70"
    by auto
qed

lemma log_file_empty: "log_file X crypto [] (header_of crypto @ replicate z 0) (length (header_of crypto))"
  by (auto simp: log_file_def)

lemma set_len_header: "length h \<le> n \<Longrightarrow> set_len n h = h @ replicate (n - length h) 0"
  by (simp add: set_len_def)

lemma max_1_unat: "unat (max start 1 :: u64) = max (unat start) 1"
  by (simp add: max_def word_le_nat_alt)

lemma round_up_start:
  assumes "unat start \<le> 70" "0 < chunk" "unat chunk + 70 \<le> 2 ^ 64"
  shows "unat start \<le> unat (round_up (max start 1) chunk)"
proof -
  have m: "unat start \<le> unat (max start 1)" "unat (max start 1) \<le> 70" using assms(1) by (simp_all add: max_1_unat)
  then have "unat (max start 1) + unat chunk \<le> 2 ^ 64" using assms(3) by linarith
  then show ?thesis using unat_round_up(2) [OF assms(2)] m(1) le_trans by blast
qed

lemma rotate_keeps_log:
  assumes X: "aead_ok X" "rng_ok rk rn" and rel: "wal_rel X ko w rs" and rot: "wal_rotate X seq rk rn w = Inr w'"
    and chunk: "unat (wal_prealloc_chunk w) + 70 \<le> 2 ^ 64"
  shows "wal_rel X ko w' []" "wal_segs w' = bt_insert seq (ws_file (wal_sync w)) (wal_segs w)"
    "unat (ws_write_offset (wal_sync w')) \<le> 70" "wal_prealloc_chunk w' = wal_prealloc_chunk w"
    "recover_file X (ws_file (wal_sync w)) ko =
       Inr (rs, ws_write_offset (wal_sync w), map_option wc_dek (wal_crypto w))"
proof -
  obtain crypto f start where fs: "fresh_start X rk rn (wal_crypto w) = Inr (crypto, f, start)"
    using rot by (auto simp: wal_rotate_def rbind_eq_Inr_iff split: if_splits)
  note ok = fresh_start_ok [OF X _ fs, of ko]
  let ?n = "unat (round_up (max start 1) (wal_prealloc_chunk w))"
  have c: "crypto_ok X ko (wal_crypto w)" using rel by (simp add: wal_rel_def)
  have w': "ws_file (wal_sync w') = (if wal_prealloc_chunk w > 0 then set_len ?n f else f)"
    "wal_crypto w' = crypto" "ws_write_offset (wal_sync w') = start" "wal_prealloc_chunk w' = wal_prealloc_chunk w"
    "wal_prealloc_chunk w > 0 \<longrightarrow> wal_allocated w' = round_up (max start 1) (wal_prealloc_chunk w)"
    using rot fs by (auto simp: wal_rotate_def Let_def split: if_splits)
  have n: "unat start \<le> ?n" if "0 < wal_prealloc_chunk w"
    using ok(4) [OF c] chunk that by (intro round_up_start)
  show "wal_rel X ko w' []"
  proof (cases "0 < wal_prealloc_chunk w")
    case True
    then have "ws_file (wal_sync w') = header_of crypto @ replicate (?n - unat start) 0"
      using ok(2,3) [OF c] w'(1) n set_len_header [of "header_of crypto" ?n] by simp
    then show ?thesis
      using ok [OF c] w' log_file_empty [of X crypto "?n - unat start"] True n by (simp add: wal_rel_def)
  next
    case False
    then show ?thesis using ok [OF c] w' log_file_empty [of X crypto 0] by (simp add: wal_rel_def)
  qed
  show "wal_segs w' = bt_insert seq (ws_file (wal_sync w)) (wal_segs w)"
    "unat (ws_write_offset (wal_sync w')) \<le> 70" "wal_prealloc_chunk w' = wal_prealloc_chunk w"
    using rot fs ok(4) [OF c] by (auto simp: wal_rotate_def Let_def split: if_splits)
  show "recover_file X (ws_file (wal_sync w)) ko =
      Inr (rs, ws_write_offset (wal_sync w), map_option wc_dek (wal_crypto w))"
    using recover_log_file [OF X(1) c] rel by (auto simp: wal_rel_def)
qed

lemma truncate_keeps_log:
  assumes X: "aead_ok X" "rng_ok rk rn" and rel: "wal_rel X ko w rs" and tr: "wal_truncate X rk rn w = Inr w'"
    and chunk: "unat (wal_prealloc_chunk w) + 70 < 2 ^ 64"
  shows "wal_rel X ko w' []" "wal_segs w' = wal_segs w" "unat (ws_write_offset (wal_sync w')) \<le> 70"
    "wal_prealloc_chunk w' = wal_prealloc_chunk w"
proof -
  obtain crypto f start where fs: "fresh_start X rk rn (wal_crypto w) = Inr (crypto, f, start)"
    using tr by (auto simp: wal_truncate_def rbind_eq_Inr_iff split: if_splits)
  note ok = fresh_start_ok [OF X _ fs, of ko]
  define alloc where "alloc = max (round_up (max start 1) (max (wal_prealloc_chunk w) 1)) (wal_prealloc_chunk w)"
  have c: "crypto_ok X ko (wal_crypto w)" using rel by (simp add: wal_rel_def)
  have "unat start \<le> unat (round_up (max start 1) (max (wal_prealloc_chunk w) 1))"
    using ok(4) [OF c] chunk
    by (intro round_up_start) (auto simp: max_1_unat word_less_nat_alt)
  then have le: "unat start \<le> unat alloc" by (auto simp: alloc_def max_def word_le_nat_alt)
  have w': "ws_file (wal_sync w') = set_len (unat alloc) f" "wal_allocated w' = alloc"
    "wal_crypto w' = crypto" "ws_write_offset (wal_sync w') = start"
    using tr fs by (auto simp: wal_truncate_def Let_def alloc_def)
  then have "ws_file (wal_sync w') = header_of crypto @ replicate (unat alloc - unat start) 0"
    using le ok(2,3) [OF c] set_len_header [of "header_of crypto" "unat alloc"] by simp
  then show "wal_rel X ko w' []"
    using le ok [OF c] w' log_file_empty [of X crypto "unat alloc - unat start"] by (simp add: wal_rel_def)
  show "wal_segs w' = wal_segs w" "unat (ws_write_offset (wal_sync w')) \<le> 70"
    "wal_prealloc_chunk w' = wal_prealloc_chunk w"
    using tr fs ok(4) [OF c] by (auto simp: wal_truncate_def Let_def)
qed

section \<open>Reopening\<close>

definition segs_rel :: "externals \<Rightarrow> kek option \<Rightarrow> (u64, bytes) btree \<Rightarrow> (u64, wal_record list) btree \<Rightarrow> bool" where
  "segs_rel X ko segs asegs \<longleftrightarrow> bt_ok segs \<and>
     list_all2 (\<lambda>(s, f) (s', rs). s = s' \<and> (\<exists>g d. recover_file X f ko = Inr (rs, g, d))) segs asegs"

lemma segs_rel_filter:
  "segs_rel X ko segs asegs \<Longrightarrow>
     segs_rel X ko (filter (\<lambda>s. P (fst s)) segs) (filter (\<lambda>s. P (fst s)) asegs)"
proof -
  have "list_all2 R (filter (\<lambda>s. P (fst s)) xs) (filter (\<lambda>s. P (fst s)) ys)"
    if "list_all2 R xs ys" "\<And>x y. R x y \<Longrightarrow> fst x = fst y" for R and xs :: "('k \<times> 'a) list" and ys :: "('k \<times> 'b) list" and P
    using that(1) by (induction rule: list_all2_induct) (use that(2) in auto)
  then show "segs_rel X ko segs asegs \<Longrightarrow> ?thesis" unfolding segs_rel_def by fastforce
qed

lemma segs_rel_insert:
  assumes "segs_rel X ko segs asegs" "recover_file X f ko = Inr (rs, g, d)"
  shows "segs_rel X ko (bt_insert seq f segs) (bt_insert seq rs asegs)"
proof -
  have "list_all2 R (bt_insert seq f xs) (bt_insert seq rs ys)"
    if "list_all2 R xs ys" "\<And>x y. R x y \<Longrightarrow> fst x = fst y" "R (seq, f) (seq, rs)" for R xs ys
    using that(1) by (induction rule: list_all2_induct) (use that(2,3) in auto)
  then show ?thesis using assms unfolding segs_rel_def by fastforce
qed

lemma recover_segments_map:
  assumes "distinct (map fst segs)" "set ss \<subseteq> set segs"
    "list_all2 (\<lambda>(s, f) (s', rs). s = s' \<and> (\<exists>g d. recover_file X f ko = Inr (rs, g, d))) ss asegs"
  shows "recover_segments X ko segs (map fst ss) = Inr (concat (map snd asegs))"
  using assms(3,2)
proof (induction rule: list_all2_induct)
  case (Cons sf ss srs asegs)
  then have "map_of segs (fst sf) = Some (snd sf)" using assms(1) by simp
  then show ?case using Cons by (auto split: prod.splits)
qed simp

lemma recover_segments_rel:
  "segs_rel X ko segs asegs \<Longrightarrow> recover_segments X ko segs (list_segments segs) = Inr (concat (map snd asegs))"
  using recover_segments_map [of segs segs X ko asegs] bt_ok_distinct [of segs]
  by (auto simp: segs_rel_def list_segments_def)

lemma log_file_off0:
  assumes "log_file X None rs f 0"
  shows "rs = []" "\<exists>z. f = replicate z 0"
proof -
  obtain bs z where b: "f = bs @ replicate z 0" "framed X None 0 rs bs" "bs = []"
    using assms by (auto simp: log_file_def header_of_def)
  then show "rs = []" "\<exists>z. f = replicate z 0" by (cases rs; auto simp: frame_of_def)+
qed

text \<open>The active file that the open leaves: the same records, with an encryption header if one is due.\<close>

lemma open_crypto_log:
  assumes X: "aead_ok X" "rng_ok rk rn" and c: "crypto_ok X ko crypto"
    and log: "log_file X crypto rs f (unat off)"
    and op: "open_crypto X f ko enc rk rn off (map_option wc_dek crypto) = Inr (f', crypto', off')"
  shows "crypto_ok X ko crypto'" "log_file X crypto' rs f' (unat off')" "unat off' \<le> max (unat off) 70"
    "length f' \<le> length f + 70"
proof -
  have "crypto_ok X ko crypto' \<and> log_file X crypto' rs f' (unat off') \<and> unat off' \<le> max (unat off) 70 \<and>
      length f' \<le> length f + 70"
  proof (cases crypto)
    case (Some cr)
    then obtain wrapped where w: "length wrapped = 60" "wc_header cr = enc_header wrapped" "ko = Some (wc_kek cr)"
      using c by (auto simp: crypto_ok_def)
    obtain rest where "f = enc_header wrapped @ rest" using log Some w by (auto simp: log_file_def header_of_def)
    then have "f' = f \<and> crypto' = crypto \<and> off' = off"
      using op Some w by (cases cr) (simp add: open_crypto_def read_enc_header_enc)
    then show ?thesis using c log by simp
  next
    case None
    show ?thesis
    proof (cases "off = 0 \<and> enc")
      case True
      then obtain k cr where k: "ko = Some k" "wal_crypto_fresh X k rk rn = Inr cr" "crypto' = Some cr"
        "f' = write_all_at f (wc_header cr) 0" "off' = of_nat WAL_ENC_HEADER_LEN"
        using op None by (auto simp: open_crypto_def rbind_eq_Inr_iff split: option.splits)
      obtain z where "rs = []" "f = replicate z 0" using log_file_off0 log None True by fastforce
      moreover note fr = wal_crypto_fresh_ok [OF X k(2)]
      ultimately show ?thesis
        using k write_at_zeros [of "[]" z "wc_header cr"] log_file_empty [of X crypto' "z - 70"]
        by (simp add: header_of_def)
    next
      case False
      then have "f' = f \<and> crypto' = None \<and> off' = off" using op None by (auto simp: open_crypto_def)
      then show ?thesis using log None by (simp add: crypto_ok_def)
    qed
  qed
  then show "crypto_ok X ko crypto'" "log_file X crypto' rs f' (unat off')" "unat off' \<le> max (unat off) 70"
    "length f' \<le> length f + 70"
    by auto
qed

lemma log_file_grow:
  assumes "log_file X crypto rs f off" "length f \<le> n"
  shows "log_file X crypto rs (set_len n f) off"
proof -
  obtain bs z where "f = (header_of crypto @ bs) @ replicate z 0"
    "framed X (map_option wc_dek crypto) (of_nat (length (header_of crypto))) rs bs"
    "off = length (header_of crypto) + length bs"
    using assms(1) by (auto simp: log_file_def)
  then show ?thesis using assms(2) set_len_zeros [of "header_of crypto @ bs" z n] by (auto simp: log_file_def)
qed

lemma open_keeps_log:
  assumes X: "aead_ok X" "rng_ok rk rn" and c: "crypto_ok X ko crypto"
    and log: "log_file X crypto rs f (unat (off :: u64))" and segs: "segs_rel X ko segs asegs"
    and op: "wal_open X f segs chunk ko enc rk rn = Inr (w, recs)"
    and fits: "length f + 70 < 2 ^ 64" 
  shows "recs = concat (map snd asegs) @ rs" "wal_rel X ko w rs" "wal_segs w = segs"
    "wal_prealloc_chunk w = chunk" "unat (ws_write_offset (wal_sync w)) \<le> max (unat off) 70"
proof -
  have r: "recover_file X f ko = Inr (rs, off, map_option wc_dek crypto)"
    using recover_log_file [OF X(1) c log] by simp
  obtain f1 crypto' good where oc: "open_crypto X f ko enc rk rn off (map_option wc_dek crypto) = Inr (f1, crypto', good)"
    using op r by (auto simp: wal_open_def recover_segments_rel [OF segs] rbind_eq_Inr_iff)
  note ok = open_crypto_log [OF X c log oc]
  define grow where "grow \<longleftrightarrow> chunk > 0 \<and> of_nat (length f1) < round_up (max good 1) chunk"
  define alloc where "alloc = (if grow then round_up (max good 1) chunk else of_nat (length f1))"
  have w: "recs = concat (map snd asegs) @ rs" "wal_crypto w = crypto'" "wal_segs w = segs" "wal_prealloc_chunk w = chunk"
    "wal_allocated w = alloc" "ws_write_offset (wal_sync w) = good"
    "ws_file (wal_sync w) = (if grow then set_len (unat alloc) f1 else f1)"
    using op r oc by (auto simp: wal_open_def recover_segments_rel [OF segs] Let_def grow_def alloc_def)
  have len: "unat (of_nat (length f1) :: u64) = length f1" using fits ok(4) by (simp add: unat_of_nat)
  have "length f1 \<le> unat alloc" if grow using that len by (simp add: alloc_def grow_def word_less_nat_alt)
  then show "wal_rel X ko w rs"
    using ok(1,2) w len log_file_grow by (auto simp: wal_rel_def alloc_def)
  show "recs = concat (map snd asegs) @ rs" "wal_segs w = segs" "wal_prealloc_chunk w = chunk"
    "unat (ws_write_offset (wal_sync w)) \<le> max (unat off) 70"
    using w ok(3) by simp_all
qed

lemma open_total:
  assumes X: "aead_ok X" and c: "crypto_ok X ko crypto" and log: "log_file X crypto rs f (unat (off :: u64))"
    and segs: "segs_rel X ko segs asegs"
    and enc: "enc \<Longrightarrow> \<exists>k c. ko = Some k \<and> wal_crypto_fresh X k rk rn = Inr c"
  shows "\<exists>w. wal_open X f segs chunk ko enc rk rn = Inr (w, concat (map snd asegs) @ rs)"
proof -
  have r: "recover_file X f ko = Inr (rs, off, map_option wc_dek crypto)"
    using recover_log_file [OF X c log] by simp
  have "\<exists>f1 crypto' good. open_crypto X f ko enc rk rn off (map_option wc_dek crypto) = Inr (f1, crypto', good)"
  proof (cases crypto)
    case None
    then show ?thesis using enc by (cases "off = 0 \<and> enc") (auto simp: open_crypto_def)
  next
    case (Some cr)
    then obtain wrapped rest where "length wrapped = 60" "f = enc_header wrapped @ rest" "ko = Some (wc_kek cr)"
      using c log by (auto simp: crypto_ok_def log_file_def header_of_def)
    then show ?thesis using Some by (simp add: open_crypto_def read_enc_header_enc)
  qed
  then show ?thesis using r by (auto simp: wal_open_def recover_segments_rel [OF segs] Let_def)
qed

section \<open>Runs of the log\<close>

datatype wal_event =
    EvAppend wal_record
  | EvSync wal_commit
  | EvRotate u64 "bytes option" "bytes option"
  | EvTruncate "bytes option" "bytes option"
  | EvDrop u64

fun wal_step :: "externals \<Rightarrow> wal_event \<Rightarrow> wal \<Rightarrow> storage_error + wal" where
  "wal_step X (EvAppend r) w = rbind (wal_append X r w) (\<lambda>(w', _). Inr w')"
| "wal_step X (EvSync c) w = Inr (commit_sync c w)"
| "wal_step X (EvRotate seq rk rn) w = wal_rotate X seq rk rn w"
| "wal_step X (EvTruncate rk rn) w = wal_truncate X rk rn w"
| "wal_step X (EvDrop seq) w = Inr (drop_segments_through seq w)"

fun wal_run :: "externals \<Rightarrow> wal_event list \<Rightarrow> wal \<Rightarrow> storage_error + wal" where
  "wal_run X [] w = Inr w"
| "wal_run X (e # es) w = rbind (wal_step X e w) (wal_run X es)"

text \<open>The abstract log: numbered sealed sequences of records and the active sequence.\<close>

type_synonym abs_log = "(u64, wal_record list) btree \<times> wal_record list"

fun log_step :: "wal_event \<Rightarrow> abs_log \<Rightarrow> abs_log" where
  "log_step (EvAppend r) (segs, rs) = (segs, rs @ [r])"
| "log_step (EvSync c) (segs, rs) = (segs, rs)"
| "log_step (EvRotate seq _ _) (segs, rs) = (bt_insert seq rs segs, [])"
| "log_step (EvTruncate _ _) (segs, rs) = (segs, [])"
| "log_step (EvDrop seq) (segs, rs) = (filter (\<lambda>s. \<not> fst s \<le> seq) segs, rs)"

definition log_contents :: "abs_log \<Rightarrow> wal_record list" where
  "log_contents l = concat (map snd (fst l)) @ snd l"

fun event_ok :: "wal_event \<Rightarrow> bool" where
  "event_ok (EvAppend r) \<longleftrightarrow> rec_ok r"
| "event_ok (EvRotate _ rk rn) \<longleftrightarrow> rng_ok rk rn"
| "event_ok (EvTruncate rk rn) \<longleftrightarrow> rng_ok rk rn"
| "event_ok _ \<longleftrightarrow> True"

fun event_cost :: "wal_event \<Rightarrow> nat" where
  "event_cost (EvAppend r) = record_cost r"
| "event_cost _ = 0"

lemma sync_through_log [simp]:
  "ws_file (sync_through c s) = ws_file s" "ws_write_offset (sync_through c s) = ws_write_offset s"
  "ws_generation (sync_through c s) = ws_generation s" "ws_ephemeral (sync_through c s) = ws_ephemeral s"
  by (simp_all add: sync_through_def)

lemma commit_sync_rel [simp]:
  "wal_rel X ko (commit_sync c w) rs = wal_rel X ko w rs" "wal_segs (commit_sync c w) = wal_segs w"
  "wal_prealloc_chunk (commit_sync c w) = wal_prealloc_chunk w"
  "ws_write_offset (wal_sync (commit_sync c w)) = ws_write_offset (wal_sync w)"
  by (simp_all add: wal_rel_def commit_sync_def)

lemma wal_step_refines:
  assumes X: "aead_ok X" and rel: "wal_rel X ko w rs" "segs_rel X ko (wal_segs w) asegs" and e: "event_ok e"
    and step: "wal_step X e w = Inr w'"
    and fits: "max (unat (ws_write_offset (wal_sync w))) 70 + event_cost e + unat (wal_prealloc_chunk w) < 2 ^ 64"
  shows "wal_rel X ko w' (snd (log_step e (asegs, rs)))" "segs_rel X ko (wal_segs w') (fst (log_step e (asegs, rs)))"
    "max (unat (ws_write_offset (wal_sync w'))) 70 \<le> max (unat (ws_write_offset (wal_sync w))) 70 + event_cost e"
    "wal_prealloc_chunk w' = wal_prealloc_chunk w"
proof -
  have "wal_rel X ko w' (snd (log_step e (asegs, rs))) \<and> segs_rel X ko (wal_segs w') (fst (log_step e (asegs, rs))) \<and>
    max (unat (ws_write_offset (wal_sync w'))) 70 \<le> max (unat (ws_write_offset (wal_sync w))) 70 + event_cost e \<and>
    wal_prealloc_chunk w' = wal_prealloc_chunk w"
  proof (cases e)
    case (EvAppend r)
    then obtain cm where a: "wal_append X r w = Inr (w', cm)" using step by (auto simp: rbind_eq_Inr_iff)
    have "unat (ws_write_offset (wal_sync w)) + record_cost r + unat (wal_prealloc_chunk w) < 2 ^ 64"
      using fits EvAppend by simp
    note k = append_keeps_log [OF X rel(1) _ a this]
    have r: "rec_ok r" using e EvAppend by simp
    then have "max (unat (ws_write_offset (wal_sync w'))) 70 \<le> max (unat (ws_write_offset (wal_sync w))) 70 + record_cost r"
      using k(3) by linarith
    then show ?thesis using k(1,4,5) [OF r] EvAppend rel(2) by simp
  next
    case (EvSync c)
    then show ?thesis using step rel by auto
  next
    case (EvRotate seq rk rn)
    then have "wal_rotate X seq rk rn w = Inr w'" "rng_ok rk rn" using step e by auto
    from rotate_keeps_log [OF X this(2) rel(1) this(1)] fits EvRotate segs_rel_insert [OF rel(2)] show ?thesis
      by auto
  next
    case (EvTruncate rk rn)
    then have "wal_truncate X rk rn w = Inr w'" "rng_ok rk rn" using step e by auto
    from truncate_keeps_log [OF X this(2) rel(1) this(1)] fits EvTruncate rel(2) show ?thesis by auto
  next
    case (EvDrop seq)
    then have "w' = drop_segments_through seq w" using step by simp
    then show ?thesis
      using EvDrop rel segs_rel_filter [OF rel(2), of "\<lambda>s. \<not> s \<le> seq"]
      by (simp add: wal_rel_def drop_segments_through_def)
  qed
  then show "wal_rel X ko w' (snd (log_step e (asegs, rs)))" "segs_rel X ko (wal_segs w') (fst (log_step e (asegs, rs)))"
    "max (unat (ws_write_offset (wal_sync w'))) 70 \<le> max (unat (ws_write_offset (wal_sync w))) 70 + event_cost e"
    "wal_prealloc_chunk w' = wal_prealloc_chunk w"
    by auto
qed

lemma wal_run_refines:
  assumes X: "aead_ok X" and "wal_rel X ko w rs" "segs_rel X ko (wal_segs w) asegs" "\<forall>e \<in> set es. event_ok e"
    and "wal_run X es w = Inr w'"
    and "max (unat (ws_write_offset (wal_sync w))) 70 + sum_list (map event_cost es) + unat (wal_prealloc_chunk w) < 2 ^ 64"
  shows "wal_rel X ko w' (snd (fold log_step es (asegs, rs))) \<and>
    segs_rel X ko (wal_segs w') (fst (fold log_step es (asegs, rs)))"
  using assms(2-)
proof (induction es arbitrary: w rs asegs)
  case (Cons e es)
  then obtain w1 where w1: "wal_step X e w = Inr w1" "wal_run X es w1 = Inr w'" by (auto simp: rbind_eq_Inr_iff)
  obtain asegs1 rs1 where l: "log_step e (asegs, rs) = (asegs1, rs1)" by force
  note st = wal_step_refines [OF X Cons.prems(1,2) _ w1(1)]
  have "max (unat (ws_write_offset (wal_sync w))) 70 + event_cost e + unat (wal_prealloc_chunk w) < 2 ^ 64"
    using Cons.prems(5) by simp
  then have "wal_rel X ko w1 rs1" "segs_rel X ko (wal_segs w1) asegs1"
    "max (unat (ws_write_offset (wal_sync w1))) 70 \<le> max (unat (ws_write_offset (wal_sync w))) 70 + event_cost e"
    "wal_prealloc_chunk w1 = wal_prealloc_chunk w"
    using st Cons.prems(3) l by auto
  then show ?case using Cons.IH [of w1 rs1 asegs1] Cons.prems(3,5) w1(2) l by auto
qed simp


section \<open>Torn tails\<close>

text \<open>The offsets at which the frames of the records end.\<close>

fun rec_ends :: "bool \<Rightarrow> nat \<Rightarrow> wal_record list \<Rightarrow> nat list" where
  "rec_ends sealed off [] = []"
| "rec_ends sealed off (r # rs) =
     (let e = off + length (rec_payload r) + (if sealed then TAG_LEN else 0) + 8 in e # rec_ends sealed e rs)"

lemma rec_ends_shift: "rec_ends sealed (off + d) rs = map (\<lambda>e. e + d) (rec_ends sealed off rs)"
proof (induction rs arbitrary: off)
  case (Cons r rs)
  show ?case
    using Cons.IH [of "off + length (rec_payload r) + (if sealed then TAG_LEN else 0) + 8"]
    by (simp add: Let_def add_ac split del: if_split)
qed simp

lemma length_rec_ends [simp]: "length (rec_ends sealed off rs) = length rs"
  by (induction rs arbitrary: off) (simp_all add: Let_def)

text \<open>The records whose frames lie within the first \<open>n\<close> bytes.\<close>

definition complete_records :: "bool \<Rightarrow> nat \<Rightarrow> nat \<Rightarrow> wal_record list \<Rightarrow> wal_record list" where
  "complete_records sealed off n rs = take (length (takeWhile (\<lambda>e. e \<le> n) (rec_ends sealed off rs))) rs"

definition complete_end :: "bool \<Rightarrow> nat \<Rightarrow> nat \<Rightarrow> wal_record list \<Rightarrow> nat" where
  "complete_end sealed off n rs = last (off # takeWhile (\<lambda>e. e \<le> n) (rec_ends sealed off rs))"

lemma seal_body_length:
  "aead_ok X \<Longrightarrow> seal_body X dek off p = Inr body \<Longrightarrow> length body = length p + (if dek \<noteq> None then TAG_LEN else 0)"
  using dek_open_seal(2) by (auto simp: seal_body_def split: option.splits)

lemma replay_cut:
  assumes X: "aead_ok X" and "framed X dek off rs bs"
  shows "replay_loop X dek off (take n bs) =
    Inr (complete_records (dek \<noteq> None) 0 n rs, off + of_nat (complete_end (dek \<noteq> None) 0 n rs))"
  using assms(2)
proof (induction rs arbitrary: off bs n)
  case Nil
  then show ?case using replay_zeros [of X dek off 0] by (simp add: complete_records_def complete_end_def)
next
  case (Cons r rs)
  then obtain body bs' where b: "rec_ok r" "seal_body X dek off (rec_payload r) = Inr body" "length body < 2 ^ 32"
    "bs = frame_of body @ bs'" "framed X dek (off + of_nat (length (frame_of body))) rs bs'"
    by auto
  define m where "m = length (frame_of body)"
  have e: "rec_ends (dek \<noteq> None) 0 (r # rs) = m # map (\<lambda>e. e + m) (rec_ends (dek \<noteq> None) 0 rs)"
    using seal_body_length [OF X b(2)] rec_ends_shift [of "dek \<noteq> None" 0 m rs] by (simp add: Let_def add_ac m_def split del: if_split)
  show ?case
  proof (cases "n < m")
    case True
    then show ?thesis using replay_torn [OF True [unfolded m_def] b(3)] b(4) e True
      by (simp add: complete_records_def complete_end_def m_def del: rec_ends.simps)
  next
    case False
    have tw: "takeWhile (\<lambda>e. e \<le> n) (map (\<lambda>e. e + m) xs) = map (\<lambda>e. e + m) (takeWhile (\<lambda>e. e \<le> n - m) xs)" for xs
      using False by (induction xs) auto
    have "take n bs = frame_of body @ take (n - m) bs'" using False b(4) by (simp add: m_def)
    moreover have "last (0 # m # map (\<lambda>e. e + m) xs) = m + last (0 # xs)" for xs :: "nat list"
      by (cases xs) (auto simp: last_map)
    ultimately show ?thesis
      using Cons.IH [OF b(5), of "n - m"] replay_loop_frame [OF X b(1-3)] e False
      by (simp add: complete_records_def complete_end_def tw m_def [symmetric] add.assoc
          del: length_frame_of rec_ends.simps last.simps)
  qed
qed

lemma recover_cut:
  assumes X: "aead_ok X" and c: "crypto_ok X ko crypto" and log: "log_file X crypto rs f off"
    and n: "length (header_of crypto) \<le> n" "n \<le> off"
  shows "recover_file X (take n f) ko =
    Inr (complete_records (crypto \<noteq> None) (length (header_of crypto)) n rs,
         of_nat (complete_end (crypto \<noteq> None) (length (header_of crypto)) n rs), map_option wc_dek crypto)"
proof -
  obtain bs z where f: "f = header_of crypto @ bs @ replicate z 0"
    and fr: "framed X (map_option wc_dek crypto) (of_nat (length (header_of crypto))) rs bs"
    and off: "off = length (header_of crypto) + length bs"
    using log by (auto simp: log_file_def)
  let ?h = "length (header_of crypto)"
  have cut: "take n f = header_of crypto @ take (n - ?h) bs" using n f off by simp
  have sh: "takeWhile (\<lambda>e. e \<le> n) (rec_ends s ?h rs) =
      map (\<lambda>e. e + ?h) (takeWhile (\<lambda>e. e \<le> n - ?h) (rec_ends s 0 rs))" for s
    using n(1) rec_ends_shift [of s 0 ?h rs] by (simp add: takeWhile_map comp_def le_diff_conv2)
  have "complete_records s ?h n rs = complete_records s 0 (n - ?h) rs"
    "complete_end s ?h n rs = ?h + complete_end s 0 (n - ?h) rs" for s
    unfolding complete_records_def complete_end_def sh by (simp_all add: last_map)
  then have g: "replay_loop X (map_option wc_dek crypto) (of_nat ?h) (take (n - ?h) bs) =
      Inr (complete_records (crypto \<noteq> None) ?h n rs, of_nat (complete_end (crypto \<noteq> None) ?h n rs))"
    using replay_cut [OF X fr, of "n - ?h"] by simp
  show ?thesis
  proof (cases crypto)
    case None
    have "take 8 (take n bs) \<noteq> WAL_ENC_MAGIC" if "70 \<le> length (take n bs)"
      using plain_not_magic [of X 0 rs bs 0] fr None that by (simp add: header_of_def)
    then have "read_enc_header (take n bs) = Inr None" by (rule read_enc_header_not_magic)
    then show ?thesis using g None cut by (simp add: recover_file_def replay_def header_of_def)
  next
    case (Some cr)
    then obtain wrapped where w: "length wrapped = 60" "wc_header cr = enc_header wrapped"
      "unwrap_dek X (wc_kek cr) wrapped = Inr (wc_dek cr)" "ko = Some (wc_kek cr)"
      using c by (auto simp: crypto_ok_def)
    then have "read_enc_header (take n f) = Inr (Some (wrapped, of_nat WAL_ENC_HEADER_LEN))"
      using Some read_enc_header_enc [OF w(1), of "take (n - ?h) bs"] cut by (simp add: header_of_def)
    moreover have "?h = WAL_ENC_HEADER_LEN" using Some w by (simp add: header_of_def length_enc_header)
    ultimately show ?thesis using g Some w cut by (simp add: recover_file_def replay_def)
  qed
qed


lemma rec_ends_append:
  "rec_ends s off (rs @ rs') = rec_ends s off rs @ rec_ends s (last (off # rec_ends s off rs)) rs'"
  by (induction rs arbitrary: off) (simp_all add: Let_def)

lemma rec_ends_le_last: "e \<in> set (off # rec_ends s off rs) \<Longrightarrow> e \<le> last (off # rec_ends s off rs)"
proof (induction rs arbitrary: off e)
  case (Cons r rs)
  let ?o = "off + length (rec_payload r) + (if s then TAG_LEN else 0) + 8"
  have "x \<le> last (?o # rec_ends s ?o rs)" if "x \<in> set (?o # rec_ends s ?o rs)" for x
    using Cons.IH [OF that] .
  moreover from this [of ?o] have "off \<le> last (?o # rec_ends s ?o rs)" by simp
  ultimately show ?case using Cons.prems by (auto simp: Let_def split del: if_split)
qed simp

lemma framed_length:
  assumes "aead_ok X" "framed X dek off rs bs"
  shows "length bs = last (0 # rec_ends (dek \<noteq> None) 0 rs)"
  using assms(2)
proof (induction rs arbitrary: off bs)
  case (Cons r rs)
  then obtain body bs' where b: "seal_body X dek off (rec_payload r) = Inr body" "bs = frame_of body @ bs'"
    "framed X dek (off + of_nat (length (frame_of body))) rs bs'"
    by auto
  define m where "m = length (frame_of body)"
  have "rec_ends (dek \<noteq> None) 0 (r # rs) = m # map (\<lambda>e. e + m) (rec_ends (dek \<noteq> None) 0 rs)"
    using seal_body_length [OF assms(1) b(1)] rec_ends_shift [of "dek \<noteq> None" 0 m rs]
    by (simp add: Let_def add_ac m_def split del: if_split)
  moreover have "last (0 # m # map (\<lambda>e. e + m) xs) = m + last (0 # xs)" for xs :: "nat list"
    by (cases xs) (auto simp: last_map)
  ultimately show ?case using Cons.IH [OF b(3)] b(2) by (simp add: m_def del: rec_ends.simps last.simps)
qed simp

lemma log_file_off:
  assumes "aead_ok X" "log_file X crypto rs f off"
  shows "off = last (length (header_of crypto) # rec_ends (crypto \<noteq> None) (length (header_of crypto)) rs)"
proof -
  let ?h = "length (header_of crypto)"
  obtain bs where "framed X (map_option wc_dek crypto) (of_nat ?h) rs bs" "off = ?h + length bs"
    using assms(2) by (auto simp: log_file_def)
  then show ?thesis
    using framed_length [OF assms(1)] rec_ends_shift [of "crypto \<noteq> None" 0 ?h rs] by (auto simp: last_map)
qed

text \<open>A cut inside the last frame loses the last record only.\<close>

lemma complete_snoc:
  assumes "off = last (h # rec_ends s h rs)" "off \<le> n" "n < last (h # rec_ends s h (rs @ [r]))"
  shows "complete_records s h n (rs @ [r]) = rs" "complete_end s h n (rs @ [r]) = off"
proof -
  have "\<forall>e \<in> set (rec_ends s h rs). e \<le> n" using rec_ends_le_last assms(1,2) by fastforce
  then have "takeWhile (\<lambda>e. e \<le> n) (rec_ends s h (rs @ [r])) = rec_ends s h rs"
    using assms by (auto simp: rec_ends_append Let_def takeWhile_append2 split: if_splits)
  then show "complete_records s h n (rs @ [r]) = rs" "complete_end s h n (rs @ [r]) = off"
    using assms(1) by (simp_all add: complete_records_def complete_end_def)
qed

lemma append_keeps_crypto: "wal_append X r w = Inr (w', cm) \<Longrightarrow> wal_crypto w' = wal_crypto w"
  by (auto simp: wal_append_unfold rbind_eq_Inr_iff Let_def case_prod_unfold)

lemma recover_header:
  assumes "recover_file X f ko = Inr (rs, off, Some d)"
  shows "\<exists>wrapped n k. read_enc_header f = Inr (Some (wrapped, n)) \<and> ko = Some k"
proof -
  obtain h where h: "read_enc_header f = Inr h" using assms by (auto simp: recover_file_def rbind_eq_Inr_iff)
  then show ?thesis
    using assms by (cases h; cases ko) (auto simp: recover_file_def rbind_eq_Inr_iff split: prod.splits)
qed

lemma open_keeps_dek:
  assumes "recover_file X f ko = Inr (rs, off, Some d)"
  shows "\<exists>w. wal_open X f [] 0 ko enc rk rn = Inr (w, rs) \<and> ws_write_offset (wal_sync w) = off \<and>
    map_option wc_dek (wal_crypto w) = Some d"
proof -
  obtain wrapped n k where "read_enc_header f = Inr (Some (wrapped, n))" "ko = Some k"
    using recover_header [OF assms] by blast
  then show ?thesis using assms by (simp add: wal_open_def list_segments_def open_crypto_def Let_def)
qed

text \<open>What an append to an encrypted log writes: the record sealed under the nonce of its offset.\<close>

lemma read_back_write: "take (length bs) (drop off (write_all_at f bs off)) = bs"
  by (simp add: write_all_at_def)

lemma append_writes_sealed:
  assumes "map_option wc_dek (wal_crypto w) = Some d" "dek_seal X d (ws_write_offset (wal_sync w)) (rec_payload r) = Inr b"
  shows "\<exists>w' cm. wal_append X r w = Inr (w', cm) \<and>
    take (length (frame_of b)) (drop (unat (ws_write_offset (wal_sync w))) (ws_file (wal_sync w'))) = frame_of b"
  using assms
  by (auto simp: wal_append_unfold seal_body_def Let_def case_prod_unfold read_back_write simp del: length_frame_of)

lemma append_seals:
  assumes "map_option wc_dek (wal_crypto w) = Some d" "wal_append X r w = Inr (w', cm)"
  obtains b where "dek_seal X d (ws_write_offset (wal_sync w)) (rec_payload r) = Inr b"
  using assms by (auto simp: wal_append_unfold seal_body_def rbind_eq_Inr_iff)

subsection \<open>A cut behind a durable record\<close>

lemma complete_prefix:
  assumes "last (h # rec_ends s h rs) \<le> n"
  shows "complete_records s h n (rs @ rs') = rs @ complete_records s (last (h # rec_ends s h rs)) n rs'"
proof -
  have "\<forall>e \<in> set (rec_ends s h rs). e \<le> n" using rec_ends_le_last assms by (fastforce simp del: last.simps)
  then show ?thesis by (simp add: complete_records_def rec_ends_append takeWhile_append2 del: last.simps)
qed

fun in_generation :: "wal_event \<Rightarrow> bool" where
  "in_generation (EvAppend _) \<longleftrightarrow> True"
| "in_generation (EvSync _) \<longleftrightarrow> True"
| "in_generation _ \<longleftrightarrow> False"

lemma step_in_generation:
  assumes "in_generation e" "wal_step X e w = Inr w'"
  shows "ws_generation (wal_sync w') = ws_generation (wal_sync w)" "wal_crypto w' = wal_crypto w"
    "ws_ephemeral (wal_sync w') = ws_ephemeral (wal_sync w)"
  using assms
  by (cases e; auto simp: wal_append_unfold rbind_eq_Inr_iff Let_def case_prod_unfold commit_sync_def)+

lemma run_in_generation:
  assumes "\<forall>e \<in> set es. in_generation e" "wal_run X es w = Inr w'"
  shows "ws_generation (wal_sync w') = ws_generation (wal_sync w) \<and> wal_crypto w' = wal_crypto w \<and>
    ws_ephemeral (wal_sync w') = ws_ephemeral (wal_sync w)"
  using assms
proof (induction es arbitrary: w)
  case (Cons e es)
  then obtain w1 where "wal_step X e w = Inr w1" "wal_run X es w1 = Inr w'" by (auto simp: rbind_eq_Inr_iff)
  then show ?case using Cons step_in_generation by force
qed simp

lemma run_in_generation_rel:
  assumes X: "aead_ok X" and "wal_rel X ko w rs" "\<forall>e \<in> set es. event_ok e \<and> in_generation e"
    and "wal_run X es w = Inr w'"
    and "unat (ws_write_offset (wal_sync w)) + sum_list (map event_cost es) + unat (wal_prealloc_chunk w) < 2 ^ 64"
  shows "\<exists>rs'. wal_rel X ko w' (rs @ rs')"
  using assms(2-)
proof (induction es arbitrary: w rs)
  case Nil
  then have "wal_rel X ko w' (rs @ [])" by simp
  then show ?case by blast
next
  case (Cons e es)
  then obtain w1 where w1: "wal_step X e w = Inr w1" "wal_run X es w1 = Inr w'" by (auto simp: rbind_eq_Inr_iff)
  have "\<exists>rs1. wal_rel X ko w1 (rs @ rs1) \<and> wal_prealloc_chunk w1 = wal_prealloc_chunk w \<and>
      unat (ws_write_offset (wal_sync w1)) \<le> unat (ws_write_offset (wal_sync w)) + event_cost e"
  proof (cases e)
    case (EvAppend r)
    then obtain cm where a: "wal_append X r w = Inr (w1, cm)" "rec_ok r"
      using w1(1) Cons.prems(2) by (auto simp: rbind_eq_Inr_iff)
    have "unat (ws_write_offset (wal_sync w)) + record_cost r + unat (wal_prealloc_chunk w) < 2 ^ 64"
      using Cons.prems(4) EvAppend by simp
    from append_keeps_log [OF X Cons.prems(1) a(2,1) this] show ?thesis using EvAppend by auto
  next
    case (EvSync c)
    then have "wal_rel X ko w1 (rs @ [])" "wal_prealloc_chunk w1 = wal_prealloc_chunk w"
      "ws_write_offset (wal_sync w1) = ws_write_offset (wal_sync w)"
      using w1(1) Cons.prems(1) by auto
    then show ?thesis by (metis le_add1)
  qed (use Cons.prems(2) in auto)
  then obtain rs1 where "wal_rel X ko w1 (rs @ rs1)" "wal_prealloc_chunk w1 = wal_prealloc_chunk w"
    "unat (ws_write_offset (wal_sync w1)) \<le> unat (ws_write_offset (wal_sync w)) + event_cost e" by blast
  then show ?case using Cons.IH [of w1 "rs @ rs1"] w1(2) Cons.prems(2,4) by auto
qed

lemma sync_through_covers:
  "\<not> ws_ephemeral s \<Longrightarrow> ws_generation s = cm_generation cm \<Longrightarrow> cm_offset cm \<le> ws_write_offset s \<Longrightarrow>
    cm_offset cm \<le> ws_synced (sync_through cm s)"
  by (auto simp: sync_through_def)

subsection \<open>Bytes behind the point of recovery\<close>

lemma replay_damaged:
  assumes "i < length p" "b \<noteq> p ! i" "length p < 2 ^ 32"
  shows "replay_loop X None off ((frame_of p)[4 + i := b] @ rest) = Inr ([], off)"
proof -
  have fr: "(frame_of p)[4 + i := b] = le_bytes 4 (of_nat (length p) :: u32) @ p[i := b] @ le_bytes 4 (crc32 p)"
    using assms(1) by (simp add: frame_of_def list_update_append)
  have "crc32 (take i p @ b # drop (Suc i) p) \<noteq> crc32 (take i p @ p ! i # drop (Suc i) p)"
    using assms(2) by (rule crc32_single_byte)
  then have "crc32 p \<noteq> crc32 (p[i := b])"
    using assms(1) by (simp add: upd_conv_take_nth_drop id_take_nth_drop [symmetric])
  then show ?thesis
    unfolding fr using assms(3)
    by (subst replay_loop.simps) (simp add: Let_def from_le_le_bytes_full unat_of_nat_u32)
qed

lemma open_plain:
  assumes "read_enc_header f = Inr None" "replay_loop X None 0 f = Inr (rs, off)"
  shows "\<exists>w. wal_open X f [] 0 None False rk rn = Inr (w, rs) \<and> ws_write_offset (wal_sync w) = off \<and>
    ws_file (wal_sync w) = f \<and> wal_crypto w = None \<and> wal_prealloc_chunk w = 0"
  using assms by (simp add: wal_open_def list_segments_def recover_file_def replay_def open_crypto_def Let_def)

lemma append_plain:
  assumes "wal_crypto w = None" "wal_prealloc_chunk w = 0"
  shows "\<exists>w' cm. wal_append X r w = Inr (w', cm) \<and> wal_crypto w' = None \<and> wal_prealloc_chunk w' = 0 \<and>
    ws_ephemeral (wal_sync w') = ws_ephemeral (wal_sync w) \<and>
    ws_file (wal_sync w') = write_all_at (ws_file (wal_sync w)) (frame_of (rec_payload r)) (unat (ws_write_offset (wal_sync w)))"
  using assms by (simp add: wal_append_unfold seal_body_def grow_file_def Let_def)

subsection \<open>Concrete logs\<close>

definition sample_put :: wal_record where
  "sample_put = \<lparr>wr_hlc = Hlc 5 0, wr_key = [7], wr_op = WalPut [9]\<rparr>"

definition sample_delete :: wal_record where
  "sample_delete = \<lparr>wr_hlc = Hlc 6 1, wr_key = [7], wr_op = WalDelete\<rparr>"

lemma sample_ok [simp]:
  "rec_ok sample_put" "rec_ok sample_delete" "length (rec_payload sample_put) = 23"
  "length (rec_payload sample_delete) = 18"
  by (simp_all add: rec_ok_def rec_payload_def op_payload_def op_value_def sample_put_def sample_delete_def)

definition plain_wal :: "wal_record list \<Rightarrow> wal" where
  "plain_wal rs = (let f = concat (map (\<lambda>r. frame_of (rec_payload r)) rs) in
     \<lparr>wal_sync = \<lparr>ws_file = f, ws_ephemeral = False, ws_write_offset = of_nat (length f), ws_synced = 0,
        ws_generation = 0, ws_fsyncs = 0\<rparr>,
      wal_segs = [], wal_prealloc_chunk = 0, wal_allocated = 0, wal_crypto = None\<rparr>)"

lemma framed_plain:
  "\<forall>r \<in> set rs. rec_ok r \<Longrightarrow> framed X None off rs (concat (map (\<lambda>r. frame_of (rec_payload r)) rs))"
  by (induction rs arbitrary: off) (auto simp: seal_body_def rec_ok_def)

lemma plain_wal_rel:
  assumes "\<forall>r \<in> set rs. rec_ok r" "length (concat (map (\<lambda>r. frame_of (rec_payload r)) rs)) < 2 ^ 64"
  shows "wal_rel X None (plain_wal rs) rs"
proof -
  let ?f = "concat (map (\<lambda>r. frame_of (rec_payload r)) rs)"
  have "log_file X None rs ?f (length ?f)"
    using framed_plain [OF assms(1), of X 0] unfolding log_file_def header_of_def
    by (intro exI [of _ ?f] exI [of _ 0]) simp
  then show ?thesis using assms(2) by (simp add: wal_rel_def plain_wal_def crypto_ok_def Let_def unat_of_nat)
qed

definition sealed_crypto :: wal_crypto where
  "sealed_crypto = \<lparr>wc_kek = Kek (replicate 32 7), wc_dek = Dek (replicate 32 1),
     wc_header = enc_header (replicate 12 2 @ replicate 32 1 @ replicate 16 0)\<rparr>"

definition sealed_wal :: wal where
  "sealed_wal =
     \<lparr>wal_sync = \<lparr>ws_file = wc_header sealed_crypto, ws_ephemeral = False, ws_write_offset = 70, ws_synced = 70,
        ws_generation = 0, ws_fsyncs = 0\<rparr>,
      wal_segs = [], wal_prealloc_chunk = 0, wal_allocated = 70, wal_crypto = Some sealed_crypto\<rparr>"

lemma sealed_wal_rel: "wal_rel plain_externals (Some (Kek (replicate 32 7))) sealed_wal []"
proof -
  have "wal_crypto_fresh plain_externals (Kek (replicate 32 7)) (Some (replicate 32 1)) (Some (replicate 12 2)) = Inr sealed_crypto"
    by (simp add: wal_crypto_fresh_def plain_externals_def sealed_crypto_def)
  note wal_crypto_fresh_ok [OF aead_ok_plain _ this]
  then have "crypto_ok plain_externals (Some (Kek (replicate 32 7))) (Some sealed_crypto)" "length (wc_header sealed_crypto) = 70"
    by (simp_all add: rng_ok_def)
  then show ?thesis
    using log_file_empty [of plain_externals "Some sealed_crypto" 0]
    by (simp add: wal_rel_def sealed_wal_def header_of_def)
qed

lemma recover_cut_last:
  assumes "aead_ok X" and "wal_rel X ko w rs" and "rec_ok r" and "wal_crypto w = Some c"
    and "wal_append X r w = Inr (w1, cm)"
    and "unat (ws_write_offset (wal_sync w)) + record_cost r + unat (wal_prealloc_chunk w) < 2 ^ 64"
    and "unat (ws_write_offset (wal_sync w)) \<le> n" and "n < unat (ws_write_offset (wal_sync w1))"
  shows "recover_file X (take n (ws_file (wal_sync w1))) ko = Inr (rs, ws_write_offset (wal_sync w), Some (wc_dek c))"
proof -
  let ?h = "length (header_of (wal_crypto w))"
  have rel: "crypto_ok X ko (wal_crypto w)" "log_file X (wal_crypto w) rs (ws_file (wal_sync w)) (unat (ws_write_offset (wal_sync w)))"
    using assms(2) by (simp_all add: wal_rel_def)
  have w1: "wal_crypto w1 = wal_crypto w"
    "log_file X (wal_crypto w) (rs @ [r]) (ws_file (wal_sync w1)) (unat (ws_write_offset (wal_sync w1)))"
    using append_keeps_log(1) [OF assms(1,2,3,5,6)] append_keeps_crypto [OF assms(5)] by (simp_all add: wal_rel_def)
  have "?h \<le> unat (ws_write_offset (wal_sync w))" using rel(2) by (auto simp: log_file_def)
  then have "recover_file X (take n (ws_file (wal_sync w1))) ko =
      Inr (complete_records True ?h n (rs @ [r]), of_nat (complete_end True ?h n (rs @ [r])), Some (wc_dek c))"
    using recover_cut [OF assms(1) rel(1) w1(2)] assms(4,7,8) by simp
  moreover have "unat (ws_write_offset (wal_sync w)) = last (?h # rec_ends True ?h rs)"
    "n < last (?h # rec_ends True ?h (rs @ [r]))"
    using log_file_off [OF assms(1) rel(2)] log_file_off [OF assms(1) w1(2)] assms(4,8) by simp_all
  note complete_snoc [OF this(1) assms(7) this(2)]
  ultimately show ?thesis by simp
qed

section \<open>Properties\<close>

text \<open>
  C3: the log recovers what was written. After any sequence of appends, group commits, rotations to
  numbered segments, truncations and segment deletions on a log opened on empty storage, in
  plain text or encrypted, reopening its files replays exactly the records of the abstract log:
  those of the sealed segments in the order of their numbers, then those of the active log.
\<close>

theorem wal_recovers:
  assumes "aead_ok X" and "rng_ok rk rn" and "wal_open X [] [] chunk ko enc rk rn = Inr (w0, recs0)"
    and "\<forall>e \<in> set es. event_ok e" and "wal_run X es w0 = Inr w"
    and "70 + sum_list (map event_cost es) + unat chunk < 2 ^ 64"
    and "enc' \<longrightarrow> (\<exists>k c. ko = Some k \<and> wal_crypto_fresh X k rk' rn' = Inr c)"
  shows "\<exists>w'. wal_open X (ws_file (wal_sync w)) (wal_segs w) chunk' ko enc' rk' rn'
    = Inr (w', log_contents (fold log_step es ([], [])))"
proof -
  have 0: "log_file X None [] [] (unat (0 :: u64))" "segs_rel X ko [] []" "crypto_ok X ko None"
    by (simp_all add: log_file_def header_of_def segs_rel_def crypto_ok_def)
  note o = open_keeps_log [OF assms(1,2) 0(3,1,2) assms(3)]
  have w0: "wal_rel X ko w0 []" "segs_rel X ko (wal_segs w0) []" "wal_prealloc_chunk w0 = chunk"
    "max (unat (ws_write_offset (wal_sync w0))) 70 = 70"
    using o 0(2) by simp_all
  obtain asegs rs where l: "fold log_step es ([], []) = (asegs, rs)" by force
  then have "wal_rel X ko w rs" "segs_rel X ko (wal_segs w) asegs"
    using wal_run_refines [OF assms(1) w0(1,2) assms(4,5)] w0(3,4) assms(6) by simp_all
  then show ?thesis
    using open_total [OF assms(1), of ko "wal_crypto w" rs _ _ "wal_segs w" asegs enc' rk' rn' chunk'] assms(7) l
    by (auto simp: wal_rel_def log_contents_def)
qed

theorem wal_recovers_witness:
  "\<exists>w0 w w'. wal_open plain_externals [] [] 0 None False (Some (replicate 32 1)) (Some (replicate 12 2)) = Inr (w0, [])
    \<and> wal_run plain_externals [EvAppend sample_put,
        EvRotate 1 (Some (replicate 32 1)) (Some (replicate 12 2)), EvAppend sample_delete] w0 = Inr w
    \<and> wal_open plain_externals (ws_file (wal_sync w)) (wal_segs w) 0 None False None None
        = Inr (w', [sample_put, sample_delete])"
proof -
  let ?rk = "Some (replicate 32 (1 :: byte))" and ?rn = "Some (replicate 12 (2 :: byte))"
  let ?es = "[EvAppend sample_put, EvRotate 1 ?rk ?rn, EvAppend sample_delete]"
  obtain w0 where w0: "wal_open plain_externals [] [] 0 None False ?rk ?rn = Inr (w0, [])"
    using open_plain [of "[]" plain_externals "[]" 0 ?rk ?rn] replay_zeros [of plain_externals None 0 0]
    by (auto simp: read_enc_header_def)
  have "\<exists>w. wal_run plain_externals ?es w0 = Inr w"
    using w0 by (auto simp: wal_open_def list_segments_def recover_file_def read_enc_header_def replay_def
        replay_loop.simps open_crypto_def Let_def wal_append_unfold seal_body_def grow_file_def
        wal_rotate_def fresh_start_def)
  then obtain w where w: "wal_run plain_externals ?es w0 = Inr w" by blast
  have "rng_ok ?rk ?rn" by (simp add: rng_ok_def)
  from wal_recovers [OF aead_ok_plain this w0 _ w, of False None None 0] w0 w show ?thesis
    by (auto simp: rng_ok_def record_cost_def log_contents_def)
qed

text \<open>
  C26: a torn tail loses only the records it cuts. Whatever the byte at which the active file is cut
  off behind its header, replay returns exactly the records whose frames are complete, without
  an error.
\<close>

theorem wal_torn_tail:
  assumes "aead_ok X" and "wal_rel X ko w rs"
    and "length (header_of (wal_crypto w)) \<le> n" and "n \<le> unat (ws_write_offset (wal_sync w))"
  shows "\<exists>g d. recover_file X (take n (ws_file (wal_sync w))) ko
    = Inr (complete_records (wal_crypto w \<noteq> None) (length (header_of (wal_crypto w))) n rs, g, d)"
  using recover_cut [OF assms(1) _ _ assms(3,4)] assms(2) unfolding wal_rel_def by blast


theorem wal_torn_tail_witness:
  "\<exists>g d. recover_file plain_externals (take 50 (ws_file (wal_sync (plain_wal [sample_put, sample_delete])))) None
    = Inr ([sample_put], g, d)"
proof -
  have "wal_rel plain_externals None (plain_wal [sample_put, sample_delete]) [sample_put, sample_delete]"
    by (rule plain_wal_rel) simp_all
  from wal_torn_tail [OF aead_ok_plain this, of 50] show ?thesis
    by (simp add: plain_wal_def header_of_def Let_def complete_records_def)
qed

text \<open>
  C27: two records are sealed under one key and one nonce. The append of a record to an encrypted log
  writes, at its offset, the frame of the record sealed under the data key with the nonce of that
  offset. When a crash cuts that frame, reopening the file returns the earlier records, keeps the
  data key and resumes at the offset of the cut record, and the append of any record whatever then
  writes at that offset the frame of that record sealed under the same key with the same nonce.
\<close>

theorem wal_reopen_reuses_nonce:
  assumes "aead_ok X" and "wal_rel X ko w rs" and "rec_ok r" and "wal_crypto w = Some c" and "wc_dek c = Dek k"
    and "wal_append X r w = Inr (w1, cm)" and "off = ws_write_offset (wal_sync w)"
    and "unat off + record_cost r + unat (wal_prealloc_chunk w) < 2 ^ 64"
    and "unat off \<le> n" and "n < unat (ws_write_offset (wal_sync w1))"
  shows "(\<exists>b. aead_seal X k (nonce_from_offset off) (le_bytes 8 off) (rec_payload r) = Some b
      \<and> take (length (frame_of b)) (drop (unat off) (ws_file (wal_sync w1))) = frame_of b)
    \<and> (\<exists>w2. wal_open X (take n (ws_file (wal_sync w1))) [] 0 ko enc rk rn = Inr (w2, rs)
      \<and> ws_write_offset (wal_sync w2) = off
      \<and> map_option wc_dek (wal_crypto w2) = Some (Dek k)
      \<and> (\<forall>r2 b2. aead_seal X k (nonce_from_offset off) (le_bytes 8 off) (rec_payload r2) = Some b2 \<longrightarrow>
            (\<exists>w3 cm3. wal_append X r2 w2 = Inr (w3, cm3)
              \<and> take (length (frame_of b2)) (drop (unat off) (ws_file (wal_sync w3))) = frame_of b2)))"
proof (rule conjI)
  have dek: "map_option wc_dek (wal_crypto w) = Some (Dek k)" using assms(4,5) by simp
  obtain b where "dek_seal X (Dek k) off (rec_payload r) = Inr b" using append_seals [OF dek assms(6)] assms(7) by blast
  with append_writes_sealed [OF dek, of X r b] assms(6,7)
  show "\<exists>b. aead_seal X k (nonce_from_offset off) (le_bytes 8 off) (rec_payload r) = Some b
      \<and> take (length (frame_of b)) (drop (unat off) (ws_file (wal_sync w1))) = frame_of b"
    by (auto split: option.splits)
  obtain w2 where w2: "wal_open X (take n (ws_file (wal_sync w1))) [] 0 ko enc rk rn = Inr (w2, rs)"
    "ws_write_offset (wal_sync w2) = off" "map_option wc_dek (wal_crypto w2) = Some (Dek k)"
    using open_keeps_dek [OF recover_cut_last [OF assms(1-4,6) assms(8-10) [unfolded assms(7)]], of enc rk rn]
    unfolding assms(5) assms(7) [symmetric] by blast
  show "\<exists>w2. wal_open X (take n (ws_file (wal_sync w1))) [] 0 ko enc rk rn = Inr (w2, rs)
      \<and> ws_write_offset (wal_sync w2) = off \<and> map_option wc_dek (wal_crypto w2) = Some (Dek k)
      \<and> (\<forall>r2 b2. aead_seal X k (nonce_from_offset off) (le_bytes 8 off) (rec_payload r2) = Some b2 \<longrightarrow>
            (\<exists>w3 cm3. wal_append X r2 w2 = Inr (w3, cm3)
              \<and> take (length (frame_of b2)) (drop (unat off) (ws_file (wal_sync w3))) = frame_of b2))"
    using w2 append_writes_sealed [OF w2(3), of X] by (intro exI [of _ w2]) simp
qed

theorem wal_reopen_reuses_nonce_witness:
  "\<exists>w1 cm w2 w3 cm3. wal_append plain_externals sample_put sealed_wal = Inr (w1, cm)
    \<and> wal_open plain_externals (take 100 (ws_file (wal_sync w1))) [] 0 (Some (Kek (replicate 32 7))) True None None = Inr (w2, [])
    \<and> wal_append plain_externals sample_delete w2 = Inr (w3, cm3)
    \<and> (\<exists>b. aead_seal plain_externals (replicate 32 1) (nonce_from_offset 70) (le_bytes 8 (70 :: u64)) (rec_payload sample_put) = Some b
      \<and> take (length (frame_of b)) (drop 70 (ws_file (wal_sync w1))) = frame_of b)
    \<and> (\<exists>b. aead_seal plain_externals (replicate 32 1) (nonce_from_offset 70) (le_bytes 8 (70 :: u64)) (rec_payload sample_delete) = Some b
      \<and> take (length (frame_of b)) (drop 70 (ws_file (wal_sync w3))) = frame_of b)"
proof -
  have "\<exists>w1 cm. wal_append plain_externals sample_put sealed_wal = Inr (w1, cm) \<and> unat (ws_write_offset (wal_sync w1)) = 117"
    by (simp add: wal_append_unfold sealed_wal_def seal_body_def sealed_crypto_def grow_file_def Let_def plain_externals_def)
  then obtain w1 cm where w1: "wal_append plain_externals sample_put sealed_wal = Inr (w1, cm)"
    "unat (ws_write_offset (wal_sync w1)) = 117" by blast
  have w: "wal_crypto sealed_wal = Some sealed_crypto" "wc_dek sealed_crypto = Dek (replicate 32 1)"
    "(70 :: u64) = ws_write_offset (wal_sync sealed_wal)" "wal_prealloc_chunk sealed_wal = 0"
    by (simp_all add: sealed_wal_def sealed_crypto_def)
  have seals: "aead_seal plain_externals (replicate 32 1) (nonce_from_offset 70) (le_bytes 8 (70 :: u64)) (rec_payload sample_delete) =
      Some (rec_payload sample_delete @ replicate 16 0)" by (simp add: plain_externals_def)
  have "rec_ok sample_put" "unat (70 :: u64) + record_cost sample_put + unat (wal_prealloc_chunk sealed_wal) < 2 ^ 64"
    by (simp_all add: record_cost_def w(4))
  from wal_reopen_reuses_nonce [OF aead_ok_plain sealed_wal_rel this(1) w(1,2) w1(1) w(3) this(2), of 100 True None None] w1(2)
  show ?thesis using w1(1) seals by (simp del: length_frame_of) blast
qed

text \<open>
  C12: group commit makes records durable. Once \<open>sync_through\<close> has returned for the commit point of an
  appended record, with any appends and commits in between, the record and everything before it
  are replayed from every cut of the file that keeps the bytes marked as synced.
\<close>

theorem wal_synced_record_survives:
  assumes "aead_ok X" and "wal_rel X ko w rs" and "rec_ok r" and "wal_append X r w = Inr (w1, cm)"
    and "\<forall>e \<in> set es. event_ok e \<and> in_generation e" and "wal_run X es w1 = Inr w2"
    and "unat (ws_write_offset (wal_sync w)) + record_cost r + sum_list (map event_cost es)
      + unat (wal_prealloc_chunk w) < 2 ^ 64"
    and "\<not> ws_ephemeral (wal_sync w)" and "s = sync_through cm (wal_sync w2)"
    and "unat (ws_synced s) \<le> n" and "n \<le> unat (ws_write_offset s)"
  shows "\<exists>rs' g d. recover_file X (take n (ws_file s)) ko = Inr (rs @ r # rs', g, d)"
proof -
  have fits: "unat (ws_write_offset (wal_sync w)) + record_cost r + unat (wal_prealloc_chunk w) < 2 ^ 64"
    using assms(7) by linarith
  note a = append_keeps_log [OF assms(1-4) fits]
  have "unat (ws_write_offset (wal_sync w1)) + sum_list (map event_cost es) + unat (wal_prealloc_chunk w1) < 2 ^ 64"
    using a(3,5) assms(7) by simp
  then obtain rs' where w2: "wal_rel X ko w2 ((rs @ [r]) @ rs')"
    using run_in_generation_rel [OF assms(1) a(1) assms(5,6)] by blast
  have gen: "ws_generation (wal_sync w2) = cm_generation cm" "wal_crypto w2 = wal_crypto w1" "\<not> ws_ephemeral (wal_sync w2)"
    using run_in_generation [OF _ assms(6)] assms(4,5,8) a(2,6) step_in_generation [of "EvAppend r" X w w1] by auto
  let ?h = "length (header_of (wal_crypto w2))" and ?s = "wal_crypto w2 \<noteq> None"
  have r2: "crypto_ok X ko (wal_crypto w2)"
    "log_file X (wal_crypto w2) ((rs @ [r]) @ rs') (ws_file (wal_sync w2)) (unat (ws_write_offset (wal_sync w2)))"
    using w2 by (simp_all add: wal_rel_def)
  have r1: "log_file X (wal_crypto w2) (rs @ [r]) (ws_file (wal_sync w1)) (unat (ws_write_offset (wal_sync w1)))"
    using a(1) gen(2) by (simp add: wal_rel_def)
  have off1: "unat (ws_write_offset (wal_sync w1)) = last (?h # rec_ends ?s ?h (rs @ [r]))"
    using log_file_off [OF assms(1) r1] .
  have off2: "unat (ws_write_offset (wal_sync w2)) = last (?h # rec_ends ?s ?h ((rs @ [r]) @ rs'))"
    using log_file_off [OF assms(1) r2(2)] .
  have "last (?h # rec_ends ?s ?h (rs @ [r])) \<le> last (?h # rec_ends ?s ?h ((rs @ [r]) @ rs'))"
    by (rule rec_ends_le_last) (simp add: rec_ends_append [of _ _ "rs @ [r]"] del: append_assoc)
  then have "cm_offset cm \<le> ws_write_offset (wal_sync w2)" using a(2) off1 off2 by (simp add: word_le_nat_alt)
  then have n: "last (?h # rec_ends ?s ?h (rs @ [r])) \<le> n"
    using sync_through_covers [OF gen(3,1)] assms(9,10) a(2) off1 by (simp add: word_le_nat_alt)
  moreover have "?h \<le> last (?h # rec_ends ?s ?h (rs @ [r]))" by (rule rec_ends_le_last) simp
  ultimately have "recover_file X (take n (ws_file (wal_sync w2))) ko =
      Inr (complete_records ?s ?h n ((rs @ [r]) @ rs'), of_nat (complete_end ?s ?h n ((rs @ [r]) @ rs')),
        map_option wc_dek (wal_crypto w2))"
    using recover_cut [OF assms(1) r2] assms(9,11) by simp
  then show ?thesis using complete_prefix [OF n, of rs'] assms(9) by simp
qed

theorem wal_synced_record_survives_witness:
  "\<exists>w1 cm w2 rs' g d. wal_append plain_externals sample_put (plain_wal []) = Inr (w1, cm)
    \<and> wal_run plain_externals [EvAppend sample_delete] w1 = Inr w2
    \<and> recover_file plain_externals
        (take (unat (ws_synced (sync_through cm (wal_sync w2)))) (ws_file (sync_through cm (wal_sync w2)))) None
      = Inr (sample_put # rs', g, d)"
proof -
  have "\<exists>w1 cm w2. wal_append plain_externals sample_put (plain_wal []) = Inr (w1, cm)
      \<and> wal_run plain_externals [EvAppend sample_delete] w1 = Inr w2
      \<and> ws_synced (sync_through cm (wal_sync w2)) = ws_write_offset (wal_sync w2)"
    by (simp add: wal_append_unfold plain_wal_def seal_body_def grow_file_def Let_def sync_through_def)
  then obtain w1 cm w2 where w: "wal_append plain_externals sample_put (plain_wal []) = Inr (w1, cm)"
    "wal_run plain_externals [EvAppend sample_delete] w1 = Inr w2"
    "ws_synced (sync_through cm (wal_sync w2)) = ws_write_offset (wal_sync w2)" by blast
  have "wal_rel plain_externals None (plain_wal []) []" by (rule plain_wal_rel) simp_all
  from wal_synced_record_survives [OF aead_ok_plain this _ w(1) _ w(2) _ _ refl, of "unat (ws_synced (sync_through cm (wal_sync w2)))"]
  show ?thesis using w by (simp add: plain_wal_def record_cost_def)
qed

text \<open>
  C28: discarded records can come back. In a plain log whose record \<open>r\<close> was damaged in one byte, replay
  ends before \<open>r\<close> and the records behind it are discarded. They stay in the file: when the next
  append has the length of \<open>r\<close>, the following replay returns them again.
\<close>

theorem wal_discarded_records_return:
  assumes "aead_ok X" and "rs \<noteq> []" and "framed X None 0 rs bs" and "rec_ok r" and "rec_ok r'"
    and "length (rec_payload r') = length (rec_payload r)"
    and "framed X None (of_nat (length bs + length (rec_payload r) + 8)) rs3 bs3"
    and "i < length (rec_payload r)" and "b \<noteq> rec_payload r ! i" and "length bs < 2 ^ 64"
  shows "\<exists>w1 w2 cm w3.
    wal_open X (bs @ (frame_of (rec_payload r))[4 + i := b] @ bs3) [] 0 None False rk rn = Inr (w1, rs)
    \<and> wal_append X r' w1 = Inr (w2, cm)
    \<and> wal_open X (ws_file (wal_sync w2)) [] 0 None False rk rn = Inr (w3, rs @ r' # rs3)"
proof -
  let ?d = "(frame_of (rec_payload r))[4 + i := b]" and ?fr = "frame_of (rec_payload r')"
  have bs: "8 \<le> length bs" using assms(2,3) by (cases rs) (auto simp: seal_body_def)
  have magic: "read_enc_header (bs @ x) = Inr None" for x
    using plain_not_magic [OF assms(3), of 0] bs by (intro read_enc_header_not_magic) simp
  have "replay_loop X None (of_nat (length bs)) (?d @ bs3) = Inr ([], of_nat (length bs))"
    using assms(4,8,9) by (intro replay_damaged) (auto simp: rec_ok_def)
  then have "replay_loop X None 0 (bs @ ?d @ bs3) = Inr (rs, of_nat (length bs))"
    using replay_framed [OF assms(1,3), of "?d @ bs3"] by simp
  from open_plain [OF magic this, of rk rn] obtain w1 where w1:
    "wal_open X (bs @ ?d @ bs3) [] 0 None False rk rn = Inr (w1, rs)" "ws_write_offset (wal_sync w1) = of_nat (length bs)"
    "ws_file (wal_sync w1) = bs @ ?d @ bs3" "wal_crypto w1 = None" "wal_prealloc_chunk w1 = 0"
    by blast
  then obtain w2 cm where w2: "wal_append X r' w1 = Inr (w2, cm)"
    "ws_file (wal_sync w2) = write_all_at (bs @ ?d @ bs3) ?fr (length bs)"
    using append_plain [OF w1(4,5), of X r'] assms(10) by (auto simp: unat_of_nat)
  have cont: "ws_file (wal_sync w2) = bs @ ?fr @ bs3" using w2(2) assms(6) by (simp add: write_all_at_def)
  have fr: "framed X None 0 (rs @ r' # rs3) (bs @ ?fr @ bs3)"
    unfolding framed_append
    using assms(3,5-7) by (intro exI [of _ bs] exI [of _ "?fr @ bs3"]) (auto simp: seal_body_def rec_ok_def algebra_simps)
  then have "replay_loop X None 0 (bs @ ?fr @ bs3) = Inr (rs @ r' # rs3, of_nat (length (bs @ ?fr @ bs3)))"
    using replay_framed [OF assms(1) fr, of "[]"] replay_zeros [of X None _ 0] by simp
  from open_plain [OF magic this, of rk rn] show ?thesis using w1(1) w2(1) cont by auto
qed


theorem wal_discarded_records_return_witness:
  "\<exists>w1 w2 cm w3.
    wal_open plain_externals (frame_of (rec_payload sample_delete) @ (frame_of (rec_payload sample_put))[4 + 17 := 8]
      @ frame_of (rec_payload sample_delete)) [] 0 None False None None = Inr (w1, [sample_delete])
    \<and> wal_append plain_externals (sample_put\<lparr>wr_op := WalPut [3]\<rparr>) w1 = Inr (w2, cm)
    \<and> wal_open plain_externals (ws_file (wal_sync w2)) [] 0 None False None None
        = Inr (w3, [sample_delete, sample_put\<lparr>wr_op := WalPut [3]\<rparr>, sample_delete])"
proof -
  let ?r = "sample_put\<lparr>wr_op := WalPut [3]\<rparr>"
  have r: "rec_ok ?r" "length (rec_payload ?r) = length (rec_payload sample_put)"
    by (simp_all add: rec_ok_def rec_payload_def op_payload_def op_value_def sample_put_def)
  have b: "(8 :: byte) \<noteq> rec_payload sample_put ! 17"
    by (simp add: rec_payload_def op_payload_def op_value_def sample_put_def nth_append nth_Cons')
  show ?thesis
    using wal_discarded_records_return [OF aead_ok_plain, of "[sample_delete]" "frame_of (rec_payload sample_delete)"
        sample_put ?r "[sample_delete]" "frame_of (rec_payload sample_delete)" 17 8 None None]
      framed_plain [of "[sample_delete]"] r b
    by simp
qed

end
