(* ===== verification/Group_Commit.thy ===== *)
theory Group_Commit
  imports Wal
begin

text \<open>
  The group commit under concurrency (\<open>WalSync::sync_through\<close> and \<open>Wal::truncate\<close> of
  \<open>crates/skaidb-storage/src/wal.rs\<close>). Every load, store, lock and system call of the two functions
  is one step, so any number of writers interleave with each other, with appends and with a
  truncation; the atomics are sequentially consistent as the code asks for. Appends and truncations exclude each
  other, since the engine performs both under its write lock. \<open>gc_disk\<close> and \<open>gc_flushed\<close> are
  ghosts: how many bytes of the log the disk holds, and whether the logged records are durable in a
  table already, which is the precondition of a truncation.
\<close>

section \<open>State and steps\<close>

type_synonym thread = nat
type_synonym commit = "nat \<times> nat"

text \<open>The program points of a writer in \<open>sync_through\<close>, and those of the truncation.\<close>

datatype pc =
    Idle
  | Entered commit
  | Gen_Checked commit
  | Waiting commit
  | Locked commit
  | Gen_Rechecked commit
  | Stale commit
  | Loaded commit nat
  | Flushed commit nat
  | Stored commit
  | Returned commit
  | Trunc_Locked
  | Trunc_Emptied
  | Trunc_Write_Stored
  | Trunc_Synced_Stored
  | Trunc_Bumped

record gc_state =
  gc_write :: nat
  gc_synced :: nat
  gc_gen :: nat
  gc_lock :: "thread option"
  gc_pc :: "thread \<Rightarrow> pc"
  gc_disk :: nat
  gc_flushed :: bool

definition gc_init :: gc_state where
  "gc_init = \<lparr>gc_write = 0, gc_synced = 0, gc_gen = 0, gc_lock = None, gc_pc = (\<lambda>_. Idle),
     gc_disk = 0, gc_flushed = False\<rparr>"

abbreviation goto :: "gc_state \<Rightarrow> thread \<Rightarrow> pc \<Rightarrow> gc_state" where
  "goto s t p \<equiv> s\<lparr>gc_pc := (gc_pc s)(t := p)\<rparr>"

inductive gc_step :: "gc_state \<Rightarrow> gc_state \<Rightarrow> bool" where
  append: "\<not> gc_flushed s \<Longrightarrow> gc_step s (s\<lparr>gc_write := gc_write s + n\<rparr>)"
| enter: "gc_pc s t \<in> {Idle} \<union> range Returned \<Longrightarrow> fst c < gc_gen s \<or> fst c = gc_gen s \<and> snd c \<le> gc_write s \<Longrightarrow>
    gc_step s (goto s t (Entered c))"
| gen_old: "gc_pc s t = Entered c \<Longrightarrow> gc_gen s \<noteq> fst c \<Longrightarrow> gc_step s (goto s t (Returned c))"
| gen_same: "gc_pc s t = Entered c \<Longrightarrow> gc_gen s = fst c \<Longrightarrow> gc_step s (goto s t (Gen_Checked c))"
| already: "gc_pc s t = Gen_Checked c \<Longrightarrow> gc_synced s \<ge> snd c \<Longrightarrow> gc_step s (goto s t (Returned c))"
| not_yet: "gc_pc s t = Gen_Checked c \<Longrightarrow> gc_synced s < snd c \<Longrightarrow> gc_step s (goto s t (Waiting c))"
| lock: "gc_pc s t = Waiting c \<Longrightarrow> gc_lock s = None \<Longrightarrow>
    gc_step s ((goto s t (Locked c))\<lparr>gc_lock := Some t\<rparr>)"
| regen_old: "gc_pc s t = Locked c \<Longrightarrow> gc_gen s \<noteq> fst c \<Longrightarrow> gc_step s (goto s t (Stale c))"
| regen_same: "gc_pc s t = Locked c \<Longrightarrow> gc_gen s = fst c \<Longrightarrow> gc_step s (goto s t (Gen_Rechecked c))"
| realready: "gc_pc s t = Gen_Rechecked c \<Longrightarrow> gc_synced s \<ge> snd c \<Longrightarrow> gc_step s (goto s t (Stale c))"
| load: "gc_pc s t = Gen_Rechecked c \<Longrightarrow> gc_synced s < snd c \<Longrightarrow>
    gc_step s (goto s t (Loaded c (gc_write s)))"
| sync_data: "gc_pc s t = Loaded c d \<Longrightarrow>
    gc_step s ((goto s t (Flushed c d))\<lparr>gc_disk := gc_write s\<rparr>)"
| store: "gc_pc s t = Flushed c d \<Longrightarrow> gc_step s ((goto s t (Stored c))\<lparr>gc_synced := d\<rparr>)"
| unlock: "gc_pc s t \<in> {Stale c, Stored c} \<Longrightarrow> gc_step s ((goto s t (Returned c))\<lparr>gc_lock := None\<rparr>)"
| trunc_lock: "gc_pc s t = Idle \<Longrightarrow> gc_lock s = None \<Longrightarrow> \<not> gc_flushed s \<Longrightarrow>
    gc_step s ((goto s t Trunc_Locked)\<lparr>gc_lock := Some t, gc_flushed := True\<rparr>)"
| trunc_empty: "gc_pc s t = Trunc_Locked \<Longrightarrow> gc_step s ((goto s t Trunc_Emptied)\<lparr>gc_disk := 0\<rparr>)"
| trunc_write: "gc_pc s t = Trunc_Emptied \<Longrightarrow> gc_step s ((goto s t Trunc_Write_Stored)\<lparr>gc_write := 0\<rparr>)"
| trunc_synced: "gc_pc s t = Trunc_Write_Stored \<Longrightarrow> gc_step s ((goto s t Trunc_Synced_Stored)\<lparr>gc_synced := 0\<rparr>)"
| trunc_bump: "gc_pc s t = Trunc_Synced_Stored \<Longrightarrow>
    gc_step s ((goto s t Trunc_Bumped)\<lparr>gc_gen := gc_gen s + 1, gc_flushed := False\<rparr>)"
| trunc_unlock: "gc_pc s t = Trunc_Bumped \<Longrightarrow> gc_step s ((goto s t Idle)\<lparr>gc_lock := None\<rparr>)"

inductive_cases gc_stepE: "gc_step s s'"

abbreviation gc_reachable :: "gc_state \<Rightarrow> bool" where
  "gc_reachable s \<equiv> gc_step\<^sup>*\<^sup>* gc_init s"

section \<open>Invariant\<close>

definition durable :: "gc_state \<Rightarrow> commit \<Rightarrow> bool" where
  "durable s c \<longleftrightarrow> fst c < gc_gen s \<or> fst c = gc_gen s \<and> (gc_flushed s \<or> snd c \<le> gc_disk s)"

definition issued :: "gc_state \<Rightarrow> commit \<Rightarrow> bool" where
  "issued s c \<longleftrightarrow> fst c < gc_gen s \<or> fst c = gc_gen s \<and> (gc_flushed s \<or> snd c \<le> gc_write s)"

definition holds_lock :: "pc \<Rightarrow> bool" where
  "holds_lock p \<longleftrightarrow> (case p of
     Idle \<Rightarrow> False | Entered _ \<Rightarrow> False | Gen_Checked _ \<Rightarrow> False | Waiting _ \<Rightarrow> False | Returned _ \<Rightarrow> False
   | _ \<Rightarrow> True)"

definition truncating :: "pc \<Rightarrow> bool" where
  "truncating p \<longleftrightarrow> p \<in> {Trunc_Locked, Trunc_Emptied, Trunc_Write_Stored, Trunc_Synced_Stored}"

text \<open>What each program point knows.\<close>

fun pc_ok :: "gc_state \<Rightarrow> pc \<Rightarrow> bool" where
  "pc_ok s (Entered c) \<longleftrightarrow> issued s c"
| "pc_ok s (Gen_Checked c) \<longleftrightarrow> issued s c"
| "pc_ok s (Waiting c) \<longleftrightarrow> issued s c"
| "pc_ok s (Locked c) \<longleftrightarrow> issued s c"
| "pc_ok s (Gen_Rechecked c) \<longleftrightarrow> issued s c \<and> fst c = gc_gen s"
| "pc_ok s (Stale c) \<longleftrightarrow> durable s c"
| "pc_ok s (Loaded c d) \<longleftrightarrow> issued s c \<and> snd c \<le> d \<and> d \<le> gc_write s \<and> fst c = gc_gen s"
| "pc_ok s (Flushed c d) \<longleftrightarrow> durable s c \<and> d \<le> gc_disk s"
| "pc_ok s (Stored c) \<longleftrightarrow> durable s c"
| "pc_ok s (Returned c) \<longleftrightarrow> durable s c"
| "pc_ok s Trunc_Emptied \<longleftrightarrow> gc_disk s = 0"
| "pc_ok s Trunc_Write_Stored \<longleftrightarrow> gc_disk s = 0 \<and> gc_write s = 0"
| "pc_ok s Trunc_Synced_Stored \<longleftrightarrow> gc_disk s = 0 \<and> gc_write s = 0 \<and> gc_synced s = 0"
| "pc_ok s _ \<longleftrightarrow> True"

definition gc_inv :: "gc_state \<Rightarrow> bool" where
  "gc_inv s \<longleftrightarrow>
     (\<forall>t. pc_ok s (gc_pc s t)) \<and>
     (\<forall>t. holds_lock (gc_pc s t) \<longleftrightarrow> gc_lock s = Some t) \<and>
     (gc_flushed s \<longleftrightarrow> (\<exists>t. truncating (gc_pc s t))) \<and>
     (\<not> gc_flushed s \<longrightarrow> gc_synced s \<le> gc_disk s \<and> gc_disk s \<le> gc_write s)"

lemma pc_ok_cong:
  "gc_write s' = gc_write s \<Longrightarrow> gc_synced s' = gc_synced s \<Longrightarrow> gc_gen s' = gc_gen s \<Longrightarrow>
   gc_disk s' = gc_disk s \<Longrightarrow> gc_flushed s' = gc_flushed s \<Longrightarrow> pc_ok s' p = pc_ok s p"
  by (cases p) (simp_all add: durable_def issued_def)

lemma not_truncating_lock: "truncating p \<Longrightarrow> holds_lock p"
  by (auto simp: truncating_def holds_lock_def)

text \<open>A step of one thread that leaves the shared variables alone.\<close>

lemma gc_inv_goto:
  assumes "gc_inv s" "pc_ok s p" "holds_lock p = holds_lock (gc_pc s t)" "truncating p = truncating (gc_pc s t)"
  shows "gc_inv (goto s t p)"
proof -
  have "pc_ok (goto s t p) q = pc_ok s q" for q by (rule pc_ok_cong) simp_all
  moreover have "(\<exists>t'. truncating (((gc_pc s)(t := p)) t')) = (\<exists>t'. truncating (gc_pc s t'))"
    using assms(4) by (metis fun_upd_apply)
  ultimately show ?thesis using assms unfolding gc_inv_def by (simp del: fun_upd_apply) (simp add: fun_upd_apply)
qed

lemma gc_inv_lock:
  assumes "gc_inv s" "pc_ok s p" "\<not> holds_lock (gc_pc s t)" "holds_lock p" "\<not> truncating p" "gc_lock s = None"
  shows "gc_inv ((goto s t p)\<lparr>gc_lock := Some t\<rparr>)"
proof -
  have "pc_ok ((goto s t p)\<lparr>gc_lock := Some t\<rparr>) q = pc_ok s q" for q by (rule pc_ok_cong) simp_all
  moreover have "\<not> holds_lock (gc_pc s t')" for t' using assms(1,6) by (simp add: gc_inv_def)
  moreover from this have "\<not> truncating (gc_pc s t')" for t' using not_truncating_lock by blast
  ultimately show ?thesis using assms unfolding gc_inv_def by simp
qed

lemma gc_inv_unlock:
  assumes "gc_inv s" "pc_ok s p" "holds_lock (gc_pc s t)" "\<not> truncating (gc_pc s t)" "\<not> holds_lock p"
  shows "gc_inv ((goto s t p)\<lparr>gc_lock := None\<rparr>)"
proof -
  have "pc_ok ((goto s t p)\<lparr>gc_lock := None\<rparr>) q = pc_ok s q" for q by (rule pc_ok_cong) simp_all
  moreover have l: "holds_lock (gc_pc s t') \<longleftrightarrow> t' = t" for t' using assms(1,3) by (auto simp: gc_inv_def)
  moreover from this have "\<not> truncating (gc_pc s t')" for t' using not_truncating_lock assms(4) by metis
  moreover have "\<not> truncating p" using not_truncating_lock assms(5) by blast
  ultimately show ?thesis using assms unfolding gc_inv_def by simp
qed

text \<open>A step of the lock holder that changes shared variables: the others hold no lock.\<close>

lemma gc_inv_holder:
  assumes inv: "gc_inv s" and l: "holds_lock (gc_pc s t)" "holds_lock p" "gc_lock s' = gc_lock s" "gc_pc s' = (gc_pc s)(t := p)"
    and p: "pc_ok s' p" "truncating p \<longleftrightarrow> gc_flushed s'" 
    and dur: "\<And>c. durable s c \<Longrightarrow> durable s' c" "\<And>c. issued s c \<Longrightarrow> issued s' c"
    and sh: "\<not> gc_flushed s' \<Longrightarrow> gc_synced s' \<le> gc_disk s' \<and> gc_disk s' \<le> gc_write s'"
  shows "gc_inv s'"
proof -
  have lk: "holds_lock (gc_pc s t') \<longleftrightarrow> t' = t" for t' using inv l(1) by (auto simp: gc_inv_def)
  have "pc_ok s' (gc_pc s t')" if "t' \<noteq> t" for t'
  proof -
    have "\<not> holds_lock (gc_pc s t')" "pc_ok s (gc_pc s t')" using lk that inv by (auto simp: gc_inv_def)
    then show ?thesis using dur by (cases "gc_pc s t'") (simp_all add: holds_lock_def)
  qed
  moreover have "\<not> truncating (gc_pc s t')" if "t' \<noteq> t" for t' using lk that not_truncating_lock by blast
  ultimately show ?thesis using inv l p sh lk unfolding gc_inv_def by auto
qed

lemma holder_unflushed:
  assumes "gc_inv s" "holds_lock (gc_pc s t)" "\<not> truncating (gc_pc s t)"
  shows "\<not> gc_flushed s" "gc_synced s \<le> gc_disk s" "gc_disk s \<le> gc_write s"
proof -
  have "\<not> truncating (gc_pc s t')" for t'
    using assms not_truncating_lock unfolding gc_inv_def by (metis option.inject)
  then show "\<not> gc_flushed s" using assms(1) by (simp add: gc_inv_def)
  then show "gc_synced s \<le> gc_disk s" "gc_disk s \<le> gc_write s" using assms(1) by (auto simp: gc_inv_def)
qed

lemma pc_ok_at: "gc_inv s \<Longrightarrow> gc_pc s t = p \<Longrightarrow> pc_ok s p"
  by (auto simp: gc_inv_def)

lemma truncating_flushed: "gc_inv s \<Longrightarrow> truncating (gc_pc s t) \<Longrightarrow> gc_flushed s"
  by (auto simp: gc_inv_def)

lemma gc_inv_step:
  assumes "gc_step s s'" "gc_inv s"
  shows "gc_inv s'"
  using assms
proof (induction rule: gc_step.induct)
  case (append s n)
  let ?s = "s\<lparr>gc_write := gc_write s + n\<rparr>"
  have "\<not> truncating (gc_pc s t)" for t using append by (auto simp: gc_inv_def)
  then have "pc_ok ?s (gc_pc s t)" for t
    using pc_ok_at [OF append(2), of t] by (cases "gc_pc s t") (auto simp: durable_def issued_def truncating_def)
  then show ?case using append by (auto simp: gc_inv_def)
next
  case (enter s t c)
  then show ?case by (intro gc_inv_goto) (auto simp: issued_def holds_lock_def truncating_def)
next
  case (gen_old s t c)
  then show ?case
    using pc_ok_at [OF gen_old(3,1)] by (intro gc_inv_goto) (auto simp: issued_def durable_def holds_lock_def truncating_def)
next
  case (gen_same s t c)
  then show ?case
    using pc_ok_at [OF gen_same(3,1)] by (intro gc_inv_goto) (auto simp: holds_lock_def truncating_def)
next
  case (already s t c)
  then show ?case
    using pc_ok_at [OF already(3,1)]
    by (intro gc_inv_goto) (auto simp: issued_def durable_def holds_lock_def truncating_def gc_inv_def)
next
  case (not_yet s t c)
  then show ?case
    using pc_ok_at [OF not_yet(3,1)] by (intro gc_inv_goto) (auto simp: holds_lock_def truncating_def)
next
  case (lock s t c)
  then show ?case
    using pc_ok_at [OF lock(3,1)] by (intro gc_inv_lock) (auto simp: holds_lock_def truncating_def)
next
  case (regen_old s t c)
  then show ?case
    using pc_ok_at [OF regen_old(3,1)] by (intro gc_inv_goto) (auto simp: issued_def durable_def holds_lock_def truncating_def)
next
  case (regen_same s t c)
  then show ?case
    using pc_ok_at [OF regen_same(3,1)] by (intro gc_inv_goto) (auto simp: holds_lock_def truncating_def)
next
  case (realready s t c)
  then show ?case
    using pc_ok_at [OF realready(3,1)] holder_unflushed [OF realready(3), of t]
    by (intro gc_inv_goto) (auto simp: issued_def durable_def holds_lock_def truncating_def)
next
  case (load s t c)
  then show ?case
    using pc_ok_at [OF load(3,1)] holder_unflushed [OF load(3), of t]
    by (intro gc_inv_goto) (auto simp: issued_def holds_lock_def truncating_def)
next
  case (sync_data s t c d)
  then show ?case
    using pc_ok_at [OF sync_data(2,1)] holder_unflushed [OF sync_data(2), of t]
    by (intro gc_inv_holder [OF sync_data(2), of t "Flushed c d"]) (auto simp: issued_def durable_def holds_lock_def truncating_def)
next
  case (store s t c d)
  then show ?case
    using pc_ok_at [OF store(2,1)] holder_unflushed [OF store(2), of t]
    by (intro gc_inv_holder [OF store(2), of t "Stored c"]) (auto simp: issued_def durable_def holds_lock_def truncating_def)
next
  case (unlock s t c)
  then show ?case
    using pc_ok_at [OF unlock(2), of t] by (intro gc_inv_unlock) (auto simp: holds_lock_def truncating_def)
next
  case (trunc_lock s t)
  let ?s = "(goto s t Trunc_Locked)\<lparr>gc_lock := Some t, gc_flushed := True\<rparr>"
  have nl: "\<not> holds_lock (gc_pc s t')" for t' using trunc_lock by (simp add: gc_inv_def)
  have "pc_ok ?s (gc_pc s t')" for t'
    using pc_ok_at [OF trunc_lock(4), of t'] nl [of t']
    by (cases "gc_pc s t'") (auto simp: durable_def issued_def holds_lock_def)
  then show ?case
    using nl trunc_lock(4) by (auto simp: gc_inv_def truncating_def holds_lock_def)
next
  case (trunc_empty s t)
  then show ?case
    using truncating_flushed [OF trunc_empty(2), of t]
    by (intro gc_inv_holder [OF trunc_empty(2), of t Trunc_Emptied]) (auto simp: issued_def durable_def holds_lock_def truncating_def)
next
  case (trunc_write s t)
  then show ?case
    using truncating_flushed [OF trunc_write(2), of t] pc_ok_at [OF trunc_write(2,1)]
    by (intro gc_inv_holder [OF trunc_write(2), of t Trunc_Write_Stored]) (auto simp: issued_def durable_def holds_lock_def truncating_def)
next
  case (trunc_synced s t)
  then show ?case
    using truncating_flushed [OF trunc_synced(2), of t] pc_ok_at [OF trunc_synced(2,1)]
    by (intro gc_inv_holder [OF trunc_synced(2), of t Trunc_Synced_Stored]) (auto simp: issued_def durable_def holds_lock_def truncating_def)
next
  case (trunc_bump s t)
  then show ?case
    using truncating_flushed [OF trunc_bump(2), of t] pc_ok_at [OF trunc_bump(2,1)]
    by (intro gc_inv_holder [OF trunc_bump(2), of t Trunc_Bumped]) (auto simp: issued_def durable_def holds_lock_def truncating_def)
next
  case (trunc_unlock s t)
  then show ?case by (intro gc_inv_unlock) (auto simp: holds_lock_def truncating_def)
qed


lemma gc_inv_init: "gc_inv gc_init"
  by (simp add: gc_inv_def gc_init_def holds_lock_def truncating_def)

lemma gc_inv_reachable: "gc_reachable s \<Longrightarrow> gc_inv s"
  by (induction rule: rtranclp_induct) (auto simp: gc_inv_init gc_inv_step)

text \<open>Every program point but \<open>Waiting\<close> has a step of its own.\<close>

lemma own_step:
  assumes "gc_pc s t \<notin> {Idle} \<union> range Returned \<union> range Waiting"
  shows "\<exists>s'. gc_step s s' \<and> gc_pc s' t \<noteq> gc_pc s t"
proof (cases "gc_pc s t")
  case (Entered c)
  then show ?thesis
    using gen_old [of s t c] gen_same [of s t c]
    by (cases "gc_gen s = fst c") (fastforce intro!: exI [of _ "goto s t _"])+
next
  case (Gen_Checked c)
  then show ?thesis
    using already [of s t c] not_yet [of s t c] by (cases "snd c \<le> gc_synced s") (fastforce intro!: exI [of _ "goto s t _"])+
next
  case (Locked c)
  then show ?thesis
    using regen_old [of s t c] regen_same [of s t c]
    by (cases "gc_gen s = fst c") (fastforce intro!: exI [of _ "goto s t _"])+
next
  case (Gen_Rechecked c)
  then show ?thesis
    using realready [of s t c] load [of s t c] by (cases "snd c \<le> gc_synced s") (fastforce intro!: exI [of _ "goto s t _"])+
next
  case (Loaded c d)
  then show ?thesis using sync_data [of s t c d] by (intro exI conjI) (assumption | simp)+
next
  case (Flushed c d)
  then show ?thesis using store [of s t c d] by (intro exI conjI) (assumption | simp)+
next
  case (Stale c)
  then show ?thesis using unlock [of s t c] by (intro exI [of _ "(goto s t (Returned c))\<lparr>gc_lock := None\<rparr>"]) simp
next
  case (Stored c)
  then show ?thesis using unlock [of s t c] by (intro exI [of _ "(goto s t (Returned c))\<lparr>gc_lock := None\<rparr>"]) simp
next
  case Trunc_Locked
  then show ?thesis using trunc_empty [of s t] by (intro exI conjI) (assumption | simp)+
next
  case Trunc_Emptied
  then show ?thesis using trunc_write [of s t] by (intro exI conjI) (assumption | simp)+
next
  case Trunc_Write_Stored
  then show ?thesis using trunc_synced [of s t] by (intro exI conjI) (assumption | simp)+
next
  case Trunc_Synced_Stored
  then show ?thesis using trunc_bump [of s t] by (intro exI conjI) (assumption | simp)+
next
  case Trunc_Bumped
  then show ?thesis using trunc_unlock [of s t] by (intro exI conjI) (assumption | simp)+
qed (use assms in auto)

section \<open>Properties\<close>

text \<open>
  C6: whenever \<open>sync_through\<close> has returned for a commit point, in any interleaving of writers, appends
  and truncations, the record is durable: its bytes are on the disk, or the log was truncated
  because the record is in a table. It stays so in every state reached later.
\<close>

theorem group_commit_durable:
  assumes "gc_reachable s" and "gc_pc s t = Returned c"
  shows "durable s c"
  using pc_ok_at [OF gc_inv_reachable [OF assms(1)] assms(2)] by simp

text \<open>One writer commits the ten bytes it appended.\<close>

definition gc_sample :: "nat \<Rightarrow> gc_state" where
  "gc_sample n = fold (\<lambda>f s. f s) (take n
     [\<lambda>s. s\<lparr>gc_write := gc_write s + 10\<rparr>,
      \<lambda>s. goto s 0 (Entered (0, 10)), \<lambda>s. goto s 0 (Gen_Checked (0, 10)), \<lambda>s. goto s 0 (Waiting (0, 10)),
      \<lambda>s. (goto s 0 (Locked (0, 10)))\<lparr>gc_lock := Some 0\<rparr>, \<lambda>s. goto s 0 (Gen_Rechecked (0, 10)),
      \<lambda>s. goto s 0 (Loaded (0, 10) 10), \<lambda>s. (goto s 0 (Flushed (0, 10) 10))\<lparr>gc_disk := gc_write s\<rparr>,
      \<lambda>s. (goto s 0 (Stored (0, 10)))\<lparr>gc_synced := 10\<rparr>,
      \<lambda>s. (goto s 0 (Returned (0, 10)))\<lparr>gc_lock := None\<rparr>]) gc_init"

lemma gc_sample_reachable: "gc_reachable (gc_sample 4)" "gc_reachable (gc_sample 10)"
proof -
  note defs = gc_sample_def gc_init_def
  have s0: "gc_step (gc_sample 0) (gc_sample 1)"
    using append [of "gc_sample 0" 10] by (simp add: defs)
  have s1: "gc_step (gc_sample 1) (gc_sample 2)"
    using enter [of "gc_sample 1" 0 "(0, 10)"] by (simp add: defs)
  have s2: "gc_step (gc_sample 2) (gc_sample 3)"
    using gen_same [of "gc_sample 2" 0 "(0, 10)"] by (simp add: defs)
  have s3: "gc_step (gc_sample 3) (gc_sample 4)"
    using not_yet [of "gc_sample 3" 0 "(0, 10)"] by (simp add: defs)
  have s4: "gc_step (gc_sample 4) (gc_sample 5)"
    using lock [of "gc_sample 4" 0 "(0, 10)"] by (simp add: defs)
  have s5: "gc_step (gc_sample 5) (gc_sample 6)"
    using regen_same [of "gc_sample 5" 0 "(0, 10)"] by (simp add: defs)
  have s6: "gc_step (gc_sample 6) (gc_sample 7)"
    using load [of "gc_sample 6" 0 "(0, 10)"] by (simp add: defs)
  have s7: "gc_step (gc_sample 7) (gc_sample 8)"
    using sync_data [of "gc_sample 7" 0 "(0, 10)" 10] by (simp add: defs)
  have s8: "gc_step (gc_sample 8) (gc_sample 9)"
    using store [of "gc_sample 8" 0 "(0, 10)" 10] by (simp add: defs)
  have s9: "gc_step (gc_sample 9) (gc_sample 10)"
    using unlock [of "gc_sample 9" 0 "(0, 10)"] by (simp add: defs)
  have "gc_reachable (gc_sample 0)" by (simp add: gc_sample_def)
  then show r: "gc_reachable (gc_sample 4)"
    using s0 s1 s2 s3 by (meson rtranclp.rtrancl_into_rtrancl)
  show "gc_reachable (gc_sample 10)"
    using r s4 s5 s6 s7 s8 s9 by (meson rtranclp.rtrancl_into_rtrancl)
qed

theorem group_commit_durable_witness: "durable (gc_sample 10) (0, 10)"
  by (rule group_commit_durable [OF gc_sample_reachable(2), of 0]) (simp add: gc_sample_def)

text \<open>
  C29: the group commit does not block. In every reachable state, a writer or truncation that has not
  finished can take its next step, or it waits for the lock and the holder of the lock can take its.
\<close>

theorem group_commit_progress:
  assumes "gc_reachable s" and "gc_pc s t \<noteq> Idle" and "\<forall>c. gc_pc s t \<noteq> Returned c"
  shows "(\<exists>s'. gc_step s s' \<and> gc_pc s' t \<noteq> gc_pc s t)
    \<or> (\<exists>t' s'. gc_lock s = Some t' \<and> gc_step s s' \<and> gc_pc s' t' \<noteq> gc_pc s t')"
proof (cases "gc_pc s t \<in> range Waiting")
  case False
  then have "gc_pc s t \<notin> {Idle} \<union> range Returned \<union> range Waiting" using assms(2,3) by blast
  then show ?thesis using own_step [of s t] by blast
next
  case True
  then obtain c where c: "gc_pc s t = Waiting c" by blast
  show ?thesis
  proof (cases "gc_lock s")
    case None
    have "gc_step s ((goto s t (Locked c))\<lparr>gc_lock := Some t\<rparr>)" using c None by (rule lock)
    then show ?thesis using c by (intro disjI1 exI [of _ "(goto s t (Locked c))\<lparr>gc_lock := Some t\<rparr>"]) simp
  next
    case (Some t')
    then have "holds_lock (gc_pc s t')" using gc_inv_reachable [OF assms(1)] by (simp add: gc_inv_def)
    then have "gc_pc s t' \<notin> {Idle} \<union> range Returned \<union> range Waiting" by (auto simp: holds_lock_def)
    then show ?thesis using own_step [of s t'] Some by blast
  qed
qed

theorem group_commit_progress_witness:
  "(\<exists>s'. gc_step (gc_sample 4) s' \<and> gc_pc s' 0 \<noteq> gc_pc (gc_sample 4) 0)
    \<or> (\<exists>t' s'. gc_lock (gc_sample 4) = Some t' \<and> gc_step (gc_sample 4) s' \<and> gc_pc s' t' \<noteq> gc_pc (gc_sample 4) t')"
  by (rule group_commit_progress [OF gc_sample_reachable(1)]) (simp_all add: gc_sample_def)

end
