(* ===== verification/Manifest.thy ===== *)
theory Manifest
  imports Storage_Base
begin

text \<open>
  The text of the engine's manifest (\<open>persist_manifest\<close> and \<open>load_manifest\<close> in
  \<open>crates/skaidb-storage/src/engine.rs\<close>): one line \<open>level name\<close> per table, and table file names made
  of a sequence number. The model covers ASCII text, which is all the engine writes. The lemmas show
  that the printed lines parse to what was printed.
\<close>

section \<open>Numbers and words of the standard library\<close>

definition digit_char :: "nat \<Rightarrow> char" where
  "digit_char d = char_of (48 + d)"

definition char_digit :: "char \<Rightarrow> nat option" where
  "char_digit c = (let n = (of_char c :: nat) in if 48 \<le> n \<and> n \<le> 57 then Some (n - 48) else None)"

text \<open>\<open>format!("{n}")\<close> and \<open>format!("{n:020}")\<close> of an unsigned number.\<close>

fun show_nat :: "nat \<Rightarrow> string" where
  "show_nat n = (if n < 10 then [digit_char n] else show_nat (n div 10) @ [digit_char (n mod 10)])"

declare show_nat.simps [simp del]

definition pad_zeros :: "nat \<Rightarrow> string \<Rightarrow> string" where
  "pad_zeros width s = replicate (width - length s) CHR ''0'' @ s"

text \<open>\<open>parse\<close> at an unsigned type of \<open>bound\<close> values: an optional plus sign and at least one digit.\<close>

fun read_digits :: "nat \<Rightarrow> string \<Rightarrow> nat option" where
  "read_digits acc [] = Some acc"
| "read_digits acc (c # cs) =
     (case char_digit c of Some d \<Rightarrow> read_digits (10 * acc + d) cs | None \<Rightarrow> None)"

definition strip_plus :: "string \<Rightarrow> string" where
  "strip_plus s = (if s \<noteq> [] \<and> hd s = CHR ''+'' then tl s else s)"

definition parse_unsigned :: "nat \<Rightarrow> string \<Rightarrow> nat option" where
  "parse_unsigned bound s =
     (let ds = strip_plus s
      in if ds = [] then None
         else case read_digits 0 ds of
                Some n \<Rightarrow> if n < bound then Some n else None
              | None \<Rightarrow> None)"

text \<open>\<open>str::lines\<close> and \<open>str::split_whitespace\<close>; \<open>cur\<close> is the reversed piece under construction.\<close>

abbreviation newline :: char where "newline \<equiv> CHR 0x0A"

definition strip_cr :: "string \<Rightarrow> string" where
  "strip_cr l = (if l \<noteq> [] \<and> last l = CHR 0x0D then butlast l else l)"

fun str_lines :: "string \<Rightarrow> string \<Rightarrow> string list" where
  "str_lines cur [] = (if cur = [] then [] else [rev cur])"
| "str_lines cur (c # cs) =
     (if c = newline then strip_cr (rev cur) # str_lines [] cs else str_lines (c # cur) cs)"

definition is_space :: "char \<Rightarrow> bool" where
  "is_space c \<longleftrightarrow> c \<in> {CHR 0x09, CHR 0x0A, CHR 0x0B, CHR 0x0C, CHR 0x0D, CHR 0x20}"

fun split_whitespace :: "string \<Rightarrow> string \<Rightarrow> string list" where
  "split_whitespace cur [] = (if cur = [] then [] else [rev cur])"
| "split_whitespace cur (c # cs) =
     (if is_space c
      then (if cur = [] then split_whitespace [] cs else rev cur # split_whitespace [] cs)
      else split_whitespace (c # cur) cs)"

definition strip_suffix :: "string \<Rightarrow> string \<Rightarrow> string option" where
  "strip_suffix suffix s =
     (if length suffix \<le> length s \<and> drop (length s - length suffix) s = suffix
      then Some (take (length s - length suffix) s) else None)"

section \<open>Table names and manifest lines\<close>

text \<open>The file name that \<open>next_table_path\<close> gives the table with a sequence number.\<close>

definition table_name :: "u64 \<Rightarrow> string" where
  "table_name seq = pad_zeros 20 (show_nat (unat seq)) @ ''.sst''"

definition table_seq :: "string \<Rightarrow> u64 option" where
  "table_seq name =
     Option.bind (strip_suffix ''.sst'' name) (\<lambda>s. map_option of_nat (parse_unsigned usize_bound s))"

definition manifest_line :: "nat \<times> string \<Rightarrow> string" where
  "manifest_line ln = show_nat (fst ln) @ '' '' @ snd ln @ [newline]"

text \<open>The loops of \<open>persist_manifest\<close> over the names of the tables of level 0 and of the deeper levels.\<close>

definition manifest_text :: "string list \<Rightarrow> string list \<Rightarrow> string" where
  "manifest_text l0 levels =
     concat (map (\<lambda>n. manifest_line (0, n)) l0) @
     concat (map manifest_line (enumerate 1 levels))"

text \<open>
  One line of \<open>load_manifest\<close>: skipped when it has fewer than two words, rejected when the level is
  not a number.
\<close>

definition parse_line :: "string \<Rightarrow> storage_error + (nat \<times> string) option" where
  "parse_line line =
     (case split_whitespace [] line of
        level # name # _ \<Rightarrow>
          (case parse_unsigned usize_bound level of
             Some n \<Rightarrow> Inr (Some (n, name))
           | None \<Rightarrow> Inl (Corruption 0 ''bad manifest level''))
      | _ \<Rightarrow> Inr None)"

fun parse_lines :: "string list \<Rightarrow> storage_error + (nat \<times> string) list" where
  "parse_lines [] = Inr []"
| "parse_lines (l # ls) =
     rbind (parse_line l) (\<lambda>x. rbind (parse_lines ls) (\<lambda>xs.
     Inr (case x of Some y \<Rightarrow> y # xs | None \<Rightarrow> xs)))"

section \<open>Round trips\<close>

lemma char_digit_char: "d < 10 \<Longrightarrow> char_digit (digit_char d) = Some d"
  by (simp add: char_digit_def digit_char_def)

lemma digit_char_neq: "d < 10 \<Longrightarrow> digit_char d \<noteq> CHR ''+'' \<and> \<not> is_space (digit_char d)"
proof -
  assume "d < 10"
  then have "of_char (digit_char d) = 48 + d" by (simp add: digit_char_def)
  with \<open>d < 10\<close> show ?thesis by (auto simp: is_space_def)
qed

lemma read_digits_append:
  "read_digits a (xs @ ys) = Option.bind (read_digits a xs) (\<lambda>b. read_digits b ys)"
  by (induction xs arbitrary: a) (auto split: option.splits)

lemma read_show_nat: "read_digits 0 (show_nat n) = Some n"
proof (induction n rule: show_nat.induct)
  case (1 n)
  then show ?case by (subst show_nat.simps) (simp add: read_digits_append char_digit_char)
qed

lemma show_nat_digits: "set (show_nat n) \<subseteq> digit_char ` {..<10}"
proof (induction n rule: show_nat.induct)
  case (1 n)
  then show ?case by (subst show_nat.simps) auto
qed

lemma show_nat_plain:
  assumes "c \<in> set (show_nat n)"
  shows "c \<noteq> CHR ''+''" "\<not> is_space c"
proof -
  obtain d where "d < 10" "c = digit_char d" using show_nat_digits [of n] assms by blast
  then show "c \<noteq> CHR ''+''" "\<not> is_space c" using digit_char_neq [of d] by simp_all
qed

lemma show_nat_nonempty [simp]: "show_nat n \<noteq> []"
  by (subst show_nat.simps) simp

lemma read_digits_zeros: "read_digits 0 (replicate k CHR ''0'' @ s) = read_digits 0 s"
  by (induction k) (simp_all add: char_digit_def)

lemma parse_digits:
  assumes "s \<noteq> []" "hd s \<noteq> CHR ''+''" "read_digits 0 s = Some n" "n < bound"
  shows "parse_unsigned bound s = Some n"
  using assms by (simp add: parse_unsigned_def strip_plus_def)

lemma parse_show_nat: "n < bound \<Longrightarrow> parse_unsigned bound (show_nat n) = Some n"
  using show_nat_plain(1) [of "hd (show_nat n)" n] by (intro parse_digits) (simp_all add: read_show_nat)

lemma table_seq_name: "table_seq (table_name seq) = Some seq"
proof -
  let ?s = "pad_zeros 20 (show_nat (unat seq))"
  have "hd ?s \<noteq> CHR ''+''"
    using show_nat_plain(1) [of "hd (show_nat (unat seq))" "unat seq"]
    by (cases "20 - length (show_nat (unat seq))") (auto simp: pad_zeros_def)
  then have "parse_unsigned usize_bound ?s = Some (unat seq)"
    using unsigned_less [where ?'a = nat, of seq]
    by (intro parse_digits) (auto simp: pad_zeros_def read_digits_zeros read_show_nat)
  then show ?thesis by (simp add: table_seq_def table_name_def strip_suffix_def)
qed

text \<open>A name that survives the split into words.\<close>

definition name_ok :: "string \<Rightarrow> bool" where
  "name_ok n \<longleftrightarrow> n \<noteq> [] \<and> (\<forall>c \<in> set n. \<not> is_space c)"

lemma table_name_ok: "name_ok (table_name seq)"
  using show_nat_plain(2) by (auto simp: name_ok_def table_name_def pad_zeros_def is_space_def)

lemma name_ok_show_nat: "name_ok (show_nat n)"
  using show_nat_plain(2) by (auto simp: name_ok_def)

lemma split_whitespace_word:
  "\<forall>c \<in> set w. \<not> is_space c \<Longrightarrow> split_whitespace cur (w @ rest) = split_whitespace (rev w @ cur) rest"
  by (induction w arbitrary: cur) auto

lemma split_whitespace_words:
  assumes "name_ok a" "name_ok b"
  shows "split_whitespace [] (a @ '' '' @ b) = [a, b]"
  using assms split_whitespace_word [of a "[]" "'' '' @ b"] split_whitespace_word [of b "[]" "[]"]
  by (simp add: name_ok_def is_space_def)

lemma str_lines_line:
  assumes "\<forall>c \<in> set l. \<not> is_space c \<or> c = CHR 0x20"
  shows "str_lines cur (l @ newline # rest) = strip_cr (rev cur @ l) # str_lines [] rest"
  using assms by (induction l arbitrary: cur) (auto simp: is_space_def)

lemma strip_cr_id:
  assumes "\<forall>c \<in> set l. \<not> is_space c \<or> c = CHR 0x20"
  shows "strip_cr l = l"
proof -
  have "last l \<noteq> CHR 0x0D" if "l \<noteq> []"
    using bspec [OF assms last_in_set [OF that]] by (auto simp: is_space_def)
  then show ?thesis unfolding strip_cr_def by (cases "l = []") simp_all
qed

lemma parse_manifest_lines:
  assumes "\<forall>(lvl, n) \<in> set ls. lvl < usize_bound \<and> name_ok n"
  shows "parse_lines (str_lines [] (concat (map manifest_line ls))) = Inr ls"
  using assms
proof (induction ls)
  case (Cons ln ls)
  obtain lvl n where ln: "ln = (lvl, n)" by (cases ln)
  let ?l = "show_nat lvl @ '' '' @ n"
  have ok: "name_ok (show_nat lvl)" "name_ok n" "lvl < usize_bound"
    using Cons.prems ln name_ok_show_nat by auto
  then have sp: "\<forall>c \<in> set ?l. \<not> is_space c \<or> c = CHR 0x20" by (auto simp: name_ok_def)
  have "str_lines [] (concat (map manifest_line (ln # ls))) = ?l # str_lines [] (concat (map manifest_line ls))"
    using str_lines_line [OF sp, of "[]"] strip_cr_id [OF sp] by (simp add: manifest_line_def ln)
  moreover have "parse_line ?l = Inr (Some (lvl, n))"
    using split_whitespace_words [OF ok(1,2)] parse_show_nat [OF ok(3)] by (simp add: parse_line_def)
  ultimately show ?case using Cons.IH Cons.prems ln by simp
qed simp

lemma manifest_text_lines: "manifest_text l0 levels = concat (map manifest_line (map (Pair 0) l0 @ enumerate 1 levels))"
  by (simp add: manifest_text_def comp_def)

lemma parse_manifest_text:
  assumes "\<forall>n \<in> set (l0 @ levels). name_ok n" "length levels < usize_bound - 1"
  shows "parse_lines (str_lines [] (manifest_text l0 levels)) = Inr (map (Pair 0) l0 @ enumerate 1 levels)"
  using assms unfolding manifest_text_lines
  by (intro parse_manifest_lines) (auto simp: in_set_enumerate_eq dest: nth_mem)

section \<open>Properties\<close>

text \<open>
  C33: the manifest written for any set of table files parses back to exactly their names and
  levels, in the order they were written, and every file name the engine makes gives its sequence
  number back.
\<close>

theorem manifest_round_trip:
  assumes "\<forall>n \<in> set (l0 @ levels). \<exists>seq. n = table_name seq" "length levels < usize_bound - 1"
  shows "parse_lines (str_lines [] (manifest_text l0 levels)) = Inr (map (Pair 0) l0 @ enumerate 1 levels) \<and>
    table_seq (table_name seq) = Some seq"
proof -
  have "\<forall>n \<in> set (l0 @ levels). name_ok n" using assms(1) table_name_ok by metis
  then show ?thesis using parse_manifest_text assms(2) table_seq_name by blast
qed

theorem manifest_round_trip_witness:
  "parse_lines (str_lines [] (manifest_text [table_name 7, table_name 3] [table_name 0])) =
     Inr [(0, table_name 7), (0, table_name 3), (1, table_name 0)]"
  using manifest_round_trip [of "[table_name 7, table_name 3]" "[table_name 0]"] by auto

end
