(* ===== verification/Kway_Merge.thy ===== *)
theory Kway_Merge
  imports Memtable Storage_Base
begin

text \<open>
  The k-way merge of the engine (\<open>KWayMerge\<close> in \<open>crates/skaidb-storage/src/engine.rs\<close>). A source is
  the list of the items it will yield; the merge buffers one head per source. The lemmas show that
  over sorted sources it yields, in key order, the version with the highest stamp of every key, the
  earlier source winning a tie, and that it ends whatever the sources yield.
\<close>

section \<open>The iterator\<close>

type_synonym merge_source = "(storage_error + entry) list"

record kway_merge =
  km_iters :: "merge_source list"
  km_heads :: "entry option list"

definition kway_new :: "merge_source list \<Rightarrow> kway_merge" where
  "kway_new iters = \<lparr>km_iters = iters, km_heads = map (\<lambda>_. None) iters\<rparr>"

text \<open>The first loop of \<open>next\<close>: fill the empty heads; an error returns at once.\<close>

fun refill :: "merge_source list \<Rightarrow> entry option list \<Rightarrow> storage_error option \<times> merge_source list \<times> entry option list" where
  "refill (it # its) (Some x # hs) =
     (case refill its hs of (e, its', hs') \<Rightarrow> (e, it # its', Some x # hs'))"
| "refill ([] # its) (None # hs) =
     (case refill its hs of (e, its', hs') \<Rightarrow> (e, [] # its', None # hs'))"
| "refill ((Inr x # it) # its) (None # hs) =
     (case refill its hs of (e, its', hs') \<Rightarrow> (e, it # its', Some x # hs'))"
| "refill ((Inl e # it) # its) (None # hs) = (Some e, it # its, None # hs)"
| "refill its hs = (None, its, hs)"

text \<open>The second loop: the index of the winning head.\<close>

definition wins_over :: "entry \<Rightarrow> entry \<Rightarrow> bool" where
  "wins_over x w \<longleftrightarrow> fst x < fst w \<or> fst x = fst w \<and> fst (snd x) > fst (snd w)"

definition win_step :: "entry option list \<Rightarrow> nat \<Rightarrow> nat option \<Rightarrow> nat option" where
  "win_step heads i win =
     (case heads ! i of
        None \<Rightarrow> win
      | Some x \<Rightarrow>
          Some (case win of
                  None \<Rightarrow> i
                | Some w \<Rightarrow> if wins_over x (the (heads ! w)) then i else w))"

definition find_winner :: "entry option list \<Rightarrow> nat option" where
  "find_winner heads = fold (win_step heads) [0..<length heads] None"

definition kway_next :: "kway_merge \<Rightarrow> (storage_error + entry) option \<times> kway_merge" where
  "kway_next m =
     (case refill (km_iters m) (km_heads m) of
        (Some e, its, hs) \<Rightarrow> (Some (Inl e), \<lparr>km_iters = its, km_heads = hs\<rparr>)
      | (None, its, hs) \<Rightarrow>
          (case find_winner hs of
             None \<Rightarrow> (None, \<lparr>km_iters = its, km_heads = hs\<rparr>)
           | Some w \<Rightarrow>
               (let item = the (hs ! w);
                    hs' = map (\<lambda>head. case head of
                                Some x \<Rightarrow> if fst x = fst item then None else head
                              | None \<Rightarrow> None) (hs[w := None])
                in (Some (Inr item), \<lparr>km_iters = its, km_heads = hs'\<rparr>))))"

section \<open>Termination\<close>

fun heads_left :: "'a option list \<Rightarrow> nat" where
  "heads_left [] = 0"
| "heads_left (None # hs) = heads_left hs"
| "heads_left (Some _ # hs) = Suc (heads_left hs)"

definition km_left :: "merge_source list \<Rightarrow> entry option list \<Rightarrow> nat" where
  "km_left its hs = 2 * sum_list (map length its) + heads_left hs"

lemma refill_left:
  assumes "refill its hs = (e, its', hs')"
  shows "km_left its' hs' \<le> km_left its hs" "e \<noteq> None \<Longrightarrow> km_left its' hs' < km_left its hs"
proof -
  have "km_left its' hs' \<le> km_left its hs \<and> (e \<noteq> None \<longrightarrow> km_left its' hs' < km_left its hs)"
    using assms
    by (induction its hs arbitrary: e its' hs' rule: refill.induct)
      (auto simp: km_left_def split: prod.splits; force)+
  then show "km_left its' hs' \<le> km_left its hs" "e \<noteq> None \<Longrightarrow> km_left its' hs' < km_left its hs" by auto
qed

lemma find_winner_Some:
  assumes "fold (win_step heads) xs win = Some w" "\<forall>i \<in> set xs. i < length heads"
    and "\<forall>v. win = Some v \<longrightarrow> v < length heads \<and> heads ! v \<noteq> None"
  shows "w < length heads \<and> heads ! w \<noteq> None"
  using assms
proof (induction xs arbitrary: win)
  case (Cons i xs)
  show ?case
    by (rule Cons.IH [of "win_step heads i win"])
      (use Cons.prems in \<open>auto simp: win_step_def split: option.splits if_splits\<close>)
qed auto

lemma find_winner_head: "find_winner heads = Some w \<Longrightarrow> w < length heads \<and> heads ! w \<noteq> None"
  unfolding find_winner_def by (rule find_winner_Some) auto

lemma heads_left_update:
  assumes "w < length hs" "hs ! w \<noteq> None"
  shows "heads_left (hs[w := None]) < heads_left hs"
  using assms
proof (induction hs arbitrary: w rule: heads_left.induct)
  case (3 x hs)
  then show ?case by (cases w) auto
next
  case (2 hs)
  then show ?case by (cases w) auto
qed simp

lemma heads_left_map:
  "heads_left (map (\<lambda>h. case h of Some x \<Rightarrow> if P x then None else h | None \<Rightarrow> None) hs) \<le> heads_left hs"
  by (induction hs rule: heads_left.induct) auto

lemma kway_next_decreases:
  assumes "kway_next m = (Some r, m')"
  shows "km_left (km_iters m') (km_heads m') < km_left (km_iters m) (km_heads m)"
proof -
  obtain e its hs where r: "refill (km_iters m) (km_heads m) = (e, its, hs)" by (metis prod_cases3)
  show ?thesis
  proof (cases e)
    case None
    then obtain w where w: "find_winner hs = Some w"
      using assms r by (auto simp: kway_next_def split: option.splits)
    then have "w < length hs" "hs ! w \<noteq> None" using find_winner_head by blast+
    note lt = order.strict_trans1 [OF heads_left_map heads_left_update [OF this], of "\<lambda>x. fst x = fst (the (hs ! w))"]
    have "km_left (km_iters m') (km_heads m') < km_left its hs"
      using assms r None w lt by (auto simp: kway_next_def Let_def km_left_def)
    then show ?thesis using refill_left(1) [OF r] by linarith
  next
    case (Some x)
    then show ?thesis using assms r refill_left(2) [OF r] by (auto simp: kway_next_def)
  qed
qed

text \<open>The items the merge yields until it returns \<open>None\<close>.\<close>

function kway_items :: "kway_merge \<Rightarrow> (storage_error + entry) list" where
  "kway_items m = (case kway_next m of (None, m') \<Rightarrow> [] | (Some r, m') \<Rightarrow> r # kway_items m')"
  by pat_completeness auto
termination
  by (relation "measure (\<lambda>m. km_left (km_iters m) (km_heads m))") (auto dest: kway_next_decreases [OF sym])

declare kway_items.simps [simp del]

definition merge_all :: "merge_source list \<Rightarrow> (storage_error + entry) list" where
  "merge_all sources = kway_items (kway_new sources)"

section \<open>Correctness\<close>

text \<open>Last writer wins: the highest stamp, and the first source that has it.\<close>

fun newer :: "(hlc \<times> version_value) option \<Rightarrow> (hlc \<times> version_value) option \<Rightarrow> (hlc \<times> version_value) option" where
  "newer None y = y"
| "newer x None = x"
| "newer (Some x) (Some y) = (if fst x < fst y then Some y else Some x)"

definition lww :: "(hlc \<times> version_value) option list \<Rightarrow> (hlc \<times> version_value) option" where
  "lww vs = foldr newer vs None"

lemma newer_None [simp]: "newer x None = x"
  by (cases x) auto

lemma newer_assoc: "newer (newer x y) z = newer x (newer y z)"
  by (cases x; cases y; cases z) auto

lemma lww_simps [simp]: "lww [] = None" "lww (v # vs) = newer v (lww vs)"
  by (simp_all add: lww_def)

lemma lww_append: "lww (xs @ ys) = newer (lww xs) (lww ys)"
  by (induction xs) (auto simp: newer_assoc)

lemma newer_eq_None: "newer x y = None \<longleftrightarrow> x = None \<and> y = None"
  by (cases x; cases y) auto

lemma lww_None_iff: "lww vs = None \<longleftrightarrow> (\<forall>v \<in> set vs. v = None)"
  by (induction vs) (auto simp: newer_eq_None)

lemma lww_SomeD:
  "lww vs = Some x \<Longrightarrow> Some x \<in> set vs \<and> (\<forall>y. Some y \<in> set vs \<longrightarrow> fst y \<le> fst x)"
proof (induction vs arbitrary: x)
  case (Cons v vs)
  show ?case
  proof (cases "lww vs")
    case None
    moreover from None have "\<forall>v \<in> set vs. v = None" by (simp add: lww_None_iff)
    ultimately show ?thesis using Cons.prems by auto
  next
    case (Some y)
    note IH = Cons.IH [OF Some]
    then show ?thesis
      using Cons.prems Some by (cases v) (auto split: if_splits dest: order.trans less_imp_le)
  qed
qed simp

text \<open>What is pending in each source: the buffered head and the rest.\<close>

definition pending :: "entry option list \<Rightarrow> entry list list \<Rightarrow> entry list list" where
  "pending hs rs = map2 (\<lambda>h r. (case h of Some x \<Rightarrow> [x] | None \<Rightarrow> []) @ r) hs rs"

lemma pending_simps [simp]:
  "pending [] [] = []" "pending (Some x # hs) (r # rs) = (x # r) # pending hs rs" "pending (None # hs) (r # rs) = r # pending hs rs"
  by (simp_all add: pending_def)

lemma refill_pending:
  assumes "length hs = length rs"
  obtains hs' rs' where "refill (map (map Inr) rs) hs = (None, map (map Inr) rs', hs')" "length hs' = length rs'"
    "pending hs' rs' = pending hs rs" "hs' = map (\<lambda>p. case p of [] \<Rightarrow> None | x # _ \<Rightarrow> Some x) (pending hs rs)"
    "length rs' = length rs"
  using assms
proof (induction hs rs arbitrary: thesis rule: list_induct2')
  case 1
  then show ?case by simp
next
  case (4 h hs r rs)
  obtain hs' rs' where IH: "refill (map (map Inr) rs) hs = (None, map (map Inr) rs', hs')" "length hs' = length rs'"
    "pending hs' rs' = pending hs rs" "hs' = map (\<lambda>p. case p of [] \<Rightarrow> None | x # _ \<Rightarrow> Some x) (pending hs rs)"
    "length rs' = length rs"
    using "4.IH" "4.prems"(2) by auto
  show ?case
  proof (cases h)
    case (Some x)
    show ?thesis by (rule "4.prems"(1) [of "r # rs'" "Some x # hs'"]) (use IH Some in auto)
  next
    case None
    show ?thesis
    proof (cases r)
      case Nil
      show ?thesis by (rule "4.prems"(1) [of "[] # rs'" "None # hs'"]) (use IH None Nil in auto)
    next
      case (Cons x r')
      show ?thesis by (rule "4.prems"(1) [of "r' # rs'" "Some x # hs'"]) (use IH None Cons in auto)
    qed
  qed
qed auto

definition beats :: "entry \<Rightarrow> nat \<Rightarrow> entry \<Rightarrow> nat \<Rightarrow> bool" where
  "beats x w y i \<longleftrightarrow> fst x < fst y \<or>
     fst x = fst y \<and> (fst (snd y) < fst (snd x) \<or> fst (snd y) = fst (snd x) \<and> w \<le> i)"

definition winner_upto :: "entry option list \<Rightarrow> nat \<Rightarrow> nat option \<Rightarrow> bool" where
  "winner_upto hs n win \<longleftrightarrow>
     (case win of
        None \<Rightarrow> \<forall>i < n. hs ! i = None
      | Some w \<Rightarrow> w < n \<and> (\<exists>x. hs ! w = Some x \<and> (\<forall>i < n. \<forall>y. hs ! i = Some y \<longrightarrow> beats x w y i)))"

lemma winner_upto_SomeI:
  "w < n \<Longrightarrow> hs ! w = Some x \<Longrightarrow> (\<And>i y. i < n \<Longrightarrow> hs ! i = Some y \<Longrightarrow> beats x w y i) \<Longrightarrow> winner_upto hs n (Some w)"
  by (auto simp: winner_upto_def simp del: split_paired_All)

lemma beats_refl: "beats x w x w"
  by (simp add: beats_def)

lemma beats_trans: "wins_over z x \<Longrightarrow> beats x w y i \<Longrightarrow> beats z n y i"
  by (auto simp: beats_def wins_over_def dest: less_trans order.strict_trans1)

lemma not_wins_beats: "\<not> wins_over z x \<Longrightarrow> w \<le> n \<Longrightarrow> beats x w z n"
  by (auto simp: beats_def wins_over_def not_less)

lemma winner_upto_step:
  assumes "winner_upto hs n win"
  shows "winner_upto hs (Suc n) (win_step hs n win)"
proof (cases "hs ! n")
  case None
  then show ?thesis
    using assms by (cases win) (auto simp: winner_upto_def win_step_def less_Suc_eq)
next
  case (Some z)
  show ?thesis
  proof (cases win)
    case None
    then show ?thesis
      using assms Some by (auto simp: winner_upto_def win_step_def less_Suc_eq beats_refl)
  next
    case w: (Some w)
    obtain x where x: "w < n" "hs ! w = Some x" "\<And>i y. i < n \<Longrightarrow> hs ! i = Some y \<Longrightarrow> beats x w y i"
      using assms unfolding w winner_upto_def option.simps(5) by blast
    show ?thesis
    proof (cases "wins_over z x")
      case True
      have "beats z n y i" if "i < Suc n" "hs ! i = Some y" for i y
        using that Some beats_trans [OF True x(3)] beats_refl by (cases "i = n") auto
      then have "winner_upto hs (Suc n) (Some n)"
        using Some by (intro winner_upto_SomeI [of _ _ _ z]) simp_all
      then show ?thesis using True Some w x(2) by (simp add: win_step_def)
    next
      case False
      have "beats x w y i" if "i < Suc n" "hs ! i = Some y" for i y
        using that Some x not_wins_beats [OF False, of w n] by (cases "i = n") auto
      then have "winner_upto hs (Suc n) (Some w)"
        using x(1,2) by (intro winner_upto_SomeI [of _ _ _ x]) simp_all
      then show ?thesis using False Some w x(2) by (simp add: win_step_def)
    qed
  qed
qed

lemma find_winner_upto: "winner_upto hs (length hs) (find_winner hs)"
proof -
  have "winner_upto hs n (fold (win_step hs) [0..<n] None)" for n
    by (induction n) (auto simp: winner_upto_def [of _ 0] winner_upto_step)
  then show ?thesis by (simp add: find_winner_def)
qed

lemma lww_eqI:
  assumes "w < length vs" "vs ! w = Some v"
    and "\<And>i y. i < length vs \<Longrightarrow> vs ! i = Some y \<Longrightarrow> fst y < fst v \<or> fst y = fst v \<and> w \<le> i"
  shows "lww vs = Some v"
proof -
  have split: "vs = take w vs @ Some v # drop (Suc w) vs" using id_take_nth_drop [OF assms(1)] assms(2) by simp
  have before: "fst y < fst v" if "lww (take w vs) = Some y" for y
  proof -
    have "Some y \<in> set (take w vs)" using lww_SomeD [OF that] by simp
    then obtain i where "i < w" "vs ! i = Some y" by (auto simp: in_set_conv_nth)
    then show ?thesis using assms(1) assms(3) [of i y] by auto
  qed
  have after: "fst y \<le> fst v" if "lww (drop (Suc w) vs) = Some y" for y
  proof -
    have "Some y \<in> set (drop (Suc w) vs)" using lww_SomeD [OF that] by simp
    then obtain i where "i < length vs" "vs ! i = Some y" by (meson in_set_dropD in_set_conv_nth)
    then show ?thesis using assms(3) [of i y] by auto
  qed
  have "lww vs = newer (lww (take w vs)) (newer (Some v) (lww (drop (Suc w) vs)))"
    by (subst split) (simp add: lww_append)
  also have "newer (Some v) (lww (drop (Suc w) vs)) = Some v"
    using after by (cases "lww (drop (Suc w) vs)") (auto simp: not_less [symmetric])
  also have "newer (lww (take w vs)) (Some v) = Some v"
    using before by (cases "lww (take w vs)") auto
  finally show ?thesis .
qed

text \<open>Taking the smallest head off sorted sources.\<close>

abbreviation head_of :: "'a list \<Rightarrow> 'a option" where
  "head_of p \<equiv> (case p of [] \<Rightarrow> None | x # _ \<Rightarrow> Some x)"

definition drop_key :: "bytes \<Rightarrow> entry list \<Rightarrow> entry list" where
  "drop_key k p = (case p of [] \<Rightarrow> [] | x # q \<Rightarrow> if fst x = k then q else p)"

lemma map_of_smaller:
  assumes "bt_ok (x # p)" "k < fst x"
  shows "map_of (x # p) k = None"
  using assms by (auto simp: map_of_eq_None_iff)

lemma map_of_drop_key:
  assumes "bt_ok p" "\<And>x. head_of p = Some x \<Longrightarrow> k \<le> fst x"
  shows "map_of (drop_key k p) k' = (if k' = k then None else map_of p k')"
    and "bt_ok (drop_key k p)" and "\<forall>x \<in> set (drop_key k p). k < fst x"
proof -
  show "map_of (drop_key k p) k' = (if k' = k then None else map_of p k')"
  proof (cases p)
    case (Cons x q)
    have k: "k \<le> fst x" using assms(2) Cons by simp
    have "map_of q k = None" if "fst x = k" using assms(1) Cons that by (auto simp: map_of_eq_None_iff)
    moreover have "map_of p k = None" if "fst x \<noteq> k"
      using map_of_smaller [of x q k] assms(1) Cons k that by auto
    ultimately show ?thesis using Cons by (auto simp: drop_key_def)
  qed (simp add: drop_key_def)
  show "bt_ok (drop_key k p)" using assms(1) by (cases p) (simp_all add: drop_key_def)
  show "\<forall>x \<in> set (drop_key k p). k < fst x"
  proof (cases p)
    case (Cons x q)
    have "k \<le> fst x" using assms(2) Cons by simp
    moreover have "fst x < fst y" if "y \<in> set q" for y using bt_ok_Cons_less that assms(1) Cons by blast
    ultimately show ?thesis using Cons by (auto simp: drop_key_def dest: order.strict_trans1)
  qed (simp add: drop_key_def)
qed

lemma pending_drop_key:
  assumes "length hs = length rs" "hs = map head_of (pending hs rs)"
  shows "pending (map (\<lambda>h. case h of Some x \<Rightarrow> if fst x = k then None else h | None \<Rightarrow> None) hs) rs
    = map (drop_key k) (pending hs rs)"
  using assms
proof (induction hs rs rule: list_induct2)
  case (Cons h hs r rs)
  then show ?case by (cases h; cases r) (auto simp: drop_key_def)
qed simp


lemma lww_smallest_head:
  assumes sorted: "\<forall>p \<in> set ps. bt_ok p" and w: "w < length ps" "head_of (ps ! w) = Some x"
    and best: "\<And>i y. i < length ps \<Longrightarrow> head_of (ps ! i) = Some y \<Longrightarrow> beats x w y i"
  shows "lww (map (\<lambda>p. map_of p (fst x)) ps) = Some (snd x)"
proof (rule lww_eqI [of w])
  have hd: "head_of (ps ! i) = Some (fst x, v)" if i: "i < length ps" and v: "map_of (ps ! i) (fst x) = Some v" for i v
  proof -
    obtain y q where p: "ps ! i = y # q" using v by (cases "ps ! i") auto
    have ok: "bt_ok (y # q)" using sorted nth_mem [OF i] unfolding p by blast
    have "fst x \<le> fst y" using best [OF i] p by (auto simp: beats_def)
    then have "fst y = fst x"
      using map_of_smaller [OF ok, of "fst x"] v unfolding p by (metis option.distinct(1) order_le_less)
    then show ?thesis using v p by (cases y) auto
  qed
  show "w < length (map (\<lambda>p. map_of p (fst x)) ps)" using w(1) by simp
  show "map (\<lambda>p. map_of p (fst x)) ps ! w = Some (snd x)" using w by (cases "ps ! w") auto
  show "fst y < fst (snd x) \<or> fst y = fst (snd x) \<and> w \<le> i"
    if "i < length (map (\<lambda>p. map_of p (fst x)) ps)" "map (\<lambda>p. map_of p (fst x)) ps ! i = Some y" for i y
    using best [of i "(fst x, y)"] hd [of i y] that by (auto simp: beats_def)
qed

text \<open>One step of the merge over sorted sources.\<close>

lemma kway_next_sorted:
  assumes len: "length hs = length rs" and sorted: "\<forall>p \<in> set (pending hs rs). bt_ok p"
  obtains (finished) m' where "kway_next \<lparr>km_iters = map (map Inr) rs, km_heads = hs\<rparr> = (None, m')" "\<forall>p \<in> set (pending hs rs). p = []"
  | (yields) x hs' rs' where "kway_next \<lparr>km_iters = map (map Inr) rs, km_heads = hs\<rparr>
        = (Some (Inr x), \<lparr>km_iters = map (map Inr) rs', km_heads = hs'\<rparr>)"
      "length hs' = length rs'" "pending hs' rs' = map (drop_key (fst x)) (pending hs rs)"
      "\<And>p y. p \<in> set (pending hs rs) \<Longrightarrow> head_of p = Some y \<Longrightarrow> fst x \<le> fst y"
      "lww (map (\<lambda>p. map_of p (fst x)) (pending hs rs)) = Some (snd x)"
proof -
  let ?ps = "pending hs rs"
  let ?s = "\<lparr>km_iters = map (map Inr) rs, km_heads = hs\<rparr>"
  obtain hs' rs' where r: "refill (map (map Inr) rs) hs = (None, map (map Inr) rs', hs')" "length hs' = length rs'"
    "pending hs' rs' = ?ps" "hs' = map head_of ?ps"
    using refill_pending [OF len] by blast
  have len: "length ?ps = length hs'" using r(4) by simp
  have hd_nth: "hs' ! i = head_of (?ps ! i)" if "i < length ?ps" for i using that unfolding r(4) by simp
  show thesis
  proof (cases "find_winner hs'")
    case None
    then have none: "\<forall>i < length hs'. hs' ! i = None" using find_winner_upto [of hs'] by (simp add: winner_upto_def)
    have "p = []" if p: "p \<in> set ?ps" for p
    proof -
      obtain i where i: "i < length ?ps" "p = ?ps ! i" using p by (auto simp: in_set_conv_nth)
      then have "head_of p = None" using none hd_nth [OF i(1)] len by simp
      then show ?thesis by (simp split: list.splits)
    qed
    then show thesis using r(1) None by (intro finished) (auto simp: kway_next_def)
  next
    case (Some w)
    obtain x where w: "w < length hs'" "hs' ! w = Some x"
      and best: "\<And>i y. i < length hs' \<Longrightarrow> hs' ! i = Some y \<Longrightarrow> beats x w y i"
      using find_winner_upto [of hs'] unfolding winner_upto_def Some option.simps(5) by blast
    define clear where "clear = (\<lambda>h :: entry option. case h of Some y \<Rightarrow> if fst y = fst x then None else h | None \<Rightarrow> None)"
    have clear: "clear (hs' ! w) = None" "clear None = None" using w(2) by (simp_all add: clear_def)
    have upd: "map clear (hs'[w := None]) = map clear hs'"
      using clear w(1) by (intro nth_equalityI) (auto simp: nth_list_update)
    have nxt: "kway_next ?s = (Some (Inr x), \<lparr>km_iters = map (map Inr) rs', km_heads = map clear hs'\<rparr>)"
      using r(1) Some w(2) upd by (simp add: kway_next_def Let_def clear_def)
    have "hs' = map head_of (pending hs' rs')" unfolding r(3) by (rule r(4))
    then have ps': "pending (map clear hs') rs' = map (drop_key (fst x)) ?ps"
      using pending_drop_key [OF r(2), of "fst x"] unfolding r(3) clear_def by blast
    have heads: "beats x w y i" if "i < length ?ps" "head_of (?ps ! i) = Some y" for i y
      using best [of i y] hd_nth [of i] len that by simp
    show thesis
    proof (rule yields [OF nxt _ ps'])
      show "fst x \<le> fst y" if p: "p \<in> set ?ps" "head_of p = Some y" for p y
      proof -
        obtain i where "i < length ?ps" "p = ?ps ! i" using p(1) by (auto simp: in_set_conv_nth)
        then have "beats x w y i" using heads p(2) by simp
        then show ?thesis by (auto simp: beats_def)
      qed
      show "lww (map (\<lambda>p. map_of p (fst x)) ?ps) = Some (snd x)"
        using w len hd_nth [of w] heads by (intro lww_smallest_head [OF sorted]) auto
    qed (use r(2) in simp)
  qed
qed

lemma kway_items_correct:
  assumes "length hs = length rs" "\<forall>p \<in> set (pending hs rs). bt_ok p"
  shows "\<exists>m. kway_items \<lparr>km_iters = map (map Inr) rs, km_heads = hs\<rparr> = map Inr m \<and> bt_ok m \<and>
    (\<forall>k. map_of m k = lww (map (\<lambda>p. map_of p k) (pending hs rs)))"
  using assms
proof (induction "km_left (map (map Inr) rs :: merge_source list) hs" arbitrary: hs rs rule: less_induct)
  case less
  let ?ps = "pending hs rs"
  let ?s = "\<lparr>km_iters = map (map Inr) rs, km_heads = hs\<rparr>"
  from less.prems show ?case
  proof (cases rule: kway_next_sorted)
    case (finished m')
    then have "\<forall>k. lww (map (\<lambda>p. map_of p k) ?ps) = None" by (fastforce simp: lww_None_iff)
    moreover have "kway_items ?s = []" using finished(1) by (simp add: kway_items.simps)
    ultimately show ?thesis by (intro exI [of _ "[]"]) simp
  next
    case (yields x hs' rs')
    let ?k = "fst x"
    have dk: "map_of (drop_key ?k p) k' = (if k' = ?k then None else map_of p k')" "bt_ok (drop_key ?k p)"
      "\<forall>y \<in> set (drop_key ?k p). ?k < fst y" if "p \<in> set ?ps" for p k'
      using map_of_drop_key [of p ?k] yields(4) that less.prems(2) by blast+
    have "km_left (map (map Inr) rs' :: merge_source list) hs' < km_left (map (map Inr) rs :: merge_source list) hs"
      using kway_next_decreases [OF yields(1)] by simp
    then obtain m where m: "kway_items \<lparr>km_iters = map (map Inr) rs', km_heads = hs'\<rparr> = map Inr m" "bt_ok m"
      "\<forall>k. map_of m k = lww (map (\<lambda>p. map_of p k) (map (drop_key ?k) ?ps))"
      using less.hyps [of rs' hs'] yields(2,3) dk(2) by auto
    have m': "map_of m k = (if k = ?k then None else lww (map (\<lambda>p. map_of p k) ?ps))" for k
      using m(3) dk(1) by (auto simp: lww_None_iff comp_def cong: map_cong)
    then have "\<forall>k. map_of (x # m) k = lww (map (\<lambda>p. map_of p k) ?ps)" using yields(5) by auto
    moreover have "?k < fst y" if y: "y \<in> set m" for y
    proof -
      have "map_of m (fst y) \<noteq> None" using y by (auto simp: map_of_eq_None_iff)
      then have "lww (map (\<lambda>p. map_of p (fst y)) (map (drop_key ?k) ?ps)) \<noteq> None" using m(3) by simp
      then obtain p where "p \<in> set ?ps" "map_of (drop_key ?k p) (fst y) \<noteq> None" by (auto simp: lww_None_iff)
      then show ?thesis using dk(3) [of p] by (force dest: map_of_SomeD)
    qed
    then have "bt_ok (x # m)" using m(2) by simp
    moreover have "kway_items ?s = map Inr (x # m)" using yields(1) m(1) by (simp add: kway_items.simps)
    ultimately show ?thesis by (intro exI [of _ "x # m"]) simp
  qed
qed

text \<open>
  The merge of sorted sources, as the unique sorted list of the last writers.
\<close>

definition lww_merge :: "entry list list \<Rightarrow> entry list" where
  "lww_merge ss = map projr (merge_all (map (map Inr) ss))"

lemma pending_new: "pending (map (\<lambda>_. None) ss) ss = ss"
  by (induction ss) auto

lemma merge_all_correct:
  assumes "\<forall>s \<in> set ss. bt_ok s"
  shows "merge_all (map (map Inr) ss) = map Inr (lww_merge ss)" "bt_ok (lww_merge ss)"
    "map_of (lww_merge ss) k = lww (map (\<lambda>s. map_of s k) ss)"
proof -
  obtain m where m: "merge_all (map (map Inr) ss) = map Inr m" "bt_ok m"
    "\<forall>k. map_of m k = lww (map (\<lambda>s. map_of s k) ss)"
    using kway_items_correct [of "map (\<lambda>_. None) ss" ss] assms
    by (auto simp: merge_all_def kway_new_def pending_new comp_def)
  have "lww_merge ss = m" by (simp add: lww_merge_def m(1) comp_def)
  with m show "merge_all (map (map Inr) ss) = map Inr (lww_merge ss)" "bt_ok (lww_merge ss)"
    "map_of (lww_merge ss) k = lww (map (\<lambda>s. map_of s k) ss)" by simp_all
qed

lemma lww_merge_unique:
  assumes "\<forall>s \<in> set ss. bt_ok s" "bt_ok m" "\<And>k. map_of m k = lww (map (\<lambda>s. map_of s k) ss)"
  shows "lww_merge ss = m"
  using merge_all_correct(2,3) [OF assms(1)] assms(2,3) by (intro bt_eqI) auto

subsection \<open>Windows on a merge\<close>

lemma lww_merge_filter:
  assumes "\<forall>s \<in> set ss. bt_ok s"
  shows "lww_merge (map (filter (\<lambda>e. P (fst e))) ss) = filter (\<lambda>e. P (fst e)) (lww_merge ss)"
proof (rule lww_merge_unique)
  show "\<forall>s \<in> set (map (filter (\<lambda>e. P (fst e))) ss). bt_ok s" using assms by auto
  show "bt_ok (filter (\<lambda>e. P (fst e)) (lww_merge ss))" using merge_all_correct(2) [OF assms] by simp
  show "map_of (filter (\<lambda>e. P (fst e)) (lww_merge ss)) k =
      lww (map (\<lambda>s. map_of s k) (map (filter (\<lambda>e. P (fst e))) ss))" for k
    using merge_all_correct(3) [OF assms, of k] by (auto simp: map_of_filter_key lww_None_iff comp_def intro!: sym [of "lww _" None])
qed

lemma map_of_map_values:
  assumes "\<And>k hv. f (k, hv) = (k, g hv)"
  shows "map_of (map f xs) k = map_option g (map_of xs k)"
  using assms by (induction xs) auto

lemma newer_map: "(\<And>hv. fst (g hv) = fst hv) \<Longrightarrow> map_option g (newer x y) = newer (map_option g x) (map_option g y)"
  by (cases x; cases y) auto

lemma lww_merge_map:
  assumes "\<forall>s \<in> set ss. bt_ok s" and f: "\<And>k hv. f (k, hv) = (k, g hv)" and g: "\<And>hv. fst (g hv) = fst hv"
  shows "lww_merge (map (map f) ss) = map f (lww_merge ss)"
proof (rule lww_merge_unique)
  have ok: "bt_ok (map f s)" if "bt_ok s" for s
    using that f by (auto simp: sorted_wrt_map comp_def elim!: sorted_wrt_mono_rel [rotated])
  show "\<forall>s \<in> set (map (map f) ss). bt_ok s" using assms(1) ok by auto
  show "bt_ok (map f (lww_merge ss))" using merge_all_correct(2) [OF assms(1)] ok by simp
  have "map_option g (lww vs) = lww (map (map_option g) vs)" for vs
    by (induction vs) (simp_all add: newer_map [OF g])
  then show "map_of (map f (lww_merge ss)) k = lww (map (\<lambda>s. map_of s k) (map (map f) ss))" for k
    using merge_all_correct(3) [OF assms(1), of k] map_of_map_values [OF f] by (simp add: comp_def)
qed

lemma map_of_take: "map_of (take n s) k = Some v \<Longrightarrow> map_of s k = Some v"
  by (induction s arbitrary: n) (auto simp: take_Cons' split: if_splits)

lemma map_of_take_Suc: "map_of (take n s) k = Some v \<Longrightarrow> map_of (take (Suc n) s) k = Some v"
  using map_of_take [of n "take (Suc n) s"] by (simp add: min_def)

text \<open>A key among the first \<open>n\<close> of a sorted list is among the first \<open>n\<close> of every sorted part of it.\<close>

lemma map_of_take_part:
  assumes "bt_ok s" "bt_ok m" "fst ` set s \<subseteq> fst ` set m" "k \<in> fst ` set (take n m)"
  shows "map_of (take n s) k = map_of s k"
  using assms
proof (induction m arbitrary: s n)
  case (Cons x m)
  obtain n' where n: "n = Suc n'" using Cons.prems(4) by (cases n) auto
  show ?case
  proof (cases s)
    case (Cons y s')
    have le: "fst x \<le> fst z" if "z \<in> set s" for z
    proof -
      have "fst z \<in> fst ` set (x # m)" using that Cons.prems(3) by blast
      then obtain w where "w \<in> set (x # m)" "fst z = fst w" by blast
      then show ?thesis using bt_ok_Cons_ge [OF Cons.prems(2)] by simp
    qed
    have tail: "fst ` set r \<subseteq> fst ` set m" if "fst ` set r \<subseteq> fst ` set s" "\<forall>z \<in> set r. fst z \<noteq> fst x" for r
    proof
      fix a assume a: "a \<in> fst ` set r"
      then have "a \<in> fst ` set (x # m)" using that(1) Cons.prems(3) by blast
      moreover have "a \<noteq> fst x" using a that(2) by (metis image_iff)
      ultimately show "a \<in> fst ` set m" by simp
    qed
    have m: "bt_ok m" using Cons.prems(2) by simp
    consider "k = fst x" | "k \<noteq> fst x" "k \<in> fst ` set (take n' m)" using Cons.prems(4) n by auto
    then show ?thesis
    proof cases
      case 1
      show ?thesis
      proof (cases "fst y = k")
        case False
        have "k < fst z" if "z \<in> set s" for z
          using that False 1 le [of y] bt_ok_Cons_less [of y s' z] Cons.prems(1) local.Cons
          by (metis list.set_intros(1) order_le_less order_less_trans set_ConsD)
        then have "map_of s k = None" by (fastforce simp: map_of_eq_None_iff)
        then show ?thesis using map_of_take [of n s k] by (metis option.exhaust)
      qed (simp add: n local.Cons)
    next
      case 2
      show ?thesis
      proof (cases "fst y = fst x")
        case True
        have "\<forall>z \<in> set s'. fst z \<noteq> fst x" using bt_ok_Cons_less [of y s'] Cons.prems(1) local.Cons True by force
        then have "map_of (take n' s') k = map_of s' k"
          using Cons.IH [OF _ m tail 2(2)] Cons.prems(1) local.Cons by auto
        then show ?thesis using 2 True by (simp add: n local.Cons)
      next
        case False
        have "\<forall>z \<in> set s. fst z \<noteq> fst x"
          using le [of y] False bt_ok_Cons_ge [of y s'] Cons.prems(1) local.Cons by force
        then have "map_of (take n' s) k = map_of s k"
          using Cons.IH [OF Cons.prems(1) m tail 2(2)] by auto
        then show ?thesis using map_of_take_Suc [of n' s k] map_of_take [of n s k] n by (metis option.exhaust)
      qed
    qed
  qed simp
qed simp

lemma take_eqI:
  assumes "bt_ok m" "bt_ok m'" "fst ` set m' \<subseteq> fst ` set m" "\<And>k. k \<in> fst ` set (take n m) \<Longrightarrow> map_of m' k = map_of m k"
  shows "take n m' = take n m"
  using assms
proof (induction m arbitrary: m' n)
  case (Cons x m)
  show ?case
  proof (cases n)
    case (Suc n')
    have x: "map_of m' (fst x) = Some (snd x)" using Cons.prems(4) [of "fst x"] Suc by simp
    then have "x \<in> set m'" by (auto dest: map_of_SomeD)
    then obtain y r where r: "m' = y # r" by (cases m') auto
    have "fst x \<le> fst y" using Cons.prems(1,3) r bt_ok_Cons_ge [of x m] by fastforce
    moreover have "fst y \<le> fst x" using \<open>x \<in> set m'\<close> Cons.prems(2) r bt_ok_Cons_ge [of y r x] by simp
    ultimately have "fst y = fst x" by simp
    then have y: "y = x" using x r by (simp add: prod_eq_iff)
    have r_ne: "\<forall>z \<in> set r. fst z \<noteq> fst x" using bt_ok_Cons_less [of y r] Cons.prems(2) r y by force
    have m_ne: "fst x \<notin> fst ` set m" using bt_ok_Cons_less [of x m] Cons.prems(1) by force
    have "take n' r = take n' m"
    proof (rule Cons.IH)
      show "bt_ok m" "bt_ok r" using Cons.prems(1,2) r by auto
      show "fst ` set r \<subseteq> fst ` set m" using Cons.prems(3) r r_ne by auto
      fix k assume k: "k \<in> fst ` set (take n' m)"
      then have "k \<noteq> fst x" using m_ne by (metis (no_types, lifting) image_iff in_set_takeD)
      then show "map_of r k = map_of m k" using Cons.prems(4) [of k] k r y Suc by auto
    qed
    then show ?thesis by (simp add: r y Suc)
  qed simp
qed simp

text \<open>
  The first \<open>n\<close> rows of a merge need no more than the first \<open>n\<close> entries of any source.
\<close>

lemma lww_merge_take:
  assumes "\<forall>s \<in> set (as @ bs). bt_ok s"
  shows "take n (lww_merge (map (take n) as @ bs)) = take n (lww_merge (as @ bs))"
proof -
  let ?m = "lww_merge (as @ bs)" and ?m' = "lww_merge (map (take n) as @ bs)"
  have s': "\<forall>s \<in> set (map (take n) as @ bs). bt_ok s" using assms by (auto simp: sorted_wrt_take take_map [symmetric])
  note m = merge_all_correct(2,3) [OF assms] and m' = merge_all_correct(2,3) [OF s']
  have keys: "k \<in> fst ` set (lww_merge ss) \<longleftrightarrow> (\<exists>s \<in> set ss. k \<in> fst ` set s)" if "\<forall>s \<in> set ss. bt_ok s" for ss k
  proof -
    have "k \<in> fst ` set (lww_merge ss) \<longleftrightarrow> map_of (lww_merge ss) k \<noteq> None" by (simp add: map_of_eq_None_iff)
    also have "\<dots> \<longleftrightarrow> (\<exists>s \<in> set ss. map_of s k \<noteq> None)"
      using merge_all_correct(3) [OF that, of k] by (auto simp: lww_None_iff)
    finally show ?thesis by (simp add: map_of_eq_None_iff)
  qed
  show ?thesis
  proof (rule take_eqI [OF m(1) m'(1)])
    show "fst ` set ?m' \<subseteq> fst ` set ?m"
    proof
      fix k assume "k \<in> fst ` set ?m'"
      then obtain s where "s \<in> set (map (take n) as @ bs)" "k \<in> fst ` set s" using keys [OF s'] by blast
      then have "\<exists>s \<in> set (as @ bs). k \<in> fst ` set s"
      proof (cases "s \<in> set bs")
        case False
        then obtain a where "a \<in> set as" "s = take n a" using \<open>s \<in> _\<close> by auto
        then show ?thesis using \<open>k \<in> fst ` set s\<close> image_mono [OF set_take_subset, of fst n a] by auto
      qed auto
      then show "k \<in> fst ` set ?m" using keys [OF assms, of k] by blast
    qed
    fix k assume k: "k \<in> fst ` set (take n ?m)"
    have "map_of (take n s) k = map_of s k" if "s \<in> set as" for s
    proof (rule map_of_take_part [OF _ m(1) _ k])
      show "fst ` set s \<subseteq> fst ` set ?m" using keys [OF assms] that by (intro subsetI) (simp, blast)
    qed (use that assms in simp)
    then have "map (\<lambda>s. map_of s k) (map (take n) as) = map (\<lambda>s. map_of s k) as" by simp
    then show "map_of ?m' k = map_of ?m k" unfolding m(2) m'(2) map_append by (rule arg_cong)
  qed
qed

section \<open>Properties\<close>

text \<open>
  C5: merging any number of key-sorted sources ends and yields, in strict key order, one version
  per key of any source: the one with the highest stamp, and of the first source that has it.
\<close>

theorem kway_merge_lww:
  assumes "\<forall>s \<in> set ss. bt_ok s"
  shows "\<exists>m. merge_all (map (map Inr) ss) = map Inr m \<and> bt_ok m \<and>
    (\<forall>k. map_of m k = lww (map (\<lambda>s. map_of s k) ss))"
  using merge_all_correct [OF assms] by blast

theorem kway_merge_lww_witness:
  "\<exists>m. merge_all [[Inr ([1], Hlc 2 0, Put [9])], [Inr ([1], Hlc 3 0, Delete), Inr ([2], Hlc 1 0, Put [])]] = map Inr m \<and>
     bt_ok m \<and> map_of m [1] = Some (Hlc 3 0, Delete) \<and> map_of m [2] = Some (Hlc 1 0, Put [])"
proof -
  let ?ss = "[[([1], Hlc 2 0, Put [9])], [([1], Hlc 3 0, Delete), ([2], Hlc 1 0, Put [])]] :: entry list list"
  obtain m where "merge_all (map (map Inr) ?ss) = map Inr m" "bt_ok m" "\<forall>k. map_of m k = lww (map (\<lambda>s. map_of s k) ?ss)"
    using kway_merge_lww [of ?ss] by auto
  then show ?thesis by (intro exI [of _ m]) (simp add: less_hlc_def)
qed

end
