(* ===== verification/Sstable.thy ===== *)
theory Sstable
  imports Memtable Bloom Storage_Base Cache_Interface
begin

text \<open>
  The immutable tables (\<open>crates/skaidb-storage/src/sstable.rs\<close>) on file contents. A writer folds over
  its entry stream; a table handle is the file, the parsed index and filter, and the two caches
  behind its shared reference (blocks and version counts), so a read that may fill one returns the
  handle too. An iterator is the list of the items it yields; an error item is its last.
\<close>

section \<open>Entries\<close>

definition MAGIC :: u64 where "MAGIC = 0x736b616964625354"
definition MAGIC_ENC :: u64 where "MAGIC_ENC = 0x736b6169646245ed"
definition STAMPS_MAGIC :: u64 where "STAMPS_MAGIC = 0x736b616964625350"

abbreviation ENC_FOOTER_LEN :: nat where "ENC_FOOTER_LEN \<equiv> 48"
abbreviation WRAPPED_DEK_LEN :: nat where "WRAPPED_DEK_LEN \<equiv> 12 + 32 + 16"
abbreviation FOOTER_LEN :: nat where "FOOTER_LEN \<equiv> 40"
abbreviation BLOCK_TARGET :: nat where "BLOCK_TARGET \<equiv> 4096"

type_synonym sst_stamp = "bytes \<times> hlc \<times> bool"

definition corrupt :: "string \<Rightarrow> storage_error" where
  "corrupt detail = Corruption 0 detail"

definition sst_take :: "bytes \<Rightarrow> nat \<Rightarrow> nat \<Rightarrow> storage_error + bytes \<times> nat" where
  "sst_take buf pos n = cur_take (corrupt ''length overflow'') (corrupt ''unexpected end'') buf pos n"

definition sst_read_u32 :: "bytes \<Rightarrow> nat \<Rightarrow> storage_error + u32 \<times> nat" where
  "sst_read_u32 buf pos = rbind (sst_take buf pos 4) (\<lambda>(b, p). Inr (from_le_bytes b, p))"

definition sst_read_u64 :: "bytes \<Rightarrow> nat \<Rightarrow> storage_error + u64 \<times> nat" where
  "sst_read_u64 buf pos = rbind (sst_take buf pos 8) (\<lambda>(b, p). Inr (from_le_bytes b, p))"

definition encode_entry :: "entry \<Rightarrow> bytes" where
  "encode_entry e = (case e of (key, h, val) \<Rightarrow>
     le_bytes 4 (of_nat (length key) :: u32) @ key @ hlc_to_bytes h @
     (case val of
        Put v \<Rightarrow> [OP_PUT] @ le_bytes 4 (of_nat (length v) :: u32) @ v
      | Delete \<Rightarrow> [OP_DELETE]))"

definition encode_stamp :: "entry \<Rightarrow> bytes" where
  "encode_stamp e = (case e of (key, h, val) \<Rightarrow>
     le_bytes 4 (of_nat (length key) :: u32) @ key @ hlc_to_bytes h @
     [case val of Put _ \<Rightarrow> OP_PUT | Delete \<Rightarrow> OP_DELETE])"

definition decode_entry :: "bytes \<Rightarrow> nat \<Rightarrow> storage_error + entry \<times> nat" where
  "decode_entry buf start =
     rbind (sst_read_u32 buf start) (\<lambda>(key_len, pos).
     rbind (sst_take buf pos (unat key_len)) (\<lambda>(key, pos).
     rbind (sst_take buf pos 12) (\<lambda>(hb, pos).
     rbind (sst_take buf pos 1) (\<lambda>(ob, pos).
     if hd ob = OP_PUT then
       rbind (sst_read_u32 buf pos) (\<lambda>(val_len, pos).
       rbind (sst_take buf pos (unat val_len)) (\<lambda>(v, pos).
       Inr ((key, hlc_from_bytes hb, Put v), pos)))
     else if hd ob = OP_DELETE then Inr ((key, hlc_from_bytes hb, Delete), pos)
     else Inl (corrupt ''unknown op'')))))"

text \<open>Skipping a value: \<open>checked_add\<close> and the bound by the buffer.\<close>

definition skip_to :: "bytes \<Rightarrow> nat \<Rightarrow> nat \<Rightarrow> storage_error + nat" where
  "skip_to buf pos n =
     (if pos + n < usize_bound \<and> pos + n \<le> length buf then Inr (pos + n) else Inl (corrupt ''unexpected end''))"

definition decode_entry_stamp :: "bytes \<Rightarrow> nat \<Rightarrow> storage_error + sst_stamp \<times> nat" where
  "decode_entry_stamp buf start =
     rbind (sst_read_u32 buf start) (\<lambda>(key_len, pos).
     rbind (sst_take buf pos (unat key_len)) (\<lambda>(key, pos).
     rbind (sst_take buf pos 12) (\<lambda>(hb, pos).
     rbind (sst_take buf pos 1) (\<lambda>(ob, pos).
     if hd ob = OP_PUT then
       rbind (sst_read_u32 buf pos) (\<lambda>(val_len, pos).
       rbind (skip_to buf pos (unat val_len)) (\<lambda>pos.
       Inr ((key, hlc_from_bytes hb, True), pos)))
     else if hd ob = OP_DELETE then Inr ((key, hlc_from_bytes hb, False), pos)
     else Inl (corrupt ''unknown op'')))))"

definition decode_stamp :: "bytes \<Rightarrow> nat \<Rightarrow> storage_error + sst_stamp \<times> nat" where
  "decode_stamp buf start =
     rbind (sst_read_u32 buf start) (\<lambda>(key_len, pos).
     rbind (sst_take buf pos (unat key_len)) (\<lambda>(key, pos).
     rbind (sst_take buf pos 12) (\<lambda>(hb, pos).
     rbind (sst_take buf pos 1) (\<lambda>(ob, pos).
     if hd ob = OP_PUT then Inr ((key, hlc_from_bytes hb, True), pos)
     else if hd ob = OP_DELETE then Inr ((key, hlc_from_bytes hb, False), pos)
     else Inl (corrupt ''unknown op'')))))"

definition peek_entry_key :: "bytes \<Rightarrow> nat \<Rightarrow> storage_error + bytes \<times> nat" where
  "peek_entry_key buf start =
     rbind (sst_read_u32 buf start) (\<lambda>(key_len, pos).
     rbind (sst_take buf pos (unat key_len)) (\<lambda>(key, pos).
     let pos = pos + 12
     in if pos < length buf then
          (let op = buf ! pos; pos = pos + 1
           in if op = OP_PUT then
                rbind (sst_read_u32 buf pos) (\<lambda>(val_len, pos).
                rbind (skip_to buf pos (unat val_len)) (\<lambda>pos. Inr (key, pos)))
              else if op = OP_DELETE then Inr (key, pos)
              else Inl (corrupt ''unknown op''))
        else Inl (corrupt ''missing op'')))"

section \<open>Blocks and the table handle\<close>

record block_meta =
  bm_first_key :: bytes
  bm_offset :: u64
  bm_comp_len :: u32
  bm_uncomp_len :: u32

record stamps_index =
  si_file :: bytes
  si_blocks :: "(u64 \<times> u32 \<times> u32) list"

record block_shard =
  bs_map :: "(u64, bytes) btree"
  bs_fifo :: "u64 list"

type_synonym block_cache = "block_shard list"

record sstable =
  st_file :: bytes
  st_codec :: codec
  st_dek :: "dek option"
  st_blocks :: "block_meta list"
  st_bloom :: bloom
  st_entry_count :: u64
  st_version_counts :: "(u64 \<times> u64) option"
  st_disk_len :: u64
  st_block_cache :: block_cache
  st_stamps :: "stamps_index option"

subsection \<open>The block cache\<close>

abbreviation BLOCK_CACHE_BLOCKS :: nat where "BLOCK_CACHE_BLOCKS \<equiv> 64"
abbreviation BLOCK_CACHE_SHARDS :: nat where "BLOCK_CACHE_SHARDS \<equiv> 4"

definition block_cache_default :: block_cache where
  "block_cache_default = replicate BLOCK_CACHE_SHARDS \<lparr>bs_map = [], bs_fifo = []\<rparr>"

definition bc_shard :: "block_cache \<Rightarrow> u64 \<Rightarrow> nat" where
  "bc_shard c offset = (let h = offset * 0x9E3779B97F4A7C15 in unat (h mod of_nat (length c)))"

definition bc_get :: "block_cache \<Rightarrow> u64 \<Rightarrow> bytes option" where
  "bc_get c offset = map_of (bs_map (c ! bc_shard c offset)) offset"

fun bc_evict :: "nat \<Rightarrow> u64 list \<Rightarrow> (u64, bytes) btree \<Rightarrow> block_shard" where
  "bc_evict per_shard [] m = \<lparr>bs_map = m, bs_fifo = []\<rparr>"
| "bc_evict per_shard (old # fifo) m =
     (if length m > per_shard then bc_evict per_shard fifo (bt_remove old m)
      else \<lparr>bs_map = m, bs_fifo = old # fifo\<rparr>)"

definition bc_insert :: "u64 \<Rightarrow> bytes \<Rightarrow> block_cache \<Rightarrow> block_cache" where
  "bc_insert offset block c =
     (let i = bc_shard c offset; s = c ! i;
          fifo = (if map_of (bs_map s) offset = None then bs_fifo s @ [offset] else bs_fifo s)
      in c[i := bc_evict (BLOCK_CACHE_BLOCKS div BLOCK_CACHE_SHARDS) fifo (bt_insert offset block (bs_map s))])"

subsection \<open>Reading blocks\<close>

definition read_block :: "externals \<Rightarrow> sstable \<Rightarrow> block_meta \<Rightarrow> storage_error + bytes" where
  "read_block X t meta =
     rbind (read_exact_at (st_file t) (unat (bm_comp_len meta)) (unat (bm_offset meta))) (\<lambda>on_disk.
     rbind (case st_dek t of Some d \<Rightarrow> dek_open X d (bm_offset meta) on_disk | None \<Rightarrow> Inr on_disk) (\<lambda>comp.
     decompress X (st_codec t) comp (unat (bm_uncomp_len meta))))"

definition read_block_cached ::
    "externals \<Rightarrow> sstable \<Rightarrow> block_meta \<Rightarrow> sstable \<times> (storage_error + bytes)" where
  "read_block_cached X t meta =
     (case bc_get (st_block_cache t) (bm_offset meta) of
        Some block \<Rightarrow> (t, Inr block)
      | None \<Rightarrow>
          (case read_block X t meta of
             Inl e \<Rightarrow> (t, Inl e)
           | Inr block \<Rightarrow>
               (t\<lparr>st_block_cache := bc_insert (bm_offset meta) block (st_block_cache t)\<rparr>, Inr block)))"

definition read_stamp_block :: "externals \<Rightarrow> sstable \<Rightarrow> stamps_index \<Rightarrow> nat \<Rightarrow> storage_error + bytes" where
  "read_stamp_block X t stamps i =
     (case si_blocks stamps ! i of (offset, comp_len, uncomp_len) \<Rightarrow>
        rbind (read_exact_at (si_file stamps) (unat comp_len) (unat offset)) (\<lambda>comp.
        decompress X (st_codec t) comp (unat uncomp_len)))"

section \<open>Writing a table\<close>

text \<open>
  The sidecar is best effort: its file may fail to be created, a block may fail to be written, and
  so may the closing write and sync. \<open>sidecar_env\<close> says which of them succeed.
\<close>

record sidecar_env =
  sc_create_ok :: bool
  sc_write_ok :: "nat \<Rightarrow> bool"
  sc_close_ok :: bool

record sst_writer =
  w_out :: bytes
  w_blocks :: "block_meta list"
  w_bloom :: bloom
  w_offset :: u64
  w_entry_count :: u64
  w_delete_count :: u64
  w_stamps :: "bytes option"
  w_stamps_table :: bytes
  w_buf :: bytes
  w_stamp_buf :: bytes
  w_first :: "bytes option"

definition sst_writer_new :: "externals \<Rightarrow> nat \<Rightarrow> dek option \<Rightarrow> sidecar_env \<Rightarrow> sst_writer" where
  "sst_writer_new X expected_entries dek env =
     \<lparr>w_out = [], w_blocks = [],
      w_bloom = (case bloom_sizing X expected_entries of (raw_m, raw_k) \<Rightarrow> bloom_with_capacity raw_m raw_k),
      w_offset = 0, w_entry_count = 0, w_delete_count = 0,
      w_stamps = (if dek = None \<and> sc_create_ok env then Some [] else None),
      w_stamps_table = [], w_buf = [], w_stamp_buf = [], w_first = None\<rparr>"

definition seal_stamps :: "externals \<Rightarrow> codec \<Rightarrow> sidecar_env \<Rightarrow> sst_writer \<Rightarrow> sst_writer" where
  "seal_stamps X codec env w =
     (case w_stamps w of
        None \<Rightarrow> w
      | Some out \<Rightarrow>
          (let scomp = compress X codec (w_stamp_buf w)
           in if sc_write_ok env (length (w_blocks w)) then
                w\<lparr>w_stamps := Some (out @ scomp),
                  w_stamps_table := w_stamps_table w @ le_bytes 4 (of_nat (length scomp) :: u32)
                    @ le_bytes 4 (of_nat (length (w_stamp_buf w)) :: u32)\<rparr>
              else w\<lparr>w_stamps := None\<rparr>))"

definition sst_seal ::
    "externals \<Rightarrow> codec \<Rightarrow> dek option \<Rightarrow> sidecar_env \<Rightarrow> sst_writer \<Rightarrow> (storage_error + sst_writer) option" where
  "sst_seal X codec dek env w =
     (let comp = compress X codec (w_buf w)
      in pbind (Some (case dek of Some d \<Rightarrow> dek_seal X d (w_offset w) comp | None \<Rightarrow> Inr comp)) (\<lambda>on_disk.
         pbind (or_panic (w_first w)) (\<lambda>first_key.
         let meta = \<lparr>bm_first_key = first_key, bm_offset = w_offset w,
                     bm_comp_len = of_nat (length on_disk), bm_uncomp_len = of_nat (length (w_buf w))\<rparr>;
             w = (seal_stamps X codec env w)
                   \<lparr>w_out := w_out w @ on_disk, w_offset := w_offset w + of_nat (length on_disk),
                    w_first := None, w_buf := [], w_stamp_buf := [], w_blocks := w_blocks w @ [meta]\<rparr>
         in Some (Inr w))))"

text \<open>The body of the loop over the entries, and the loop.\<close>

definition write_entry ::
    "externals \<Rightarrow> codec \<Rightarrow> dek option \<Rightarrow> sidecar_env \<Rightarrow> entry \<Rightarrow> sst_writer \<Rightarrow> (storage_error + sst_writer) option" where
  "write_entry X codec dek env e w =
     (let first = (if w_first w = None then Some (fst e) else w_first w)
      in pbind (or_panic (bloom_add (fst e) (w_bloom w))) (\<lambda>bloom.
         let w = w\<lparr>w_first := first, w_bloom := bloom,
                   w_entry_count := w_entry_count w + 1,
                   w_delete_count := w_delete_count w + (if snd (snd e) = Delete then 1 else 0),
                   w_buf := w_buf w @ encode_entry e,
                   w_stamp_buf := w_stamp_buf w @ encode_stamp e\<rparr>
         in if length (w_buf w) \<ge> BLOCK_TARGET then sst_seal X codec dek env w else Some (Inr w)))"

fun write_entries ::
    "externals \<Rightarrow> codec \<Rightarrow> dek option \<Rightarrow> sidecar_env \<Rightarrow> (storage_error + entry) list \<Rightarrow> sst_writer
      \<Rightarrow> (storage_error + sst_writer) option" where
  "write_entries X codec dek env [] w = Some (Inr w)"
| "write_entries X codec dek env (item # items) w =
     pbind (Some item) (\<lambda>e. pbind (write_entry X codec dek env e w) (write_entries X codec dek env items))"

definition encode_block_meta :: "block_meta \<Rightarrow> bytes" where
  "encode_block_meta b =
     le_bytes 4 (of_nat (length (bm_first_key b)) :: u32) @ bm_first_key b @ le_bytes 8 (bm_offset b)
       @ le_bytes 4 (bm_comp_len b) @ le_bytes 4 (bm_uncomp_len b)"

definition index_bytes :: "block_meta list \<Rightarrow> bytes" where
  "index_bytes blocks = le_bytes 8 (of_nat (length blocks) :: u64) @ concat (map encode_block_meta blocks)"

text \<open>Index, filter and footer; the result is the file and the length recorded for it.\<close>

definition write_tail ::
    "externals \<Rightarrow> codec \<Rightarrow> (dek \<times> bytes) option \<Rightarrow> sst_writer \<Rightarrow> storage_error + bytes \<times> u64" where
  "write_tail X codec enc w =
     (let index_off = w_offset w; index = index_bytes (w_blocks w); bloom = bloom_encode (w_bloom w);
          codec8 = le_bytes 8 (ucast (codec_to_u8 codec) :: u64)
      in case enc of
           Some (dek, wrapped) \<Rightarrow>
             rbind (dek_seal X dek index_off index) (\<lambda>sealed_index.
             let bloom_off = index_off + of_nat (length sealed_index)
             in rbind (dek_seal X dek bloom_off bloom) (\<lambda>sealed_bloom.
                let dek_off = bloom_off + of_nat (length sealed_bloom);
                    footer = le_bytes 8 index_off @ le_bytes 8 bloom_off @ le_bytes 8 (w_entry_count w)
                      @ codec8 @ le_bytes 8 dek_off @ le_bytes 8 MAGIC_ENC
                in Inr (w_out w @ sealed_index @ sealed_bloom @ wrapped @ footer,
                        dek_off + of_nat (length wrapped) + of_nat ENC_FOOTER_LEN)))
         | None \<Rightarrow>
             (let bloom_off = index_off + of_nat (length index);
                  tail = index @ bloom @ le_bytes 8 index_off @ le_bytes 8 bloom_off
                    @ le_bytes 8 (w_entry_count w) @ codec8 @ le_bytes 8 MAGIC
              in Inr (w_out w @ tail, w_offset w + of_nat (length tail))))"

section \<open>Opening a table\<close>

text \<open>The loop over the length table of the sidecar.\<close>

fun stamps_blocks :: "bytes \<Rightarrow> nat \<Rightarrow> u64 \<Rightarrow> (u64 \<times> u32 \<times> u32) list \<times> u64" where
  "stamps_blocks table 0 offset = ([], offset)"
| "stamps_blocks table (Suc n) offset =
     (let comp = from_le_bytes (take 4 table); uncomp = from_le_bytes (take 4 (drop 4 table));
          (rest, end) = stamps_blocks (drop 8 table) n (offset + ucast comp)
      in ((offset, comp, uncomp) # rest, end))"

definition load_stamps :: "bytes option \<Rightarrow> block_meta list \<Rightarrow> stamps_index option" where
  "load_stamps sidecar data_blocks =
     (case sidecar of
        None \<Rightarrow> None
      | Some f \<Rightarrow>
          (let len = length f
           in if len < 16 then None
              else let foot = take 16 (drop (len - 16) f);
                       n = unat (from_le_bytes (take 8 foot) :: u64);
                       magic = from_le_bytes (drop 8 foot)
                   in if magic \<noteq> STAMPS_MAGIC \<or> n \<noteq> length data_blocks then None
                      else let table_len = n * 8
                           in if table_len \<ge> usize_bound \<or> len < 16 + table_len then None
                              else let table_off = len - (16 + table_len);
                                       (blocks, offset) = stamps_blocks (take table_len (drop table_off f)) n 0
                                   in if unat offset \<noteq> table_off then None
                                      else Some \<lparr>si_file = f, si_blocks = blocks\<rparr>))"

text \<open>
  \<open>write_stream\<close>: the handle, and what is on disk under the two paths. \<open>rk\<close> and \<open>rn\<close> are the
  random key and nonce of the fresh data key.
\<close>

definition write_stream ::
    "externals \<Rightarrow> bytes option \<Rightarrow> bytes option \<Rightarrow> sidecar_env \<Rightarrow> (storage_error + entry) list \<Rightarrow> nat \<Rightarrow> codec
      \<Rightarrow> kek option \<Rightarrow> (storage_error + sstable \<times> bytes option) option" where
  "write_stream X rk rn env items expected_entries codec enc =
     pbind (Some (case enc of
              Some kek \<Rightarrow> rbind (wrap_new_dek X kek rk rn) (\<lambda>dw. Inr (Some dw))
            | None \<Rightarrow> Inr None)) (\<lambda>dw.
     let dek = map_option fst dw
     in pbind (write_entries X codec dek env items (sst_writer_new X expected_entries dek env)) (\<lambda>w.
        pbind (if w_buf w \<noteq> [] then sst_seal X codec dek env w else Some (Inr w)) (\<lambda>w.
        pbind (Some (write_tail X codec dw w)) (\<lambda>(file_bytes, disk_len).
        let sidecar = (case w_stamps w of
              Some out \<Rightarrow>
                if sc_close_ok env
                then Some (out @ w_stamps_table w @ le_bytes 8 (of_nat (length (w_blocks w)) :: u64)
                       @ le_bytes 8 STAMPS_MAGIC)
                else None
            | None \<Rightarrow> None)
        in Some (Inr
             (\<lparr>st_file = file_bytes, st_codec = codec, st_dek = dek, st_blocks = w_blocks w,
               st_bloom = w_bloom w, st_entry_count = w_entry_count w,
               st_version_counts = Some (w_entry_count w - w_delete_count w, w_delete_count w),
               st_disk_len = disk_len, st_block_cache = block_cache_default,
               st_stamps = load_stamps sidecar (w_blocks w)\<rparr>, sidecar))))))"

definition sst_write :: "externals \<Rightarrow> sidecar_env \<Rightarrow> entry list \<Rightarrow> codec \<Rightarrow> (storage_error + sstable \<times> bytes option) option" where
  "sst_write X env es codec = write_stream X None None env (map Inr es) (length es) codec None"

definition decode_block_meta :: "bytes \<Rightarrow> nat \<Rightarrow> storage_error + block_meta \<times> nat" where
  "decode_block_meta buf pos =
     rbind (sst_read_u32 buf pos) (\<lambda>(key_len, pos).
     rbind (sst_take buf pos (unat key_len)) (\<lambda>(first_key, pos).
     rbind (sst_read_u64 buf pos) (\<lambda>(offset, pos).
     rbind (sst_read_u32 buf pos) (\<lambda>(comp_len, pos).
     rbind (sst_read_u32 buf pos) (\<lambda>(uncomp_len, pos).
     Inr (\<lparr>bm_first_key = first_key, bm_offset = offset, bm_comp_len = comp_len,
            bm_uncomp_len = uncomp_len\<rparr>, pos))))))"

definition parse_block_index :: "bytes \<Rightarrow> storage_error + block_meta list" where
  "parse_block_index buf =
     rbind (sst_read_u64 buf 0) (\<lambda>(n, pos).
     rbind (dec_times decode_block_meta (unat n) buf pos) (\<lambda>(blocks, _). Inr blocks))"

definition footer_u64 :: "bytes \<Rightarrow> nat \<Rightarrow> u64" where
  "footer_u64 footer i = from_le_bytes (take 8 (drop (8 * i) footer))"

definition footer_codec :: "bytes \<Rightarrow> storage_error + codec" where
  "footer_codec footer =
     (case codec_from_u8 (footer ! 24) of Some c \<Rightarrow> Inr c | None \<Rightarrow> Inl (corrupt ''unknown codec''))"

text \<open>
  The footer of either layout: offsets of the index and of the filter, the end of the filter,
  the number of entries, the codec and the data key.
\<close>

definition read_footer ::
    "externals \<Rightarrow> kek option \<Rightarrow> bytes \<Rightarrow> storage_error + u64 \<times> u64 \<times> u64 \<times> u64 \<times> codec \<times> dek option" where
  "read_footer X kek f =
     (if length f < FOOTER_LEN then Inl (corrupt ''file shorter than footer'')
      else rbind (read_exact_at f 8 (length f - 8)) (\<lambda>tail_magic.
        let trailing = from_le_bytes tail_magic
        in if trailing = MAGIC_ENC then
             (if length f < ENC_FOOTER_LEN then Inl (corrupt ''file shorter than encrypted footer'')
              else rbind (read_exact_at f ENC_FOOTER_LEN (length f - ENC_FOOTER_LEN)) (\<lambda>footer.
                   rbind (footer_codec footer) (\<lambda>codec.
                   let dek_off = footer_u64 footer 4
                   in rbind (case kek of Some k \<Rightarrow> Inr k
                       | None \<Rightarrow> Inl (Crypto ''SSTable is encrypted but no keyfile is configured'')) (\<lambda>kek.
                      rbind (read_exact_at f WRAPPED_DEK_LEN (unat dek_off)) (\<lambda>wrapped.
                      rbind (unwrap_dek X kek wrapped) (\<lambda>dek.
                      Inr (footer_u64 footer 0, footer_u64 footer 1, dek_off, footer_u64 footer 2, codec, Some dek)))))))
           else if trailing = MAGIC then
             rbind (read_exact_at f FOOTER_LEN (length f - FOOTER_LEN)) (\<lambda>footer.
             rbind (footer_codec footer) (\<lambda>codec.
             Inr (footer_u64 footer 0, footer_u64 footer 1, of_nat (length f - FOOTER_LEN),
                  footer_u64 footer 2, codec, None)))
           else Inl (corrupt ''bad magic'')))"

definition sst_open :: "externals \<Rightarrow> kek option \<Rightarrow> bytes \<Rightarrow> bytes option \<Rightarrow> storage_error + sstable" where
  "sst_open X kek f sidecar =
     rbind (read_footer X kek f) (\<lambda>(index_off, bloom_off, index_end, entry_count, codec, dek).
     if index_off > bloom_off \<or> bloom_off > index_end then Inl (corrupt ''inconsistent footer offsets'')
     else
     rbind (read_exact_at f (unat (bloom_off - index_off)) (unat index_off)) (\<lambda>index_buf.
     rbind (read_exact_at f (unat (index_end - bloom_off)) (unat bloom_off)) (\<lambda>bloom_buf.
     rbind (case dek of Some d \<Rightarrow> dek_open X d index_off index_buf | None \<Rightarrow> Inr index_buf) (\<lambda>index_buf.
     rbind (case dek of Some d \<Rightarrow> dek_open X d bloom_off bloom_buf | None \<Rightarrow> Inr bloom_buf) (\<lambda>bloom_buf.
     rbind (parse_block_index index_buf) (\<lambda>blocks.
     rbind (case bloom_decode bloom_buf of Some b \<Rightarrow> Inr b | None \<Rightarrow> Inl (corrupt ''bad bloom block'')) (\<lambda>bloom.
     Inr \<lparr>st_file = f, st_codec = codec, st_dek = dek, st_blocks = blocks, st_bloom = bloom,
           st_entry_count = entry_count, st_version_counts = None, st_disk_len = of_nat (length f),
           st_block_cache = block_cache_default, st_stamps = load_stamps sidecar blocks\<rparr>)))))))"

section \<open>Reading a table\<close>

definition sst_len :: "sstable \<Rightarrow> u64" where
  "sst_len t = st_entry_count t"

definition sst_is_empty :: "sstable \<Rightarrow> bool" where
  "sst_is_empty t \<longleftrightarrow> st_entry_count t = 0"

definition sst_disk_len :: "sstable \<Rightarrow> u64" where
  "sst_disk_len t = st_disk_len t"

text \<open>
  \<open>partition_point\<close> of the standard library, on a slice that is partitioned by the predicate (the
  result is unspecified on any other).
\<close>

definition partition_point :: "('a \<Rightarrow> bool) \<Rightarrow> 'a list \<Rightarrow> nat" where
  "partition_point P xs = length (takeWhile P xs)"

subsection \<open>Decoders make progress\<close>

lemma sst_take_Inr_iff:
  "sst_take buf pos n = Inr (xs, p) \<longleftrightarrow>
     p = pos + n \<and> p \<le> length buf \<and> p < usize_bound \<and> xs = take n (drop pos buf)"
  by (auto simp: sst_take_def cur_take_def)

lemma sst_read_u32_Inr_iff:
  "sst_read_u32 buf pos = Inr (n, p) \<longleftrightarrow>
     p = pos + 4 \<and> p \<le> length buf \<and> p < usize_bound \<and> n = from_le_bytes (take 4 (drop pos buf))"
  by (auto simp: sst_read_u32_def rbind_eq_Inr_iff sst_take_Inr_iff)

lemma skip_to_Inr_iff: "skip_to buf pos n = Inr p \<longleftrightarrow> p = pos + n \<and> p \<le> length buf \<and> p < usize_bound"
  by (auto simp: skip_to_def)

lemmas sst_Inr_iffs = rbind_eq_Inr_iff sst_take_Inr_iff sst_read_u32_Inr_iff skip_to_Inr_iff

named_theorems progress \<open>a successful decoder moves the cursor forward and stays inside the buffer\<close>

lemma peek_entry_key_progress [progress]:
  "peek_entry_key buf pos = Inr (k, p) \<Longrightarrow> pos < p \<and> p \<le> length buf"
  by (auto simp: peek_entry_key_def sst_Inr_iffs Let_def split: if_splits)

lemma decode_entry_progress [progress]:
  "decode_entry buf pos = Inr (e, p) \<Longrightarrow> pos < p \<and> p \<le> length buf"
  by (auto simp: decode_entry_def sst_Inr_iffs Let_def split: if_splits)

lemma decode_stamp_progress [progress]:
  "decode_stamp buf pos = Inr (s, p) \<Longrightarrow> pos < p \<and> p \<le> length buf"
  by (auto simp: decode_stamp_def sst_Inr_iffs Let_def split: if_splits)

lemma decode_entry_stamp_progress [progress]:
  "decode_entry_stamp buf pos = Inr (s, p) \<Longrightarrow> pos < p \<and> p \<le> length buf"
  by (auto simp: decode_entry_stamp_def sst_Inr_iffs Let_def split: if_splits)

subsection \<open>Point reads\<close>

function get_loop :: "bytes \<Rightarrow> bytes \<Rightarrow> nat \<Rightarrow> storage_error + (hlc \<times> version_value) option" where
  "get_loop block key pos =
     (if pos < length block then
        rbind (peek_entry_key block pos) (\<lambda>(entry_key, rest).
          if entry_key = key then rbind (decode_entry block pos) (\<lambda>((_, h, v), _). Inr (Some (h, v)))
          else if entry_key > key then Inr None
          else get_loop block key rest)
      else Inr None)"
  by pat_completeness auto
termination
  by (relation "measure (\<lambda>(block, key, pos). length block - pos)") (auto dest: progress)

definition sst_get ::
    "externals \<Rightarrow> sstable \<Rightarrow> bytes \<Rightarrow> (sstable \<times> (storage_error + (hlc \<times> version_value) option)) option" where
  "sst_get X t key =
     (case bloom_contains (st_bloom t) key of
        None \<Rightarrow> None
      | Some False \<Rightarrow> Some (t, Inr None)
      | Some True \<Rightarrow>
          (let i = partition_point (\<lambda>b. bm_first_key b \<le> key) (st_blocks t)
           in if i = 0 then Some (t, Inr None)
              else case read_block_cached X t (st_blocks t ! (i - 1)) of
                     (t, Inl e) \<Rightarrow> Some (t, Inl e)
                   | (t, Inr block) \<Rightarrow> Some (t, get_loop block key 0)))"

subsection \<open>Range reads\<close>

text \<open>The two loops of \<open>range\<close>; the flag is the early return.\<close>

function range_block ::
    "bytes option \<Rightarrow> bytes option \<Rightarrow> bytes \<Rightarrow> nat \<Rightarrow> entry list \<Rightarrow> storage_error + bool \<times> entry list" where
  "range_block start end block pos out =
     (if pos < length block then
        rbind (decode_entry block pos) (\<lambda>(entry, next).
          if (case start of Some s \<Rightarrow> fst entry < s | None \<Rightarrow> False) then range_block start end block next out
          else if (case end of Some e \<Rightarrow> fst entry \<ge> e | None \<Rightarrow> False) then Inr (True, out)
          else range_block start end block next (out @ [entry]))
      else Inr (False, out))"
  by pat_completeness auto
termination
  by (relation "measure (\<lambda>(start, end, block, pos, out). length block - pos)") (auto dest: progress)

fun range_blocks ::
    "externals \<Rightarrow> sstable \<Rightarrow> bytes option \<Rightarrow> bytes option \<Rightarrow> block_meta list \<Rightarrow> entry list \<Rightarrow> storage_error + entry list" where
  "range_blocks X t start end [] out = Inr out"
| "range_blocks X t start end (meta # metas) out =
     (if (case end of Some e \<Rightarrow> bm_first_key meta \<ge> e | None \<Rightarrow> False) then Inr out
      else rbind (read_block X t meta) (\<lambda>block.
           rbind (range_block start end block 0 out) (\<lambda>(returned, out).
           if returned then Inr out else range_blocks X t start end metas out)))"

definition seek_block :: "bytes option \<Rightarrow> sstable \<Rightarrow> nat" where
  "seek_block start t =
     (case start of
        Some s \<Rightarrow> partition_point (\<lambda>b. bm_first_key b \<le> s) (st_blocks t) - 1
      | None \<Rightarrow> 0)"

definition sst_range ::
    "externals \<Rightarrow> sstable \<Rightarrow> bytes option \<Rightarrow> bytes option \<Rightarrow> storage_error + entry list" where
  "sst_range X t start end =
     (let first = seek_block start t
      in range_blocks X t start end (drop (min first (length (st_blocks t))) (st_blocks t)) [])"

subsection \<open>Iterators\<close>

text \<open>
  Both iterators have the same state and the same \<open>next\<close>: load blocks until one has a byte left,
  then decode one item; an error poisons the iterator. They differ in the blocks they load and
  the decoder.
\<close>

record sst_iter_state =
  it_next_block :: nat
  it_block :: bytes
  it_pos :: nat

function iter_fill ::
    "(nat \<Rightarrow> storage_error + bytes) \<Rightarrow> nat \<Rightarrow> sst_iter_state \<Rightarrow> (storage_error + bool) \<times> sst_iter_state" where
  "iter_fill load n it =
     (if it_pos it < length (it_block it) then (Inr True, it)
      else if it_next_block it \<ge> n then (Inr False, it)
      else (case load (it_next_block it) of
              Inr block \<Rightarrow>
                iter_fill load n (it\<lparr>it_next_block := it_next_block it + 1, it_pos := 0, it_block := block\<rparr>)
            | Inl e \<Rightarrow> (Inl e, it\<lparr>it_next_block := n, it_pos := 0, it_block := []\<rparr>)))"
  by pat_completeness auto
termination
  by (relation "measure (\<lambda>(load, n, it). n - it_next_block it)") auto

definition iter_next ::
    "(nat \<Rightarrow> storage_error + bytes) \<Rightarrow> (bytes \<Rightarrow> nat \<Rightarrow> storage_error + 'a \<times> nat) \<Rightarrow> nat \<Rightarrow> sst_iter_state
      \<Rightarrow> (storage_error + 'a) option \<times> sst_iter_state" where
  "iter_next load dec n it =
     (case iter_fill load n it of
        (Inl e, it) \<Rightarrow> (Some (Inl e), it)
      | (Inr False, it) \<Rightarrow> (None, it)
      | (Inr True, it) \<Rightarrow>
          (case dec (it_block it) (it_pos it) of
             Inr (x, next) \<Rightarrow> (Some (Inr x), it\<lparr>it_pos := next\<rparr>)
           | Inl e \<Rightarrow> (Some (Inl e), it\<lparr>it_next_block := n, it_block := [], it_pos := 0\<rparr>)))"

definition iter_at :: "nat \<Rightarrow> sst_iter_state" where
  "iter_at first = \<lparr>it_next_block = first, it_block = [], it_pos = 0\<rparr>"

definition sst_iter_next :: "externals \<Rightarrow> sstable \<Rightarrow> sst_iter_state \<Rightarrow> (storage_error + entry) option \<times> sst_iter_state" where
  "sst_iter_next X t = iter_next (\<lambda>i. read_block X t (st_blocks t ! i)) decode_entry (length (st_blocks t))"

definition stamps_iter_next :: "externals \<Rightarrow> sstable \<Rightarrow> sst_iter_state \<Rightarrow> (storage_error + sst_stamp) option \<times> sst_iter_state" where
  "stamps_iter_next X t =
     (case st_stamps t of
        Some stamps \<Rightarrow> iter_next (read_stamp_block X t stamps) decode_stamp (length (st_blocks t))
      | None \<Rightarrow>
          iter_next (\<lambda>i. read_block X t (st_blocks t ! i)) decode_entry_stamp (length (st_blocks t)))"

text \<open>Every call of \<open>next\<close> that yields moves to a later block or further in the block.\<close>

definition iter_order :: "nat \<Rightarrow> (sst_iter_state \<times> sst_iter_state) set" where
  "iter_order n = inv_image (less_than <*lex*> less_than)
     (\<lambda>it. (n - it_next_block it, length (it_block it) - it_pos it))"

lemma wf_iter_order: "wf (iter_order n)"
  by (auto simp: iter_order_def)

declare iter_fill.simps [simp del]

lemma iter_fill_moves:
  assumes "iter_fill load n it = (r, it')" "r \<noteq> Inr False"
  shows "it' = it \<and> it_pos it < length (it_block it) \<and> r = Inr True \<or>
    n - it_next_block it' < n - it_next_block it \<and> (r = Inr True \<longrightarrow> it_pos it' < length (it_block it'))"
  using assms
proof (induction load n it rule: iter_fill.induct)
  case (1 load n it)
  show ?case
  proof (cases "it_pos it < length (it_block it) \<or> it_next_block it \<ge> n")
    case True
    then show ?thesis using "1.prems" by (auto simp: iter_fill.simps [of load n it] split: if_splits)
  next
    case False
    then show ?thesis
      using "1.prems" "1.IH" by (fastforce split: sum.splits simp: iter_fill.simps [of load n it])
  qed
qed

definition advances :: "(bytes \<Rightarrow> nat \<Rightarrow> 'e + 'a \<times> nat) \<Rightarrow> bool" where
  "advances dec \<longleftrightarrow> (\<forall>buf pos x p. dec buf pos = Inr (x, p) \<longrightarrow> pos < p \<and> p \<le> length buf)"

lemma advances_decoders: "advances decode_entry" "advances decode_stamp" "advances decode_entry_stamp"
  unfolding advances_def by (blast dest: progress)+

lemma iter_next_decreases:
  assumes "advances dec" and "iter_next load dec n it = (Some r, it')"
  shows "(it', it) \<in> iter_order n"
proof -
  obtain f it1 where fill: "iter_fill load n it = (f, it1)" by fastforce
  then have "f \<noteq> Inr False" using assms(2) by (auto simp: iter_next_def)
  note moves = iter_fill_moves [OF fill this]
  show ?thesis
  proof (cases "f = Inr True")
    case True
    then show ?thesis
      using moves assms fill
      by (auto simp: iter_next_def iter_order_def advances_def split: sum.splits) (metis diff_less_mono2 order_less_le_trans)+
  next
    case False
    then have "it' = it1" using \<open>f \<noteq> Inr False\<close> assms(2) fill by (auto simp: iter_next_def split: sum.splits)
    then show ?thesis using False moves by (auto simp: iter_order_def)
  qed
qed

text \<open>The items an iterator yields until it returns \<open>None\<close>.\<close>

function sst_items :: "externals \<Rightarrow> sstable \<Rightarrow> sst_iter_state \<Rightarrow> (storage_error + entry) list" where
  "sst_items X t it =
     (case sst_iter_next X t it of (None, it') \<Rightarrow> [] | (Some r, it') \<Rightarrow> r # sst_items X t it')"
  by pat_completeness auto
termination
proof (relation "inv_image (less_than <*lex*> less_than) (\<lambda>(X, t, it).
    (length (st_blocks t) - it_next_block it, length (it_block it) - it_pos it))", goal_cases)
  case (2 X t it x1 it' r)
  then have "(it', it) \<in> iter_order (length (st_blocks t))"
    using iter_next_decreases [OF advances_decoders(1)] by (metis sst_iter_next_def)
  then show ?case by (simp add: iter_order_def)
qed auto

function stamps_items :: "externals \<Rightarrow> sstable \<Rightarrow> sst_iter_state \<Rightarrow> (storage_error + sst_stamp) list" where
  "stamps_items X t it =
     (case stamps_iter_next X t it of (None, it') \<Rightarrow> [] | (Some r, it') \<Rightarrow> r # stamps_items X t it')"
  by pat_completeness auto
termination
proof (relation "inv_image (less_than <*lex*> less_than) (\<lambda>(X, t, it).
    (length (st_blocks t) - it_next_block it, length (it_block it) - it_pos it))", goal_cases)
  case (2 X t it x1 it' r)
  have "(it', it) \<in> iter_order (length (st_blocks t))"
  proof (cases "st_stamps t")
    case None
    then show ?thesis
      using 2 iter_next_decreases [OF advances_decoders(3)] by (simp add: stamps_iter_next_def) metis
  next
    case (Some s)
    then show ?thesis
      using 2 iter_next_decreases [OF advances_decoders(2)] by (simp add: stamps_iter_next_def) metis
  qed
  then show ?case by (simp add: iter_order_def)
qed auto

declare get_loop.simps [simp del] range_block.simps [simp del] sst_items.simps [simp del] stamps_items.simps [simp del]

definition sst_iter :: "externals \<Rightarrow> sstable \<Rightarrow> (storage_error + entry) list" where
  "sst_iter X t = sst_items X t (iter_at 0)"

definition sst_iter_from :: "externals \<Rightarrow> sstable \<Rightarrow> bytes \<Rightarrow> (storage_error + entry) list" where
  "sst_iter_from X t start = sst_items X t (iter_at (seek_block (Some start) t))"

definition stamps_iter_from :: "externals \<Rightarrow> sstable \<Rightarrow> bytes option \<Rightarrow> (storage_error + sst_stamp) list" where
  "stamps_iter_from X t start = stamps_items X t (iter_at (seek_block start t))"

text \<open>\<open>for x in it { out.push(x?) }\<close>\<close>

fun collect_ok :: "('e + 'a) list \<Rightarrow> 'e + 'a list" where
  "collect_ok [] = Inr []"
| "collect_ok (x # xs) = rbind x (\<lambda>y. rbind (collect_ok xs) (\<lambda>ys. Inr (y # ys)))"

definition sst_entries :: "externals \<Rightarrow> sstable \<Rightarrow> storage_error + entry list" where
  "sst_entries X t = collect_ok (sst_iter X t)"

fun count_versions :: "(storage_error + entry) list \<Rightarrow> u64 \<times> u64 \<Rightarrow> u64 \<times> u64" where
  "count_versions [] c = c"
| "count_versions (Inr (k, h, Delete) # rows) (puts, dels) = count_versions rows (puts, dels + 1)"
| "count_versions (Inr (k, h, Put v) # rows) (puts, dels) = count_versions rows (puts + 1, dels)"
| "count_versions (Inl e # rows) c = count_versions rows c"

definition version_counts :: "externals \<Rightarrow> sstable \<Rightarrow> sstable \<times> u64 \<times> u64" where
  "version_counts X t =
     (case st_version_counts t of
        Some c \<Rightarrow> (t, c)
      | None \<Rightarrow>
          (let c = count_versions (sst_iter X t) (0, 0)
           in (t\<lparr>st_version_counts := Some c\<rparr>, c)))"

end
