(* ===== verification/Engine.thy ===== *)
theory Engine
  imports Manifest Read_Cache Kway_Merge Wal Sstable
begin

text \<open>
  The log-structured engine (\<open>crates/skaidb-storage/src/engine.rs\<close>): definitions only. The state is
  the record \<open>engine\<close>; it carries the \<open>sst\<close> directory it writes to (\<open>en_disk\<close>), while the log files are
  part of the log's own state. An operation maps the state to an \<open>outcome\<close>: a value, an error with the
  state it leaves behind, or a panic. The wall clock, the random bytes and the fate of the sidecar
  files are arguments (\<open>engine_env\<close>); one operation sees one wall clock value. Sizes of type \<open>usize\<close>
  are natural numbers, counters of type \<open>u64\<close> are words.
\<close>

section \<open>State\<close>

record engine_options =
  op_flush_threshold_bytes :: nat
  op_l0_compaction_trigger :: nat
  op_level1_capacity :: u64
  op_compression :: codec
  op_bottom_compression :: codec
  op_read_cache_capacity :: nat
  op_read_cache_bytes :: nat
  op_ephemeral :: bool
  op_kek :: "kek option"
  op_at_rest_enabled :: bool
  op_scan_row_budget :: nat
  op_scan_byte_budget :: nat
  op_defer_search_startup :: bool
  op_statement_timeout_secs :: u64
  op_search_writer_heap_bytes :: nat
  op_ts_head_max_bytes :: u64

definition engine_options_default :: engine_options where
  "engine_options_default =
     \<lparr>op_flush_threshold_bytes = 32 * 1024 * 1024, op_l0_compaction_trigger = 4,
      op_level1_capacity = 1024, op_compression = Lz4, op_bottom_compression = Lz4,
      op_read_cache_capacity = 16384, op_read_cache_bytes = 16384 * 4096,
      op_ephemeral = False, op_kek = None, op_at_rest_enabled = False,
      op_scan_row_budget = 250000, op_scan_byte_budget = 256 * 1024 * 1024,
      op_defer_search_startup = False, op_statement_timeout_secs = 120,
      op_search_writer_heap_bytes = 64 * 1024 * 1024, op_ts_head_max_bytes = 0\<rparr>"

text \<open>An open table with the file name that is the last component of its path.\<close>

record table =
  tb_path :: string
  tb_sst :: sstable

record disk =
  dk_files :: "string \<Rightarrow> bytes option"
  dk_manifest :: "string option"

record frozen_mem =
  fm_mem :: memtable
  fm_wal_seq :: u64
  fm_max_hlc :: "hlc option"
  fm_building :: bool

record flush_job =
  fj_mem :: memtable
  fj_path :: string
  fj_codec :: codec
  fj_wal_seq :: u64
  fj_kek :: "kek option"
  fj_encrypt_new :: bool

record compact_job =
  cj_inputs :: "string list"
  cj_output :: string
  cj_deepest :: bool
  cj_codec :: codec
  cj_expire_before :: "u64 option"
  cj_tombstone_keep_after :: u64
  cj_kek :: "kek option"
  cj_encrypt_new :: bool

record engine =
  en_wal :: wal
  en_mem :: memtable
  en_frozen :: "frozen_mem list"
  en_next_wal_seq :: u64
  en_write_seq :: u64
  en_clock :: hlc_clock
  en_ttl_ms :: "u64 option"
  en_tombstone_retention_ms :: u64
  en_opts :: engine_options
  en_l0 :: "table list"
  en_levels :: "table list"
  en_next_seq :: u64
  en_read_cache :: read_cache
  en_compactions :: u64
  en_compaction_bytes :: u64
  en_sst_negative_lookups :: u64
  en_maint_watermark :: hlc
  en_disk :: disk

record engine_env =
  ev_wall :: u64
  ev_wal_rng :: "u64 \<Rightarrow> bytes option \<times> bytes option"
  ev_sst_rng :: "string \<Rightarrow> bytes option \<times> bytes option"
  ev_sidecar :: "string \<Rightarrow> sidecar_env"

text \<open>
  \<open>Untracked\<close> is an error of the log while it is being rotated or truncated: the error is returned,
  and the half-changed log it leaves behind is not modelled.
\<close>

datatype 'a outcome = Done 'a engine | Fail storage_error engine | Untracked storage_error | Panic

fun obind :: "'a outcome \<Rightarrow> ('a \<Rightarrow> engine \<Rightarrow> 'b outcome) \<Rightarrow> 'b outcome" where
  "obind (Done x e) f = f x e"
| "obind (Fail err e) f = Fail err e"
| "obind (Untracked err) f = Untracked err"
| "obind Panic f = Panic"

section \<open>Files\<close>

definition stamps_path :: "string \<Rightarrow> string" where
  "stamps_path p = p @ ''.stamps''"

definition remove_file :: "string \<Rightarrow> disk \<Rightarrow> disk" where
  "remove_file p d = d\<lparr>dk_files := (dk_files d)(p := None, stamps_path p := None)\<rparr>"

definition remove_files :: "string list \<Rightarrow> disk \<Rightarrow> disk" where
  "remove_files ps d = fold remove_file ps d"

definition open_table :: "externals \<Rightarrow> disk \<Rightarrow> kek option \<Rightarrow> string \<Rightarrow> storage_error + table" where
  "open_table X d kek p =
     (case dk_files d p of
        None \<Rightarrow> Inl (Io ''NotFound'')
      | Some f \<Rightarrow> rbind (sst_open X kek f (dk_files d (stamps_path p))) (\<lambda>t. Inr \<lparr>tb_path = p, tb_sst = t\<rparr>))"

text \<open>
  A table written under a new name. A build that fails leaves its partial file behind; no manifest
  ever names it, and it is not represented.
\<close>

definition write_table ::
    "externals \<Rightarrow> engine_env \<Rightarrow> string \<Rightarrow> (storage_error + entry) list \<Rightarrow> nat \<Rightarrow> codec \<Rightarrow> kek option \<Rightarrow> disk
     \<Rightarrow> ((storage_error + table) \<times> disk) option" where
  "write_table X env p items expected codec enc d =
     (case ev_sst_rng env p of (rk, rn) \<Rightarrow>
      case write_stream X rk rn (ev_sidecar env p) items expected codec enc of
        None \<Rightarrow> None
      | Some (Inl err) \<Rightarrow> Some (Inl err, d)
      | Some (Inr (t, sidecar)) \<Rightarrow>
          Some (Inr \<lparr>tb_path = p, tb_sst = t\<rparr>,
                d\<lparr>dk_files := (dk_files d)(p := Some (st_file t), stamps_path p := sidecar)\<rparr>))"

section \<open>Small helpers of the code\<close>

definition version_to_value :: "version_value \<Rightarrow> bytes option" where
  "version_to_value v = (case v of Put bytes \<Rightarrow> Some bytes | Delete \<Rightarrow> None)"

definition saturating_sub :: "u64 \<Rightarrow> u64 \<Rightarrow> u64" where
  "saturating_sub a b = (if b \<le> a then a - b else 0)"

definition row_expired :: "u64 option \<Rightarrow> u64 \<Rightarrow> hlc \<Rightarrow> bool" where
  "row_expired ttl_ms wall h =
     (case ttl_ms of Some ttl \<Rightarrow> saturating_sub wall (physical h) > ttl | None \<Rightarrow> False)"

definition is_expired :: "engine_env \<Rightarrow> engine \<Rightarrow> hlc \<Rightarrow> bool" where
  "is_expired env e h = row_expired (en_ttl_ms e) (ev_wall env) h"

text \<open>\<open>prefix_upper_bound\<close>, on the reversed prefix: the loop pops trailing \<open>0xFF\<close> bytes.\<close>

fun upper_bound_loop :: "bytes \<Rightarrow> bytes option" where
  "upper_bound_loop [] = None"
| "upper_bound_loop (b # front) =
     (if b < 0xFF then Some (rev ((b + 1) # front)) else upper_bound_loop front)"

definition prefix_upper_bound :: "bytes \<Rightarrow> bytes option" where
  "prefix_upper_bound prefix = upper_bound_loop (rev prefix)"

definition sstables_newest_first :: "engine \<Rightarrow> table list" where
  "sstables_newest_first e = en_l0 e @ en_levels e"

definition sstable_count :: "engine \<Rightarrow> nat" where
  "sstable_count e = length (en_l0 e) + length (en_levels e)"

definition codec_for :: "engine \<Rightarrow> bool \<Rightarrow> codec" where
  "codec_for e deepest =
     (if deepest then op_bottom_compression (en_opts e) else op_compression (en_opts e))"

definition next_table_path :: "engine \<Rightarrow> string \<times> engine" where
  "next_table_path e = (table_name (en_next_seq e), e\<lparr>en_next_seq := en_next_seq e + 1\<rparr>)"

definition persist_manifest :: "engine \<Rightarrow> engine" where
  "persist_manifest e =
     e\<lparr>en_disk := (en_disk e)\<lparr>dk_manifest :=
        Some (manifest_text (map tb_path (en_l0 e)) (map tb_path (en_levels e)))\<rparr>\<rparr>"

section \<open>Opening\<close>

text \<open>The loop of \<open>load_manifest\<close>: level 0, the deeper tables with their levels, the next sequence number.\<close>

fun load_lines ::
    "externals \<Rightarrow> disk \<Rightarrow> kek option \<Rightarrow> string list \<Rightarrow> table list \<Rightarrow> (nat \<times> table) list \<Rightarrow> u64
     \<Rightarrow> storage_error + table list \<times> (nat \<times> table) list \<times> u64" where
  "load_lines X d kek [] l0 leveled max_seq = Inr (l0, leveled, max_seq)"
| "load_lines X d kek (line # lines) l0 leveled max_seq =
     rbind (parse_line line) (\<lambda>parsed.
       case parsed of
         None \<Rightarrow> load_lines X d kek lines l0 leveled max_seq
       | Some (level, name) \<Rightarrow>
           (let max_seq = (case table_seq name of Some seq \<Rightarrow> max max_seq (seq + 1) | None \<Rightarrow> max_seq)
            in rbind (open_table X d kek name) (\<lambda>t.
                 if level = 0 then load_lines X d kek lines (l0 @ [t]) leveled max_seq
                 else load_lines X d kek lines l0 (leveled @ [(level, t)]) max_seq)))"

definition load_manifest :: "externals \<Rightarrow> disk \<Rightarrow> kek option \<Rightarrow> storage_error + table list \<times> table list \<times> u64" where
  "load_manifest X d kek =
     (case dk_manifest d of
        None \<Rightarrow> Inr ([], [], 0)
      | Some text \<Rightarrow>
          rbind (load_lines X d kek (str_lines [] text) [] [] 0) (\<lambda>(l0, leveled, max_seq).
          Inr (l0, map snd (sort_key fst leveled), max_seq)))"

text \<open>The directory of an engine: its log file (empty when there is none), log segments and tables.\<close>

record directory =
  di_wal_log :: bytes
  di_segs :: "(u64, bytes) btree"
  di_disk :: disk

definition empty_disk :: disk where
  "empty_disk = \<lparr>dk_files = (\<lambda>_. None), dk_manifest = None\<rparr>"

definition WAL_PREALLOC_CHUNK_BYTES :: u64 where
  "WAL_PREALLOC_CHUNK_BYTES = 1024 * 1024"

definition version_of_op :: "wal_op \<Rightarrow> version_value" where
  "version_of_op op = (case op of WalPut bytes \<Rightarrow> Put bytes | WalDelete \<Rightarrow> Delete)"

fun replay_records :: "wal_record list \<Rightarrow> memtable \<Rightarrow> hlc \<Rightarrow> memtable \<times> hlc" where
  "replay_records [] mem max_hlc = (mem, max_hlc)"
| "replay_records (r # rs) mem max_hlc =
     replay_records rs (mt_insert (wr_key r) (wr_hlc r) (version_of_op (wr_op r)) mem) (max max_hlc (wr_hlc r))"

definition open_with_options ::
    "externals \<Rightarrow> engine_env \<Rightarrow> directory \<Rightarrow> engine_options \<Rightarrow> storage_error + engine" where
  "open_with_options X env dir opts =
     (let d = (if op_ephemeral opts then empty_disk else di_disk dir)
      in rbind (if op_ephemeral opts then Inr (wal_open_ephemeral (di_segs dir), [])
                else (let chunk = min (of_nat (op_flush_threshold_bytes opts)) WAL_PREALLOC_CHUNK_BYTES
                      in case ev_wal_rng env 0 of (rk, rn) \<Rightarrow>
                         wal_open X (di_wal_log dir) (di_segs dir) chunk (op_kek opts)
                           (op_at_rest_enabled opts) rk rn)) (\<lambda>(wal, records).
         case replay_records records mt_new hlc_MIN of (mem, max_hlc) \<Rightarrow>
         rbind (if op_ephemeral opts then Inr ([], [], 0) else load_manifest X d (op_kek opts))
           (\<lambda>(l0, levels, next_seq).
         let clock = (if max_hlc > hlc_MIN then fst (clock_observe (ev_wall env) max_hlc hlc_clock_new)
                      else hlc_clock_new)
         in Inr \<lparr>en_wal = wal, en_mem = mem, en_frozen = [], en_next_wal_seq = 1, en_write_seq = 0,
                 en_clock = clock, en_ttl_ms = None, en_tombstone_retention_ms = 0, en_opts = opts,
                 en_l0 = l0, en_levels = levels, en_next_seq = next_seq,
                 en_read_cache = rc_new (op_read_cache_capacity opts) (op_read_cache_bytes opts),
                 en_compactions = 0, en_compaction_bytes = 0, en_sst_negative_lookups = 0,
                 en_maint_watermark = hlc_MAX, en_disk = d\<rparr>)))"

text \<open>What is in the directory while the engine runs, and what a restart finds there.\<close>

definition on_disk :: "engine \<Rightarrow> directory" where
  "on_disk e = \<lparr>di_wal_log = ws_file (wal_sync (en_wal e)), di_segs = wal_segs (en_wal e), di_disk = en_disk e\<rparr>"

definition engine_open :: "externals \<Rightarrow> engine_env \<Rightarrow> directory \<Rightarrow> storage_error + engine" where
  "engine_open X env dir = open_with_options X env dir engine_options_default"

definition open_with :: "externals \<Rightarrow> engine_env \<Rightarrow> directory \<Rightarrow> nat \<Rightarrow> storage_error + engine" where
  "open_with X env dir threshold =
     open_with_options X env dir (engine_options_default\<lparr>op_flush_threshold_bytes := threshold\<rparr>)"

section \<open>Settings\<close>

definition has_ttl :: "engine \<Rightarrow> bool" where
  "has_ttl e \<longleftrightarrow> en_ttl_ms e \<noteq> None"

definition set_ttl :: "u64 option \<Rightarrow> engine \<Rightarrow> engine" where
  "set_ttl ttl_ms e = e\<lparr>en_ttl_ms := ttl_ms\<rparr>"

definition set_tombstone_retention_ms :: "u64 \<Rightarrow> engine \<Rightarrow> engine" where
  "set_tombstone_retention_ms ms e = e\<lparr>en_tombstone_retention_ms := ms\<rparr>"

definition clear_read_cache :: "engine \<Rightarrow> engine" where
  "clear_read_cache e = e\<lparr>en_read_cache :=
     rc_new (op_read_cache_capacity (en_opts e)) (op_read_cache_bytes (en_opts e))\<rparr>"

definition set_maintenance_watermark :: "hlc \<Rightarrow> engine \<Rightarrow> engine" where
  "set_maintenance_watermark h e =
     (if en_maint_watermark e = hlc_MAX \<or> h > en_maint_watermark e then e\<lparr>en_maint_watermark := h\<rparr> else e)"

definition needs_flush :: "engine \<Rightarrow> bool" where
  "needs_flush e \<longleftrightarrow> mt_approx_bytes (en_mem e) \<ge> op_flush_threshold_bytes (en_opts e)"

definition memtable_bytes :: "engine \<Rightarrow> nat" where
  "memtable_bytes e = mt_approx_bytes (en_mem e)"

definition mem_versions :: "engine \<Rightarrow> entry list" where
  "mem_versions e = mt_iter_versions (en_mem e)"

section \<open>Point reads\<close>

text \<open>The loop over the tables, newest first: each probed table may fill its block cache.\<close>

fun probe_tables ::
    "externals \<Rightarrow> bytes \<Rightarrow> table list \<Rightarrow> (table list \<times> (storage_error + (hlc \<times> version_value) option)) option" where
  "probe_tables X key [] = Some ([], Inr None)"
| "probe_tables X key (t # ts) =
     (case sst_get X (tb_sst t) key of
        None \<Rightarrow> None
      | Some (s, Inl err) \<Rightarrow> Some (t\<lparr>tb_sst := s\<rparr> # ts, Inl err)
      | Some (s, Inr (Some hv)) \<Rightarrow> Some (t\<lparr>tb_sst := s\<rparr> # ts, Inr (Some hv))
      | Some (s, Inr None) \<Rightarrow>
          (case probe_tables X key ts of
             None \<Rightarrow> None
           | Some (ts', r) \<Rightarrow> Some (t\<lparr>tb_sst := s\<rparr> # ts', r)))"

definition set_tables :: "table list \<Rightarrow> engine \<Rightarrow> engine" where
  "set_tables ts e = e\<lparr>en_l0 := take (length (en_l0 e)) ts, en_levels := drop (length (en_l0 e)) ts\<rparr>"

definition find_flushed :: "externals \<Rightarrow> bytes \<Rightarrow> engine \<Rightarrow> (hlc \<times> version_value) option outcome" where
  "find_flushed X key e =
     (case probe_tables X key (sstables_newest_first e) of
        None \<Rightarrow> Panic
      | Some (ts, Inl err) \<Rightarrow> Fail err (set_tables ts e)
      | Some (ts, Inr r) \<Rightarrow> Done r (set_tables ts e))"

text \<open>The first hit of a reader over the memtables, newest first.\<close>

fun first_hit :: "('a \<Rightarrow> 'b option) \<Rightarrow> 'a list \<Rightarrow> 'b option" where
  "first_hit f [] = None"
| "first_hit f (x # xs) = (case f x of Some y \<Rightarrow> Some y | None \<Rightarrow> first_hit f xs)"

definition memtables :: "engine \<Rightarrow> memtable list" where
  "memtables e = en_mem e # map fm_mem (rev (en_frozen e))"

definition get_versioned :: "externals \<Rightarrow> bytes \<Rightarrow> engine \<Rightarrow> (hlc \<times> version_value) option outcome" where
  "get_versioned X key e =
     (case first_hit (\<lambda>m. mt_get_entry_versioned m key) (memtables e) of
        Some hv \<Rightarrow> Done (Some hv) e
      | None \<Rightarrow>
          (case rc_get key (en_read_cache e) of
             (c, Some cached) \<Rightarrow> Done cached (e\<lparr>en_read_cache := c\<rparr>)
           | (c, None) \<Rightarrow>
               obind (find_flushed X key (e\<lparr>en_read_cache := c\<rparr>)) (\<lambda>found e.
               Done found
                 (e\<lparr>en_sst_negative_lookups := en_sst_negative_lookups e + (if found = None then 1 else 0),
                    en_read_cache := rc_insert key found (en_read_cache e)\<rparr>))))"

definition engine_get :: "externals \<Rightarrow> engine_env \<Rightarrow> bytes \<Rightarrow> engine \<Rightarrow> bytes option outcome" where
  "engine_get X env key e =
     obind (get_versioned X key e) (\<lambda>r e.
     Done (case r of
             Some (h, value) \<Rightarrow> if is_expired env e h then None else version_to_value value
           | None \<Rightarrow> None) e)"

text \<open>
  One memtable of \<open>get_as_of\<close>: \<open>None\<close> when it has no version of the key at all, otherwise the value
  the function returns.
\<close>

definition mem_as_of :: "bytes \<Rightarrow> hlc \<Rightarrow> memtable \<Rightarrow> bytes option option" where
  "mem_as_of key as_of m =
     (case mt_get_as_of m key as_of of
        Some v \<Rightarrow> Some (Some v)
      | None \<Rightarrow> if mt_get_entry m key \<noteq> None then Some None else None)"

definition get_as_of :: "externals \<Rightarrow> bytes \<Rightarrow> hlc \<Rightarrow> engine \<Rightarrow> bytes option outcome" where
  "get_as_of X key as_of e =
     (case first_hit (mem_as_of key as_of) (memtables e) of
        Some r \<Rightarrow> Done r e
      | None \<Rightarrow>
          obind (find_flushed X key e) (\<lambda>found e.
          Done (case found of
                  Some (h, value) \<Rightarrow> if h \<le> as_of then version_to_value value else None
                | None \<Rightarrow> None) e))"

definition get_flushed :: "externals \<Rightarrow> engine_env \<Rightarrow> bytes \<Rightarrow> engine \<Rightarrow> bytes option outcome" where
  "get_flushed X env key e =
     obind (find_flushed X key e) (\<lambda>found e.
     Done (case found of
             Some (h, value) \<Rightarrow> if is_expired env e h then None else version_to_value value
           | None \<Rightarrow> None) e)"

section \<open>Scans\<close>

text \<open>
  A scan borrows the engine and leaves it unchanged. An iterator is the list of the items it yields;
  the streaming variants return that list, the collecting ones stop at the first error.
\<close>

definition mem_sources :: "(memtable \<Rightarrow> entry list) \<Rightarrow> engine \<Rightarrow> merge_source list" where
  "mem_sources f e = map (\<lambda>m. map Inr (f m)) (memtables e)"

definition merged_iter :: "externals \<Rightarrow> engine \<Rightarrow> (storage_error + entry) list" where
  "merged_iter X e =
     merge_all (mem_sources mt_iter_latest_lazy e @
       map (\<lambda>t. sst_iter X (tb_sst t)) (sstables_newest_first e))"

text \<open>The closures of the scans: one live row, one live row with its stamp, one row with tombstones.\<close>

definition live_row :: "engine_env \<Rightarrow> engine \<Rightarrow> storage_error + entry \<Rightarrow> (storage_error + bytes \<times> bytes) option" where
  "live_row env e item =
     (case item of
        Inr (k, h, Put bytes) \<Rightarrow> if is_expired env e h then None else Some (Inr (k, bytes))
      | Inr (_, _, Delete) \<Rightarrow> None
      | Inl err \<Rightarrow> Some (Inl err))"

definition versioned_row ::
    "engine_env \<Rightarrow> engine \<Rightarrow> storage_error + entry \<Rightarrow> (storage_error + bytes \<times> bytes \<times> hlc) option" where
  "versioned_row env e item =
     (case item of
        Inr (k, h, Put bytes) \<Rightarrow> if is_expired env e h then None else Some (Inr (k, bytes, h))
      | Inr (_, _, Delete) \<Rightarrow> None
      | Inl err \<Rightarrow> Some (Inl err))"

definition tombstone_row :: "storage_error + entry \<Rightarrow> storage_error + bytes \<times> hlc \<times> bytes option" where
  "tombstone_row item =
     (case item of
        Inr (k, h, Put bytes) \<Rightarrow> Inr (k, h, Some bytes)
      | Inr (k, h, Delete) \<Rightarrow> Inr (k, h, None)
      | Inl err \<Rightarrow> Inl err)"

definition scan_iter :: "externals \<Rightarrow> engine_env \<Rightarrow> engine \<Rightarrow> (storage_error + bytes \<times> bytes) list" where
  "scan_iter X env e = List.map_filter (live_row env e) (merged_iter X e)"

definition scan :: "externals \<Rightarrow> engine_env \<Rightarrow> engine \<Rightarrow> storage_error + (bytes \<times> bytes) list" where
  "scan X env e = collect_ok (scan_iter X env e)"

definition scan_versioned_iter ::
    "externals \<Rightarrow> engine_env \<Rightarrow> engine \<Rightarrow> (storage_error + bytes \<times> bytes \<times> hlc) list" where
  "scan_versioned_iter X env e = List.map_filter (versioned_row env e) (merged_iter X e)"

definition scan_versioned ::
    "externals \<Rightarrow> engine_env \<Rightarrow> engine \<Rightarrow> storage_error + (bytes \<times> bytes \<times> hlc) list" where
  "scan_versioned X env e = collect_ok (scan_versioned_iter X env e)"

definition scan_versioned_with_tombstones_iter ::
    "externals \<Rightarrow> engine \<Rightarrow> (storage_error + bytes \<times> hlc \<times> bytes option) list" where
  "scan_versioned_with_tombstones_iter X e = map tombstone_row (merged_iter X e)"

definition scan_versioned_with_tombstones ::
    "externals \<Rightarrow> engine \<Rightarrow> storage_error + (bytes \<times> hlc \<times> bytes option) list" where
  "scan_versioned_with_tombstones X e = collect_ok (scan_versioned_with_tombstones_iter X e)"

subsection \<open>Pages\<close>

definition past_cursor :: "bytes option \<Rightarrow> storage_error + entry \<Rightarrow> bool" where
  "past_cursor after item =
     (case (item, after) of (Inr (k, _, _), Some a) \<Rightarrow> k > a | _ \<Rightarrow> True)"

definition scan_versioned_page ::
    "externals \<Rightarrow> bytes option \<Rightarrow> nat \<Rightarrow> engine \<Rightarrow> storage_error + (bytes \<times> hlc \<times> bytes option) list" where
  "scan_versioned_page X after limit e =
     (let sources = mem_sources (\<lambda>m. mt_range_latest_page m after limit) e @
            map (\<lambda>t. case after of Some a \<Rightarrow> sst_iter_from X (tb_sst t) a | None \<Rightarrow> sst_iter X (tb_sst t))
              (sstables_newest_first e)
      in collect_ok (map tombstone_row (take limit (filter (past_cursor after) (merge_all sources)))))"

definition strip_value :: "entry \<Rightarrow> entry" where
  "strip_value x = (case x of (k, h, v) \<Rightarrow> (k, h, case v of Put _ \<Rightarrow> Put [] | Delete \<Rightarrow> Delete))"

definition stamp_marker :: "storage_error + sst_stamp \<Rightarrow> storage_error + entry" where
  "stamp_marker item =
     (case item of
        Inr (k, h, is_put) \<Rightarrow> Inr (k, h, if is_put then Put [] else Delete)
      | Inl err \<Rightarrow> Inl err)"

definition stamp_row :: "storage_error + entry \<Rightarrow> storage_error + bytes \<times> hlc \<times> bool" where
  "stamp_row item =
     (case item of Inr (k, h, v) \<Rightarrow> Inr (k, h, case v of Put _ \<Rightarrow> True | Delete \<Rightarrow> False) | Inl err \<Rightarrow> Inl err)"

definition scan_stamps_page ::
    "externals \<Rightarrow> bytes option \<Rightarrow> nat \<Rightarrow> engine \<Rightarrow> storage_error + (bytes \<times> hlc \<times> bool) list" where
  "scan_stamps_page X after limit e =
     (let sources = mem_sources (\<lambda>m. map strip_value (mt_range_latest_page m after limit)) e @
            map (\<lambda>t. map stamp_marker (stamps_iter_from X (tb_sst t) after)) (sstables_newest_first e)
      in collect_ok (map stamp_row (take limit (filter (past_cursor after) (merge_all sources)))))"

subsection \<open>Ranges\<close>

text \<open>The range scans of the memtables, in order; one that panics ends the read.\<close>

fun mem_ranges :: "bytes option \<Rightarrow> bytes option \<Rightarrow> memtable list \<Rightarrow> entry list list option" where
  "mem_ranges start end [] = Some []"
| "mem_ranges start end (m # ms) =
     Option.bind (mt_range_latest m start end) (\<lambda>es. map_option ((#) es) (mem_ranges start end ms))"

text \<open>
  The sources of the range reads: first the memtables, then the tables. A table's entries are
  collected, so its error returns before the merge begins.
\<close>

definition range_sources ::
    "externals \<Rightarrow> bytes option \<Rightarrow> bytes option \<Rightarrow> engine \<Rightarrow> (storage_error + merge_source list) option" where
  "range_sources X start end e =
     pbind (or_panic (mem_ranges start end (memtables e))) (\<lambda>mems.
     pbind (Some (collect_ok (map (\<lambda>t. sst_range X (tb_sst t) start end) (sstables_newest_first e)))) (\<lambda>ess.
     Some (Inr (map (map Inr) mems @ map (map Inr) ess))))"

definition scan_versioned_range ::
    "externals \<Rightarrow> bytes option \<Rightarrow> bytes option \<Rightarrow> nat \<Rightarrow> engine
     \<Rightarrow> (storage_error + (bytes \<times> hlc \<times> bytes option) list) option" where
  "scan_versioned_range X start end limit e =
     pbind (range_sources X start end e) (\<lambda>sources.
     Some (collect_ok (map tombstone_row (take limit (merge_all sources)))))"

definition scan_range ::
    "externals \<Rightarrow> engine_env \<Rightarrow> bytes option \<Rightarrow> bytes option \<Rightarrow> engine
     \<Rightarrow> (storage_error + (bytes \<times> bytes) list) option" where
  "scan_range X env start end e =
     pbind (range_sources X start end e) (\<lambda>sources.
     Some (collect_ok (List.map_filter (live_row env e) (merge_all sources))))"

definition scan_prefix ::
    "externals \<Rightarrow> engine_env \<Rightarrow> bytes \<Rightarrow> engine \<Rightarrow> (storage_error + (bytes \<times> bytes) list) option" where
  "scan_prefix X env prefix e = scan_range X env (Some prefix) (prefix_upper_bound prefix) e"

definition before_start :: "bytes option \<Rightarrow> storage_error + entry \<Rightarrow> bool" where
  "before_start start item =
     (case (item, start) of (Inr (k, _, _), Some s) \<Rightarrow> k < s | _ \<Rightarrow> False)"

definition before_end :: "bytes option \<Rightarrow> storage_error + entry \<Rightarrow> bool" where
  "before_end end item = (case (item, end) of (Inr (k, _, _), Some b) \<Rightarrow> k < b | _ \<Rightarrow> True)"

definition scan_range_iter ::
    "externals \<Rightarrow> engine_env \<Rightarrow> bytes option \<Rightarrow> bytes option \<Rightarrow> engine
     \<Rightarrow> (storage_error + bytes \<times> bytes) list option" where
  "scan_range_iter X env start end e =
     map_option (\<lambda>mems.
       let sources = map (map Inr) mems @
            map (\<lambda>t. takeWhile (before_end end) (dropWhile (before_start start)
                   (case start of Some s \<Rightarrow> sst_iter_from X (tb_sst t) s | None \<Rightarrow> sst_iter X (tb_sst t))))
              (sstables_newest_first e)
       in List.map_filter (live_row env e) (merge_all sources))
     (mem_ranges start end (memtables e))"

subsection \<open>Counts\<close>

fun count_puts :: "(storage_error + entry) list \<Rightarrow> nat \<Rightarrow> storage_error + nat" where
  "count_puts [] n = Inr n"
| "count_puts (Inl err # items) n = Inl err"
| "count_puts (Inr (_, _, Put _) # items) n = count_puts items (n + 1)"
| "count_puts (Inr (_, _, Delete) # items) n = count_puts items n"

definition count_range ::
    "externals \<Rightarrow> bytes option \<Rightarrow> bytes option \<Rightarrow> engine \<Rightarrow> (storage_error + nat) option" where
  "count_range X start end e =
     pbind (range_sources X start end e) (\<lambda>sources. Some (count_puts (merge_all sources) 0))"

text \<open>
  The raw bound of \<open>count_range_at_most\<close>: the loop over the frozen memtables and the loops over the
  tables and their items. An inner \<open>None\<close> is the early return of \<open>cap + 1\<close>; the outer one of the loop
  over the memtables is the panic of a range scan.
\<close>

fun raw_frozen ::
    "bytes option \<Rightarrow> bytes option \<Rightarrow> nat \<Rightarrow> frozen_mem list \<Rightarrow> nat \<Rightarrow> nat option option" where
  "raw_frozen start end cap [] raw = Some (if raw > cap then None else Some raw)"
| "raw_frozen start end cap (f # fs) raw =
     (if raw > cap then Some None
      else Option.bind (mt_range_latest (fm_mem f) start end) (\<lambda>es.
           raw_frozen start end cap fs (raw + length es)))"

fun raw_items ::
    "bytes option \<Rightarrow> bytes option \<Rightarrow> nat \<Rightarrow> (storage_error + entry) list \<Rightarrow> nat \<Rightarrow> storage_error + nat option" where
  "raw_items start end cap [] raw = Inr (Some raw)"
| "raw_items start end cap (Inl err # items) raw = Inl err"
| "raw_items start end cap (Inr (key, _) # items) raw =
     (if (case end of Some b \<Rightarrow> key \<ge> b | None \<Rightarrow> False) then Inr (Some raw)
      else if \<not> in_range start end key then raw_items start end cap items raw
      else if raw + 1 > cap then Inr None
      else raw_items start end cap items (raw + 1))"

fun raw_tables ::
    "externals \<Rightarrow> bytes option \<Rightarrow> bytes option \<Rightarrow> nat \<Rightarrow> table list \<Rightarrow> nat \<Rightarrow> storage_error + nat option" where
  "raw_tables X start end cap [] raw = Inr (Some raw)"
| "raw_tables X start end cap (t # ts) raw =
     rbind (raw_items start end cap
       (case start of Some s \<Rightarrow> sst_iter_from X (tb_sst t) s | None \<Rightarrow> sst_iter X (tb_sst t)) raw) (\<lambda>r.
     case r of None \<Rightarrow> Inr None | Some raw \<Rightarrow> raw_tables X start end cap ts raw)"

text \<open>\<open>cap + 1\<close> is an addition of \<open>usize\<close>: it wraps to zero at the last value.\<close>

definition count_range_at_most ::
    "externals \<Rightarrow> bytes option \<Rightarrow> bytes option \<Rightarrow> nat \<Rightarrow> engine \<Rightarrow> (storage_error + nat) option" where
  "count_range_at_most X start end cap e =
     (let more = (cap + 1) mod usize_bound
      in pbind (or_panic (mt_range_latest (en_mem e) start end)) (\<lambda>es.
         pbind (or_panic (raw_frozen start end cap (en_frozen e) (length es))) (\<lambda>r.
         case r of
           None \<Rightarrow> Some (Inr more)
         | Some raw \<Rightarrow>
             pbind (Some (raw_tables X start end cap (sstables_newest_first e) raw)) (\<lambda>r.
             case r of
               None \<Rightarrow> Some (Inr more)
             | Some _ \<Rightarrow> pbind (count_range X start end e) (\<lambda>n. Some (Inr (min n more)))))))"

section \<open>Flush\<close>

definition freeze :: "externals \<Rightarrow> engine_env \<Rightarrow> engine \<Rightarrow> unit outcome" where
  "freeze X env e =
     (let seq = en_next_wal_seq e;
          e = e\<lparr>en_next_wal_seq := seq + 1\<rparr>
      in case ev_wal_rng env (ws_generation (wal_sync (en_wal e)) + 1) of (rk, rn) \<Rightarrow>
         (case wal_rotate X seq rk rn (en_wal e) of
            Inl err \<Rightarrow> Untracked err
          | Inr w \<Rightarrow>
              Done () (e\<lparr>en_wal := w, en_mem := mt_new,
                en_frozen := en_frozen e @
                  [\<lparr>fm_mem = en_mem e, fm_wal_seq = seq, fm_max_hlc = mt_max_hlc (en_mem e),
                    fm_building = False\<rparr>]\<rparr>)))"

definition take_flush_job :: "engine \<Rightarrow> flush_job option \<times> engine" where
  "take_flush_job e =
     (if op_ephemeral (en_opts e) then (None, e)
      else case en_frozen e of
             [] \<Rightarrow> (None, e)
           | f # fs \<Rightarrow>
               if fm_building f then (None, e)
               else (case next_table_path e of (path, e) \<Rightarrow>
                 (Some \<lparr>fj_mem = fm_mem f, fj_path = path, fj_codec = op_compression (en_opts e),
                        fj_wal_seq = fm_wal_seq f, fj_kek = op_kek (en_opts e),
                        fj_encrypt_new = op_at_rest_enabled (en_opts e)\<rparr>,
                  e\<lparr>en_frozen := f\<lparr>fm_building := True\<rparr> # fs\<rparr>)))"

definition build_flush ::
    "externals \<Rightarrow> engine_env \<Rightarrow> flush_job \<Rightarrow> disk \<Rightarrow> ((storage_error + table) \<times> disk) option" where
  "build_flush X env job d =
     write_table X env (fj_path job) (map Inr (mt_iter_latest_lazy (fj_mem job)))
       (mt_version_count (fj_mem job)) (fj_codec job)
       (if fj_encrypt_new job then fj_kek job else None) d"

text \<open>\<open>position\<close> and \<open>remove\<close>: the first frozen memtable with the segment number, if there is one.\<close>

definition install_flush :: "flush_job \<Rightarrow> table \<Rightarrow> engine \<Rightarrow> engine" where
  "install_flush job sst e =
     (let e = persist_manifest (e\<lparr>en_l0 := sst # en_l0 e\<rparr>)
      in case List.extract (\<lambda>f. fm_wal_seq f = fj_wal_seq job) (en_frozen e) of
           None \<Rightarrow> e
         | Some (before, f, after) \<Rightarrow>
             (let e = e\<lparr>en_frozen := before @ after\<rparr>
              in if (case fm_max_hlc f of Some h \<Rightarrow> h \<le> en_maint_watermark e | None \<Rightarrow> True)
                 then e\<lparr>en_wal := drop_segments_through (fm_wal_seq f) (en_wal e)\<rparr>
                 else e))"

definition has_background_work :: "engine \<Rightarrow> bool" where
  "has_background_work e \<longleftrightarrow>
     en_frozen e \<noteq> [] \<and> \<not> fm_building (hd (en_frozen e)) \<or>
     length (en_l0 e) \<ge> op_l0_compaction_trigger (en_opts e)"

fun unmark_building :: "u64 \<Rightarrow> frozen_mem list \<Rightarrow> frozen_mem list" where
  "unmark_building seq [] = []"
| "unmark_building seq (f # fs) =
     (if fm_wal_seq f = seq then f\<lparr>fm_building := False\<rparr> # fs else f # unmark_building seq fs)"

definition abort_flush :: "flush_job \<Rightarrow> engine \<Rightarrow> engine" where
  "abort_flush job e =
     e\<lparr>en_frozen := unmark_building (fj_wal_seq job) (en_frozen e),
       en_disk := remove_files [fj_path job] (en_disk e)\<rparr>"

text \<open>The \<open>while let\<close> loop of \<open>flush\<close>: every round installs the oldest frozen memtable.\<close>

lemma install_flush_frozen:
  assumes "en_frozen e = f # fs" "fm_wal_seq f = fj_wal_seq job"
  shows "en_frozen (install_flush job t e) = fs"
  using assms by (simp add: install_flush_def persist_manifest_def Let_def extract_Cons_code)

lemma take_flush_job_frozen:
  assumes "take_flush_job e = (Some job, e')"
  shows "\<exists>f fs. en_frozen e = f # fs \<and> en_frozen e' = f\<lparr>fm_building := True\<rparr> # fs \<and> fj_wal_seq job = fm_wal_seq f"
  using assms by (auto simp: take_flush_job_def next_table_path_def split: if_splits list.splits)

function flush_loop :: "externals \<Rightarrow> engine_env \<Rightarrow> engine \<Rightarrow> unit outcome" where
  "flush_loop X env e =
     (case take_flush_job e of
        (None, e) \<Rightarrow> Done () e
      | (Some job, e) \<Rightarrow>
          (case build_flush X env job (en_disk e) of
             None \<Rightarrow> Panic
           | Some (Inl err, d) \<Rightarrow> Fail err (e\<lparr>en_disk := d\<rparr>)
           | Some (Inr sst, d) \<Rightarrow> flush_loop X env (install_flush job sst (e\<lparr>en_disk := d\<rparr>))))"
  by pat_completeness auto

termination
proof (relation "measure (\<lambda>(X, env, e). length (en_frozen e))", goal_cases)
  case (2 X env e r e1 job b r2 d sst)
  from take_flush_job_frozen [of e job e1] 2 obtain f fs
    where "en_frozen e = f # fs" "en_frozen e1 = f\<lparr>fm_building := True\<rparr> # fs" "fj_wal_seq job = fm_wal_seq f" by auto
  then show ?case by (simp add: install_flush_frozen [where f = "f\<lparr>fm_building := True\<rparr>" and fs = fs])
qed simp

declare flush_loop.simps [simp del]

section \<open>Compaction\<close>

definition merge_item ::
    "bool \<Rightarrow> u64 option \<Rightarrow> u64 \<Rightarrow> storage_error + entry \<Rightarrow> (storage_error + entry) option" where
  "merge_item drop_tombstones expire_before tombstone_keep_after item =
     (case item of
        Inl err \<Rightarrow> Some (Inl err)
      | Inr (key, h, value) \<Rightarrow>
          if value = Delete \<and> drop_tombstones \<and> physical h < tombstone_keep_after then None
          else if (case expire_before of Some c \<Rightarrow> physical h < c | None \<Rightarrow> False) then None
          else Some (Inr (key, h, value)))"

definition merge_write ::
    "externals \<Rightarrow> engine_env \<Rightarrow> kek option \<Rightarrow> string \<Rightarrow> table list \<Rightarrow> bool \<Rightarrow> codec \<Rightarrow> u64 option \<Rightarrow> u64 \<Rightarrow> disk
     \<Rightarrow> ((storage_error + table) \<times> disk) option" where
  "merge_write X env enc path sources drop_tombstones codec expire_before tombstone_keep_after d =
     (let approx = sum_list (map (\<lambda>t. sst_len (tb_sst t)) sources);
          iters = map (\<lambda>t. sst_iter X (tb_sst t)) sources;
          entries = List.map_filter (merge_item drop_tombstones expire_before tombstone_keep_after) (merge_all iters)
      in write_table X env path entries (unat approx) codec enc d)"

text \<open>The cutoffs of a compaction, from the wall clock.\<close>

definition expire_cutoff :: "engine_env \<Rightarrow> engine \<Rightarrow> u64 option" where
  "expire_cutoff env e = map_option (\<lambda>ttl. saturating_sub (ev_wall env) ttl) (en_ttl_ms e)"

definition tombstone_cutoff :: "engine_env \<Rightarrow> engine \<Rightarrow> u64" where
  "tombstone_cutoff env e = saturating_sub (ev_wall env) (en_tombstone_retention_ms e)"

definition level_capacity :: "engine \<Rightarrow> nat \<Rightarrow> u64" where
  "level_capacity e level = op_level1_capacity (en_opts e) * 10 ^ level"

definition compact_job_for ::
    "engine_env \<Rightarrow> engine \<Rightarrow> string list \<Rightarrow> bool \<Rightarrow> compact_job \<times> engine" where
  "compact_job_for env e inputs deepest =
     (case next_table_path e of (output, e') \<Rightarrow>
        (\<lparr>cj_inputs = inputs, cj_output = output, cj_deepest = deepest, cj_codec = codec_for e deepest,
          cj_expire_before = expire_cutoff env e, cj_tombstone_keep_after = tombstone_cutoff env e,
          cj_kek = op_kek (en_opts e), cj_encrypt_new = op_at_rest_enabled (en_opts e)\<rparr>, e'))"

text \<open>The first level that is over its capacity and has a level below it.\<close>

function cascade_level :: "engine \<Rightarrow> nat \<Rightarrow> nat option" where
  "cascade_level e level =
     (if level + 1 \<ge> length (en_levels e) then None
      else if sst_len (tb_sst (en_levels e ! level)) \<le> level_capacity e level then cascade_level e (level + 1)
      else Some level)"
  by pat_completeness auto

termination
  by (relation "measure (\<lambda>(e, level). length (en_levels e) - level)") auto

declare cascade_level.simps [simp del]

definition take_compact_job :: "engine_env \<Rightarrow> engine \<Rightarrow> compact_job option \<times> engine" where
  "take_compact_job env e =
     (if op_ephemeral (en_opts e) then (None, e)
      else if length (en_l0 e) \<ge> op_l0_compaction_trigger (en_opts e) then
        (case compact_job_for env e (map tb_path (en_l0 e @ take 1 (en_levels e))) (length (en_levels e) \<le> 1)
           of (job, e) \<Rightarrow> (Some job, e))
      else case cascade_level e 0 of
             None \<Rightarrow> (None, e)
           | Some level \<Rightarrow>
               (case compact_job_for env e
                       [tb_path (en_levels e ! level), tb_path (en_levels e ! (level + 1))]
                       (level + 1 = length (en_levels e) - 1)
                  of (job, e) \<Rightarrow> (Some job, e)))"

definition build_compact ::
    "externals \<Rightarrow> engine_env \<Rightarrow> compact_job \<Rightarrow> disk \<Rightarrow> ((storage_error + table) \<times> disk) option" where
  "build_compact X env job d =
     (case collect_ok (map (open_table X d (cj_kek job)) (cj_inputs job)) of
        Inl err \<Rightarrow> Some (Inl err, d)
      | Inr inputs \<Rightarrow>
          merge_write X env (if cj_encrypt_new job then cj_kek job else None) (cj_output job) inputs
            (cj_deepest job) (cj_codec job) (cj_expire_before job) (cj_tombstone_keep_after job) d)"

definition is_input :: "compact_job \<Rightarrow> table \<Rightarrow> bool" where
  "is_input job t \<longleftrightarrow> tb_path t \<in> set (cj_inputs job)"

text \<open>\<open>Vec::insert\<close> at an index within the vector, \<open>push\<close> otherwise.\<close>

definition place_run :: "nat \<Rightarrow> table \<Rightarrow> table list \<Rightarrow> table list" where
  "place_run idx run levels =
     (if idx < length levels then take idx levels @ run # drop idx levels else levels @ [run])"

definition install_compact :: "compact_job \<Rightarrow> table \<Rightarrow> engine \<Rightarrow> bool \<times> engine" where
  "install_compact job new_run e =
     (let inputs_present = list_all (\<lambda>p. p \<in> tb_path ` set (en_l0 e) \<or> p \<in> tb_path ` set (en_levels e)) (cj_inputs job)
      in if \<not> inputs_present then (False, e\<lparr>en_disk := remove_files [cj_output job] (en_disk e)\<rparr>)
         else
           (let l0_input = list_ex (is_input job) (en_l0 e);
                removed_levels = filter (\<lambda>i. is_input job (en_levels e ! i)) [0..<length (en_levels e)];
                target = (if l0_input then 1 else (case removed_levels of i # _ \<Rightarrow> i | [] \<Rightarrow> 0) + 1);
                e = e\<lparr>en_compactions := en_compactions e + 1,
                      en_compaction_bytes := en_compaction_bytes e + sst_disk_len (tb_sst new_run),
                      en_l0 := filter (\<lambda>t. \<not> is_input job t) (en_l0 e),
                      en_levels := place_run (target - 1) new_run (filter (\<lambda>t. \<not> is_input job t) (en_levels e))\<rparr>;
                e = persist_manifest e
            in (True, e\<lparr>en_disk := remove_files (cj_inputs job) (en_disk e)\<rparr>)))"

text \<open>The cascade of \<open>maybe_compact\<close>; the result lists the retired files.\<close>

definition enc_key :: "engine \<Rightarrow> kek option" where
  "enc_key e = (if op_at_rest_enabled (en_opts e) then op_kek (en_opts e) else None)"

function cascade_loop ::
    "externals \<Rightarrow> engine_env \<Rightarrow> nat \<Rightarrow> string list \<Rightarrow> engine \<Rightarrow> string list outcome" where
  "cascade_loop X env level retired e =
     (if level \<ge> length (en_levels e) \<or> sst_len (tb_sst (en_levels e ! level)) \<le> level_capacity e level
      then Done retired e
      else
        (let has_next = level + 1 < length (en_levels e);
             old = take (if has_next then 2 else 1) (drop level (en_levels e));
             codec = codec_for e (\<not> has_next)
         in case next_table_path e of (path, e) \<Rightarrow>
           (case merge_write X env (enc_key e) path old (\<not> has_next) codec
                   (expire_cutoff env e) (tombstone_cutoff env e) (en_disk e) of
              None \<Rightarrow> Panic
            | Some (Inl err, d) \<Rightarrow> Fail err (e\<lparr>en_disk := d\<rparr>)
            | Some (Inr run, d) \<Rightarrow>
                cascade_loop X env (level + 1) (retired @ map tb_path old)
                  (e\<lparr>en_disk := d, en_compactions := en_compactions e + 1,
                     en_compaction_bytes := en_compaction_bytes e + sst_disk_len (tb_sst run),
                     en_levels :=
                       (if has_next then take level (en_levels e) @ run # drop (level + 2) (en_levels e)
                        else (let ls = en_levels e @ [run] in take level ls @ drop (level + 1) ls))\<rparr>))))"
  by pat_completeness auto

termination
  by (relation "measure (\<lambda>(X, env, level, retired, e). length (en_levels e) - level)")
    (auto simp: next_table_path_def Let_def)

declare cascade_loop.simps [simp del]

definition maybe_compact :: "externals \<Rightarrow> engine_env \<Rightarrow> engine \<Rightarrow> unit outcome" where
  "maybe_compact X env e =
     (if length (en_l0 e) < op_l0_compaction_trigger (en_opts e) then Done () e
      else
        (let deepest = length (en_levels e) \<le> 1;
             codec = codec_for e deepest;
             sources = en_l0 e @ take 1 (en_levels e)
         in case next_table_path e of (path, e) \<Rightarrow>
           (case merge_write X env (enc_key e) path sources deepest codec
                   (expire_cutoff env e) (tombstone_cutoff env e) (en_disk e) of
              None \<Rightarrow> Panic
            | Some (Inl err, d) \<Rightarrow> Fail err (e\<lparr>en_disk := d\<rparr>)
            | Some (Inr new_l1, d) \<Rightarrow>
                obind (cascade_loop X env 0 (map tb_path sources)
                  (e\<lparr>en_disk := d, en_compactions := en_compactions e + 1,
                     en_compaction_bytes := en_compaction_bytes e + sst_disk_len (tb_sst new_l1),
                     en_l0 := [], en_levels := new_l1 # drop 1 (en_levels e)\<rparr>)) (\<lambda>retired e.
                let e = persist_manifest e
                in Done () (e\<lparr>en_disk := remove_files retired (en_disk e)\<rparr>)))))"

section \<open>Writes\<close>

definition flush :: "externals \<Rightarrow> engine_env \<Rightarrow> engine \<Rightarrow> unit outcome" where
  "flush X env e =
     (if op_ephemeral (en_opts e) then Done () e
      else obind (if mt_is_empty (en_mem e) then Done () e else freeze X env e) (\<lambda>_ e.
           obind (flush_loop X env e) (\<lambda>_ e.
           maybe_compact X env e)))"

definition maybe_flush :: "externals \<Rightarrow> engine_env \<Rightarrow> engine \<Rightarrow> unit outcome" where
  "maybe_flush X env e =
     (if mt_approx_bytes (en_mem e) < op_flush_threshold_bytes (en_opts e) \<or> op_ephemeral (en_opts e)
      then Done () e
      else if length (en_frozen e) \<ge> 4 then flush X env e
      else freeze X env e)"

definition append_buffered ::
    "externals \<Rightarrow> engine_env \<Rightarrow> bytes \<Rightarrow> hlc \<Rightarrow> version_value \<Rightarrow> engine \<Rightarrow> wal_commit outcome" where
  "append_buffered X env key h value e =
     (case append_op X h key (case value of Put bytes \<Rightarrow> Some bytes | Delete \<Rightarrow> None) (en_wal e) of
        Inl err \<Rightarrow> Fail err e
      | Inr (w, commit) \<Rightarrow>
          obind (maybe_flush X env
                   (e\<lparr>en_wal := w, en_mem := mt_insert key h value (en_mem e),
                      en_write_seq := en_write_seq e + 1,
                      en_read_cache := rc_invalidate key (en_read_cache e)\<rparr>)) (\<lambda>_ e.
          Done commit e))"

definition sync_commit :: "wal_commit \<Rightarrow> engine \<Rightarrow> engine" where
  "sync_commit commit e = e\<lparr>en_wal := commit_sync commit (en_wal e)\<rparr>"

text \<open>A write stamped by the local clock, and one with the stamp of another node.\<close>

definition write_deferred ::
    "externals \<Rightarrow> engine_env \<Rightarrow> bytes \<Rightarrow> version_value \<Rightarrow> engine \<Rightarrow> (hlc \<times> wal_commit) outcome" where
  "write_deferred X env key value e =
     (case clock_now (ev_wall env) (en_clock e) of (c, h) \<Rightarrow>
        obind (append_buffered X env key h value (e\<lparr>en_clock := c\<rparr>)) (\<lambda>commit e. Done (h, commit) e))"

definition put_deferred :: "externals \<Rightarrow> engine_env \<Rightarrow> bytes \<Rightarrow> bytes \<Rightarrow> engine \<Rightarrow> (hlc \<times> wal_commit) outcome" where
  "put_deferred X env key val e = write_deferred X env key (Put val) e"

definition delete_deferred :: "externals \<Rightarrow> engine_env \<Rightarrow> bytes \<Rightarrow> engine \<Rightarrow> (hlc \<times> wal_commit) outcome" where
  "delete_deferred X env key e = write_deferred X env key Delete e"

definition put :: "externals \<Rightarrow> engine_env \<Rightarrow> bytes \<Rightarrow> bytes \<Rightarrow> engine \<Rightarrow> hlc outcome" where
  "put X env key val e =
     obind (write_deferred X env key (Put val) e) (\<lambda>(h, commit) e. Done h (sync_commit commit e))"

definition delete :: "externals \<Rightarrow> engine_env \<Rightarrow> bytes \<Rightarrow> engine \<Rightarrow> hlc outcome" where
  "delete X env key e =
     obind (write_deferred X env key Delete e) (\<lambda>(h, commit) e. Done h (sync_commit commit e))"

definition append_put_buffered ::
    "externals \<Rightarrow> engine_env \<Rightarrow> bytes \<Rightarrow> bytes \<Rightarrow> hlc \<Rightarrow> engine \<Rightarrow> wal_commit outcome" where
  "append_put_buffered X env key val h e =
     append_buffered X env key h (Put val)
       (e\<lparr>en_clock := fst (clock_observe (ev_wall env) h (en_clock e))\<rparr>)"

definition append_delete_buffered ::
    "externals \<Rightarrow> engine_env \<Rightarrow> bytes \<Rightarrow> hlc \<Rightarrow> engine \<Rightarrow> wal_commit outcome" where
  "append_delete_buffered X env key h e =
     append_buffered X env key h Delete
       (e\<lparr>en_clock := fst (clock_observe (ev_wall env) h (en_clock e))\<rparr>)"

definition put_with_hlc :: "externals \<Rightarrow> engine_env \<Rightarrow> bytes \<Rightarrow> bytes \<Rightarrow> hlc \<Rightarrow> engine \<Rightarrow> unit outcome" where
  "put_with_hlc X env key val h e =
     obind (append_put_buffered X env key val h e) (\<lambda>commit e. Done () (sync_commit commit e))"

definition delete_with_hlc :: "externals \<Rightarrow> engine_env \<Rightarrow> bytes \<Rightarrow> hlc \<Rightarrow> engine \<Rightarrow> unit outcome" where
  "delete_with_hlc X env key h e =
     obind (append_delete_buffered X env key h e) (\<lambda>commit e. Done () (sync_commit commit e))"

section \<open>Dropping keys\<close>

fun retain_rows ::
    "(bytes \<Rightarrow> bool) \<Rightarrow> (storage_error + bytes \<times> hlc \<times> bytes option) list \<Rightarrow> nat \<Rightarrow> entry list
     \<Rightarrow> storage_error + nat \<times> entry list" where
  "retain_rows keep [] dropped entries = Inr (dropped, entries)"
| "retain_rows keep (Inl err # rows) dropped entries = Inl err"
| "retain_rows keep (Inr (key, h, val) # rows) dropped entries =
     (if \<not> keep key then retain_rows keep rows (dropped + 1) entries
      else retain_rows keep rows dropped
             (entries @ [(key, h, case val of Some bytes \<Rightarrow> Put bytes | None \<Rightarrow> Delete)]))"

text \<open>The second half of \<open>retain\<close>, once the survivors are in a table (or there are none).\<close>

definition retain_install :: "externals \<Rightarrow> engine_env \<Rightarrow> string list \<Rightarrow> table list \<Rightarrow> engine \<Rightarrow> unit outcome" where
  "retain_install X env old_paths new_table e =
     (let e = e\<lparr>en_l0 := [], en_levels := new_table, en_mem := mt_new, en_frozen := []\<rparr>
      in case ev_wal_rng env (ws_generation (wal_sync (en_wal e)) + 1) of (rk, rn) \<Rightarrow>
         (case wal_truncate X rk rn (en_wal e) of
            Inl err \<Rightarrow> Untracked err
          | Inr w \<Rightarrow>
              (let e = persist_manifest (clear_read_cache
                     (e\<lparr>en_wal := drop_segments_through (en_next_wal_seq e) w,
                        en_write_seq := en_write_seq e + 1\<rparr>))
               in Done () (e\<lparr>en_disk := remove_files old_paths (en_disk e)\<rparr>))))"

definition retain :: "externals \<Rightarrow> engine_env \<Rightarrow> (bytes \<Rightarrow> bool) \<Rightarrow> engine \<Rightarrow> nat outcome" where
  "retain X env keep e =
     (case retain_rows keep (scan_versioned_with_tombstones_iter X e) 0 [] of
        Inl err \<Rightarrow> Fail err e
      | Inr (dropped, entries) \<Rightarrow>
          if dropped = 0 then Done 0 e
          else
            (let old_paths = map tb_path (en_l0 e @ en_levels e)
             in if entries = [] then obind (retain_install X env old_paths [] e) (\<lambda>_ e. Done dropped e)
                else
                  (case next_table_path e of (path, e) \<Rightarrow>
                   (case write_table X env path (map Inr entries) (length entries)
                           (op_bottom_compression (en_opts e)) None (en_disk e) of
                      None \<Rightarrow> Panic
                    | Some (Inl err, d) \<Rightarrow> Fail err (e\<lparr>en_disk := d\<rparr>)
                    | Some (Inr sst, d) \<Rightarrow>
                        obind (retain_install X env old_paths [sst] (e\<lparr>en_disk := d\<rparr>)) (\<lambda>_ e. Done dropped e)))))"

section \<open>Statistics\<close>

record engine_stats =
  es_memtable_bytes :: nat
  es_memtable_versions :: nat
  es_sstable_count :: nat
  es_sstables_per_level :: "nat list"
  es_disk_bytes :: u64
  es_wal_bytes :: u64
  es_wal_fsyncs :: u64
  es_compactions :: u64
  es_compaction_bytes :: u64
  es_cache :: cache_stats
  es_bloom_negatives :: u64

definition stats :: "engine \<Rightarrow> engine_stats" where
  "stats e =
     \<lparr>es_memtable_bytes = mt_approx_bytes (en_mem e) + sum_list (map (mt_approx_bytes \<circ> fm_mem) (en_frozen e)),
      es_memtable_versions = mt_version_count (en_mem e) + sum_list (map (mt_version_count \<circ> fm_mem) (en_frozen e)),
      es_sstable_count = sstable_count e,
      es_sstables_per_level = length (en_l0 e) # replicate (length (en_levels e)) 1,
      es_disk_bytes = sum_list (map (sst_disk_len \<circ> tb_sst) (en_l0 e @ en_levels e)),
      es_wal_bytes = size_bytes (wal_sync (en_wal e)), es_wal_fsyncs = fsync_count (wal_sync (en_wal e)),
      es_compactions = en_compactions e, es_compaction_bytes = en_compaction_bytes e,
      es_cache = rc_stats (en_read_cache e), es_bloom_negatives = en_sst_negative_lookups e\<rparr>"

record key_stats =
  ks_live_keys :: nat
  ks_tombstones :: nat

definition count_version :: "version_value \<Rightarrow> key_stats \<Rightarrow> key_stats" where
  "count_version v s =
     (case v of Put _ \<Rightarrow> s\<lparr>ks_live_keys := ks_live_keys s + 1\<rparr>
      | Delete \<Rightarrow> s\<lparr>ks_tombstones := ks_tombstones s + 1\<rparr>)"

fun table_counts :: "externals \<Rightarrow> table list \<Rightarrow> key_stats \<Rightarrow> table list \<times> key_stats" where
  "table_counts X [] s = ([], s)"
| "table_counts X (t # ts) s =
     (case version_counts X (tb_sst t) of (sst, puts, dels) \<Rightarrow>
      case table_counts X ts (s\<lparr>ks_live_keys := ks_live_keys s + unat puts,
                                ks_tombstones := ks_tombstones s + unat dels\<rparr>) of
        (ts', s') \<Rightarrow> (t\<lparr>tb_sst := sst\<rparr> # ts', s'))"

definition key_stats_fast :: "externals \<Rightarrow> engine \<Rightarrow> key_stats \<times> engine" where
  "key_stats_fast X e =
     (case table_counts X (sstables_newest_first e) \<lparr>ks_live_keys = 0, ks_tombstones = 0\<rparr> of (ts, s) \<Rightarrow>
        (fold (\<lambda>(_, _, v). count_version v)
           (concat (map (mt_iter_latest_lazy \<circ> fm_mem) (en_frozen e)) @ mt_iter_latest_lazy (en_mem e)) s,
         set_tables ts e))"

fun count_items :: "(storage_error + entry) list \<Rightarrow> key_stats \<Rightarrow> storage_error + key_stats" where
  "count_items [] s = Inr s"
| "count_items (Inl err # items) s = Inl err"
| "count_items (Inr (_, _, v) # items) s = count_items items (count_version v s)"

definition engine_key_stats :: "externals \<Rightarrow> engine \<Rightarrow> storage_error + key_stats" where
  "engine_key_stats X e = count_items (merged_iter X e) \<lparr>ks_live_keys = 0, ks_tombstones = 0\<rparr>"

end
