(* ===== verification/Sstable_Read.thy ===== *)
theory Sstable_Read
  imports Sstable
begin

text \<open>
  Correctness of reading the immutable tables. The byte formats are interpretations of the cursor
  interfaces, the block cache of the cache interface, and the three block streams of one reader
  locale. \<open>sst_holds X t es\<close> says that a table holds the sorted entries \<open>es\<close>: its blocks read back as
  their groups, the index and the filter know them, the caches agree. Every read of such a table is
  the read of \<open>es\<close>. The size bound (an encoded entry below a gigabyte) keeps lengths in 32 bits.
\<close>

section \<open>The byte formats\<close>

definition stamp_of :: "entry \<Rightarrow> sst_stamp" where
  "stamp_of e = (case e of (k, h, v) \<Rightarrow> (k, h, v \<noteq> Delete))"

text \<open>The bound keeps the lengths of keys, values and blocks inside their 32 bit fields.\<close>

definition entry_ok :: "entry \<Rightarrow> bool" where
  "entry_ok e \<longleftrightarrow> length (encode_entry e) < 1073741824"

definition meta_ok :: "block_meta \<Rightarrow> bool" where
  "meta_ok b \<longleftrightarrow> length (bm_first_key b) < 4294967296"

lemma OP_distinct [simp]: "OP_PUT \<noteq> OP_DELETE" "OP_DELETE \<noteq> OP_PUT"
  by (simp_all add: OP_PUT_def OP_DELETE_def)

lemma sst_take_append:
  assumes "length (pre @ xs @ post) < usize_bound"
  shows "sst_take (pre @ xs @ post) (length pre) (length xs) = Inr (xs, length pre + length xs)"
  using assms by (simp add: sst_take_def cur_take_append)

lemma sst_take_at:
  assumes "buf = pre @ xs @ post" "pos = length pre" "n = length xs" "length buf < usize_bound"
  shows "sst_take buf pos n = Inr (xs, pos + n)"
  using assms sst_take_append by simp

lemma sst_read_u32_at:
  assumes "buf = pre @ le_bytes 4 w @ post" "pos = length pre" "length buf < usize_bound"
  shows "sst_read_u32 buf pos = Inr (w, pos + 4)"
  using assms sst_take_at [of buf pre "le_bytes 4 w" post pos 4] by (simp add: sst_read_u32_def)

lemma sst_read_u64_at:
  assumes "buf = pre @ le_bytes 8 w @ post" "pos = length pre" "length buf < usize_bound"
  shows "sst_read_u64 buf pos = Inr (w, pos + 8)"
  using assms sst_take_at [of buf pre "le_bytes 8 w" post pos 8] by (simp add: sst_read_u64_def)

lemma skip_to_at:
  assumes "buf = pre @ xs @ post" "pos = length pre" "n = length xs" "length buf < usize_bound"
  shows "skip_to buf pos n = Inr (pos + n)"
  using assms by (simp add: skip_to_def)

lemma entry_ok_lengths:
  assumes "entry_ok (k, h, v)"
  shows "length k < 4294967296" "v = Put x \<Longrightarrow> length x < 4294967296"
  using assms by (auto simp: entry_ok_def encode_entry_def)

text \<open>The common prefix of entries and stamps: key length, key, stamp, operation.\<close>

lemma read_header:
  assumes "buf = pre @ le_bytes 4 (of_nat (length k) :: u32) @ k @ hlc_to_bytes h @ [op] @ post"
    and "length buf < usize_bound" and "length k < 4294967296"
  shows "sst_read_u32 buf (length pre) = Inr (of_nat (length k), length pre + 4)"
    and "sst_take buf (length pre + 4) (unat (of_nat (length k) :: u32)) = Inr (k, length pre + 4 + length k)"
    and "sst_take buf (length pre + 4 + length k) 12 = Inr (hlc_to_bytes h, length pre + 4 + length k + 12)"
    and "sst_take buf (length pre + 4 + length k + 12) 1 = Inr ([op], length pre + 4 + length k + 12 + 1)"
    and "length pre + 4 + length k + 12 < length buf" and "buf ! (length pre + 4 + length k + 12) = op"
proof -
  show "sst_read_u32 buf (length pre) = Inr (of_nat (length k), length pre + 4)"
    using assms by (intro sst_read_u32_at) auto
  show "sst_take buf (length pre + 4) (unat (of_nat (length k) :: u32)) = Inr (k, length pre + 4 + length k)"
    using assms sst_take_at [of buf "pre @ le_bytes 4 (of_nat (length k) :: u32)" k "hlc_to_bytes h @ [op] @ post"]
    by (simp add: unat_of_nat_u32)
  show "sst_take buf (length pre + 4 + length k) 12 = Inr (hlc_to_bytes h, length pre + 4 + length k + 12)"
    using assms
    by (subst sst_take_at [of buf "pre @ le_bytes 4 (of_nat (length k) :: u32) @ k" "hlc_to_bytes h" "[op] @ post"]) auto
  show "sst_take buf (length pre + 4 + length k + 12) 1 = Inr ([op], length pre + 4 + length k + 12 + 1)"
    using assms
    by (subst sst_take_at [of buf "pre @ le_bytes 4 (of_nat (length k) :: u32) @ k @ hlc_to_bytes h" "[op]" post]) auto
  show "length pre + 4 + length k + 12 < length buf" using assms by simp
  have "buf = (pre @ le_bytes 4 (of_nat (length k) :: u32) @ k @ hlc_to_bytes h) @ op # post" using assms by simp
  moreover have "length (pre @ le_bytes 4 (of_nat (length k) :: u32) @ k @ hlc_to_bytes h) = length pre + 4 + length k + 12" by simp
  ultimately show "buf ! (length pre + 4 + length k + 12) = op" by (metis nth_append_length)
qed

text \<open>The value of a put.\<close>

lemma read_value:
  assumes "buf = pre @ le_bytes 4 (of_nat (length v) :: u32) @ v @ post"
    and "length buf < usize_bound" and "length v < 4294967296" and "pos = length pre"
  shows "sst_read_u32 buf pos = Inr (of_nat (length v), pos + 4)"
    and "sst_take buf (pos + 4) (unat (of_nat (length v) :: u32)) = Inr (v, pos + 4 + length v)"
    and "skip_to buf (pos + 4) (unat (of_nat (length v) :: u32)) = Inr (pos + 4 + length v)"
proof -
  show "sst_read_u32 buf pos = Inr (of_nat (length v), pos + 4)"
    using assms by (intro sst_read_u32_at) auto
  show "sst_take buf (pos + 4) (unat (of_nat (length v) :: u32)) = Inr (v, pos + 4 + length v)"
    using assms sst_take_at [of buf "pre @ le_bytes 4 (of_nat (length v) :: u32)" v post]
    by (simp add: unat_of_nat_u32)
  show "skip_to buf (pos + 4) (unat (of_nat (length v) :: u32)) = Inr (pos + 4 + length v)"
    using assms skip_to_at [of buf "pre @ le_bytes 4 (of_nat (length v) :: u32)" v post]
    by (simp add: unat_of_nat_u32)
qed

text \<open>The three readers of a data entry at once.\<close>

lemma entry_readers:
  assumes "entry_ok e" and "length (pre @ encode_entry e @ post) < usize_bound"
  shows "decode_entry (pre @ encode_entry e @ post) (length pre) = Inr (e, length pre + length (encode_entry e))"
    and "decode_entry_stamp (pre @ encode_entry e @ post) (length pre)
      = Inr (stamp_of e, length pre + length (encode_entry e))"
    and "peek_entry_key (pre @ encode_entry e @ post) (length pre) = Inr (fst e, length pre + length (encode_entry e))"
proof -
  obtain k h v where e: "e = (k, h, v)" by (cases e)
  define buf where "buf = pre @ encode_entry e @ post"
  note ok = entry_ok_lengths [OF assms(1) [unfolded e]]
  have "decode_entry buf (length pre) = Inr (e, length pre + length (encode_entry e)) \<and>
    decode_entry_stamp buf (length pre) = Inr (stamp_of e, length pre + length (encode_entry e)) \<and>
    peek_entry_key buf (length pre) = Inr (fst e, length pre + length (encode_entry e))"
  proof (cases v)
    case (Put x)
    have b: "buf = pre @ le_bytes 4 (of_nat (length k) :: u32) @ k @ hlc_to_bytes h @ [OP_PUT]
        @ le_bytes 4 (of_nat (length x) :: u32) @ x @ post"
      by (simp add: buf_def e Put encode_entry_def)
    have len: "length buf < usize_bound" using assms by (simp add: buf_def)
    have b': "buf = (pre @ le_bytes 4 (of_nat (length k) :: u32) @ k @ hlc_to_bytes h @ [OP_PUT])
        @ le_bytes 4 (of_nat (length x) :: u32) @ x @ post"
      using b by simp
    note hd = read_header [OF b len ok(1)]
    have pos: "length pre + 4 + length k + 12 + 1 = length (pre @ le_bytes 4 (of_nat (length k) :: u32) @ k @ hlc_to_bytes h @ [OP_PUT])"
      by simp
    note vl = read_value [OF b' len ok(2) [OF Put] pos]
    show ?thesis
      using hd vl by (simp add: decode_entry_def decode_entry_stamp_def peek_entry_key_def encode_entry_def e Put stamp_of_def)
  next
    case Delete
    have b: "buf = pre @ le_bytes 4 (of_nat (length k) :: u32) @ k @ hlc_to_bytes h @ [OP_DELETE] @ post"
      by (simp add: buf_def e Delete encode_entry_def)
    have len: "length buf < usize_bound" using assms by (simp add: buf_def)
    note hd = read_header [OF b len ok(1)]
    show ?thesis
      using hd by (simp add: decode_entry_def decode_entry_stamp_def peek_entry_key_def encode_entry_def e Delete stamp_of_def)
  qed
  then show "decode_entry (pre @ encode_entry e @ post) (length pre) = Inr (e, length pre + length (encode_entry e))"
    "decode_entry_stamp (pre @ encode_entry e @ post) (length pre)
      = Inr (stamp_of e, length pre + length (encode_entry e))"
    "peek_entry_key (pre @ encode_entry e @ post) (length pre) = Inr (fst e, length pre + length (encode_entry e))"
    by (simp_all add: buf_def)
qed

lemma encode_entry_nonempty [simp]: "encode_entry e \<noteq> []"
  by (cases e) (simp add: encode_entry_def split: version_value.splits)

lemma encode_stamp_nonempty [simp]: "encode_stamp e \<noteq> []"
  by (cases e) (simp add: encode_stamp_def)

lemma length_encode_stamp: "length (encode_stamp e) \<le> length (encode_entry e)"
  by (cases e) (auto simp: encode_stamp_def encode_entry_def split: version_value.splits)

lemma decode_encode_stamp:
  assumes "entry_ok e" and "length (pre @ encode_stamp e @ post) < usize_bound"
  shows "decode_stamp (pre @ encode_stamp e @ post) (length pre)
    = Inr (stamp_of e, length pre + length (encode_stamp e))"
proof -
  obtain k h v where e: "e = (k, h, v)" by (cases e)
  define op where "op = (case v of Put _ \<Rightarrow> OP_PUT | Delete \<Rightarrow> OP_DELETE)"
  define buf where "buf = pre @ encode_stamp e @ post"
  have b: "buf = pre @ le_bytes 4 (of_nat (length k) :: u32) @ k @ hlc_to_bytes h @ [op] @ post"
    by (simp add: buf_def e encode_stamp_def op_def)
  have len: "length buf < usize_bound" using assms by (simp add: buf_def)
  note hd = read_header [OF b len entry_ok_lengths(1) [OF assms(1) [unfolded e]]]
  have "decode_stamp buf (length pre) = Inr (stamp_of e, length pre + length (encode_stamp e))"
    using hd by (cases v) (simp_all add: decode_stamp_def encode_stamp_def e stamp_of_def op_def)
  then show ?thesis by (simp add: buf_def)
qed

lemma decode_encode_block_meta:
  assumes "meta_ok b" and "length (pre @ encode_block_meta b @ post) < usize_bound"
  shows "decode_block_meta (pre @ encode_block_meta b @ post) (length pre)
    = Inr (b, length pre + length (encode_block_meta b))"
proof -
  define k1 where "k1 = le_bytes 4 (of_nat (length (bm_first_key b)) :: u32)"
  define o1 where "o1 = le_bytes 8 (bm_offset b)"
  define c1 u1 where "c1 = le_bytes 4 (bm_comp_len b)" and "u1 = le_bytes 4 (bm_uncomp_len b)"
  define k where "k = bm_first_key b"
  have kl: "length k < 4294967296" using assms by (simp add: meta_ok_def k_def)
  define buf where "buf = pre @ encode_block_meta b @ post"
  have b: "buf = pre @ k1 @ k @ o1 @ c1 @ u1 @ post"
    by (simp add: buf_def encode_block_meta_def k1_def o1_def c1_def u1_def k_def)
  have len: "length buf < usize_bound" using assms by (simp add: buf_def)
  have l: "length k1 = 4" "length o1 = 8" "length c1 = 4" "length u1 = 4"
    by (simp_all add: k1_def o1_def c1_def u1_def)
  have 1: "sst_read_u32 buf (length pre) = Inr (of_nat (length k), length pre + 4)"
    using b len by (intro sst_read_u32_at) (auto simp: k1_def k_def)
  have 2: "sst_take buf (length pre + 4) (unat (of_nat (length k) :: u32)) = Inr (k, length pre + 4 + length k)"
    using b len kl l sst_take_at [of buf "pre @ k1" k "o1 @ c1 @ u1 @ post"] by (simp add: unat_of_nat_u32)
  have 3: "sst_read_u64 buf (length pre + 4 + length k) = Inr (bm_offset b, length pre + 4 + length k + 8)"
    using b len l by (intro sst_read_u64_at [of _ "pre @ k1 @ k" _ "c1 @ u1 @ post"]) (auto simp: o1_def)
  have 4: "sst_read_u32 buf (length pre + 4 + length k + 8) = Inr (bm_comp_len b, length pre + 4 + length k + 8 + 4)"
    using b len l by (intro sst_read_u32_at [of _ "pre @ k1 @ k @ o1" _ "u1 @ post"]) (auto simp: c1_def)
  have 5: "sst_read_u32 buf (length pre + 4 + length k + 8 + 4) = Inr (bm_uncomp_len b, length pre + 4 + length k + 8 + 4 + 4)"
    using b len l by (intro sst_read_u32_at [of _ "pre @ k1 @ k @ o1 @ c1" _ "post"]) (auto simp: u1_def)
  have le: "length (encode_block_meta b) = 4 + length k + 16" by (simp add: encode_block_meta_def k_def)
  have "decode_block_meta buf (length pre) = Inr (b, length pre + length (encode_block_meta b))"
    using 1 2 3 4 5 by (simp add: decode_block_meta_def le k_def)
  then show ?thesis by (simp add: buf_def)
qed

interpretation entry_codec: cursor_codec encode_entry decode_entry entry_ok
  by unfold_locales (simp_all add: entry_readers del: length_append)

interpretation entry_stamps: cursor_view encode_entry decode_entry_stamp entry_ok stamp_of
  by unfold_locales (simp_all add: entry_readers del: length_append)

interpretation entry_keys: cursor_view encode_entry peek_entry_key entry_ok fst
  by unfold_locales (simp_all add: entry_readers del: length_append)

interpretation stamp_codec: cursor_view encode_stamp decode_stamp entry_ok stamp_of
  by unfold_locales (simp_all add: decode_encode_stamp del: length_append)

interpretation meta_codec: cursor_codec encode_block_meta decode_block_meta meta_ok
proof unfold_locales
  show "encode_block_meta x \<noteq> []" for x
    by (simp add: encode_block_meta_def length_0_conv [symmetric] del: length_0_conv)
qed (simp add: decode_encode_block_meta del: length_append)


section \<open>Equivalence of the entry readers\<close>

text \<open>
  On any bytes, peeking a key and reading a stamp succeed exactly where decoding the whole entry
  does, and agree with it. A buffer of the 64-bit targets is at most \<open>isize::MAX\<close> bytes long.
\<close>

lemma skip_to_take:
  assumes "length buf < 9223372036854775808" "pos \<le> length buf"
  shows "skip_to buf pos (unat (n :: u32)) = rbind (sst_take buf pos (unat n)) (\<lambda>(v, p). Inr p)"
proof -
  have "unat n < 2 ^ 32" using unsigned_less [of n] by simp
  then show ?thesis using assms by (simp add: sst_take_def cur_take_def skip_to_def)
qed

lemma op_bytes:
  assumes "length buf < 9223372036854775808" "p \<le> length buf"
  shows "rbind (sst_take buf p 12) (\<lambda>(hb, p). rbind (sst_take buf p 1) (\<lambda>(ob, p). f hb ob p)) =
    (if p + 12 < length buf then f (take 12 (drop p buf)) [buf ! (p + 12)] (p + 12 + 1) else Inl (corrupt ''unexpected end''))"
proof -
  have "take (Suc 0) (drop q buf) = [buf ! q]" if "q < length buf" for q
    using that by (simp add: Cons_nth_drop_Suc [symmetric])
  then show ?thesis using assms by (simp add: sst_take_def cur_take_def)
qed

lemma rbind_cong_take:
  assumes "\<And>p xs. p \<le> length buf \<Longrightarrow> f (xs, p) = g (xs, p)"
  shows "rbind (sst_take buf pos n) f = rbind (sst_take buf pos n) g"
  using assms by (intro rbind_cong) (auto simp: sst_take_Inr_iff)

lemma rbind_cong_u32:
  assumes "\<And>p n. p \<le> length buf \<Longrightarrow> f (n, p) = g (n, p)"
  shows "rbind (sst_read_u32 buf pos) f = rbind (sst_read_u32 buf pos) g"
  using assms by (intro rbind_cong) (auto simp: sst_read_u32_Inr_iff)

lemma decode_entry_stamp_eq:
  assumes "length buf < 9223372036854775808"
  shows "decode_entry_stamp buf pos = rbind (decode_entry buf pos) (\<lambda>(e, p). Inr (stamp_of e, p))"
  unfolding decode_entry_stamp_def decode_entry_def rbind_assoc case_prod_unfold
  by (intro rbind_cong_u32 rbind_cong_take)
    (auto simp: rbind_assoc stamp_of_def skip_to_take assms case_prod_unfold intro!: rbind_cong_u32)

lemma peek_entry_key_iff:
  assumes len: "length buf < 9223372036854775808"
  shows "peek_entry_key buf pos = Inr (k, p) \<longleftrightarrow> (\<exists>h v. decode_entry buf pos = Inr ((k, h, v), p))"
proof -
  have "(\<exists>h v. rbind (sst_take buf q 12) (\<lambda>(hb, q). rbind (sst_take buf q 1) (\<lambda>(ob, q).
     if hd ob = OP_PUT then
       rbind (sst_read_u32 buf q) (\<lambda>(val_len, q).
       rbind (sst_take buf q (unat val_len)) (\<lambda>(v, q).
       Inr ((key, hlc_from_bytes hb, Put v), q)))
     else if hd ob = OP_DELETE then Inr ((key, hlc_from_bytes hb, Delete), q)
     else Inl (corrupt ''unknown op''))) = Inr ((k, h, v), p)) \<longleftrightarrow>
    (let q = q + 12
     in if q < length buf then
          (let op = buf ! q; q = q + 1
           in if op = OP_PUT then
                rbind (sst_read_u32 buf q) (\<lambda>(val_len, q).
                rbind (skip_to buf q (unat val_len)) (\<lambda>q. Inr (key, q)))
              else if op = OP_DELETE then Inr (key, q)
              else Inl (corrupt ''unknown op''))
        else Inl (corrupt ''missing op'')) = Inr (k, p)" if "q \<le> length buf" for q key
    unfolding op_bytes [OF len that]
    by (auto simp: rbind_eq_Inr_iff skip_to_take len sst_read_u32_Inr_iff)
  then show ?thesis
    by (auto simp: peek_entry_key_def decode_entry_def rbind_eq_Inr_iff [of "sst_read_u32 _ _"]
        rbind_eq_Inr_iff [of "sst_take _ _ (unat _)"] sst_take_Inr_iff) blast
qed

section \<open>The loops over one block\<close>

abbreviation block_bytes :: "entry list \<Rightarrow> bytes" where
  "block_bytes es \<equiv> concat (map encode_entry es)"

lemma get_loop_block:
  assumes "buf = pre @ block_bytes es" "pos = length pre" "length buf < usize_bound"
    and "\<forall>e \<in> set es. entry_ok e" "bt_ok es"
  shows "get_loop buf key pos = Inr (map_of es key)"
  using assms
proof (induction es arbitrary: pre pos)
  case Nil
  then show ?case by (subst get_loop.simps) simp
next
  case (Cons e es)
  obtain k h v where e: "e = (k, h, v)" by (cases e)
  have peek: "peek_entry_key buf pos = Inr (k, pos + length (encode_entry e))"
    using Cons.prems entry_keys.dec_enc_at [of e buf pre "block_bytes es" pos] by (simp add: e)
  have dec: "decode_entry buf pos = Inr (e, pos + length (encode_entry e))"
    using Cons.prems by (intro entry_codec.dec_enc_at [of e buf pre "block_bytes es" pos]) auto
  have "pos < length buf" using Cons.prems by simp
  moreover have "get_loop buf key (pos + length (encode_entry e)) = Inr (map_of es key)"
    using Cons.prems by (intro Cons.IH [of "pre @ encode_entry e"]) auto
  moreover have "map_of es key = None" if "key < k"
    using that Cons.prems(5) by (auto simp: e map_of_eq_None_iff)
  ultimately show ?case
    using peek dec by (subst get_loop.simps) (auto simp: e)
qed

text \<open>
  The range loop of one block pushes the entries in range; it returns early only after an entry at
  or past the end.
\<close>

lemma range_block_block:
  assumes "buf = pre @ block_bytes es" "pos = length pre" "length buf < usize_bound"
    and "\<forall>e \<in> set es. entry_ok e" "bt_ok es"
  shows "\<exists>r. range_block start end buf pos out = Inr (r, out @ filter (\<lambda>x. in_range start end (fst x)) es) \<and>
    (r \<longrightarrow> (\<exists>x \<in> set es. \<exists>e. end = Some e \<and> e \<le> fst x))"
  using assms
proof (induction es arbitrary: pre pos out)
  case Nil
  then have "range_block start end buf pos out = Inr (False, out)" by (subst range_block.simps) simp
  then show ?case by auto
next
  case (Cons x es)
  have dec: "decode_entry buf pos = Inr (x, pos + length (encode_entry x))"
    using Cons.prems by (intro entry_codec.dec_enc_at [of x buf pre "block_bytes es" pos]) auto
  have IH: "\<exists>r. range_block start end buf (pos + length (encode_entry x)) out' =
      Inr (r, out' @ filter (\<lambda>x. in_range start end (fst x)) es) \<and>
      (r \<longrightarrow> (\<exists>x \<in> set es. \<exists>e. end = Some e \<and> e \<le> fst x))" for out'
    using Cons.prems by (intro Cons.IH [of "pre @ encode_entry x"]) auto
  have later: "fst x < fst y" if "y \<in> set es" for y
    using Cons.prems(5) that by simp
  have stop: "filter (\<lambda>x. in_range start end (fst x)) es = []" if "end = Some e" "e \<le> fst x" for e
    using later that by (auto simp: in_range_def filter_empty_conv split: option.splits)
      (meson less_le_trans not_less order_less_imp_le order_trans)+
  have pos: "pos < length buf" using Cons.prems by simp
  note unfold = range_block.simps [of start "end" buf pos out]
  obtain r where r: "range_block start end buf (pos + length (encode_entry x)) (if in_range start end (fst x) then out @ [x] else out)
      = Inr (r, (if in_range start end (fst x) then out @ [x] else out) @ filter (\<lambda>x. in_range start end (fst x)) es)"
    "r \<longrightarrow> (\<exists>x \<in> set es. \<exists>e. end = Some e \<and> e \<le> fst x)"
    using IH by blast
  consider (before) s where "start = Some s" "fst x < s"
    | (after) e where "end = Some e" "e \<le> fst x" "\<not> (\<exists>s. start = Some s \<and> fst x < s)"
    | (within) "in_range start end (fst x)" "\<not> (\<exists>s. start = Some s \<and> fst x < s)" "\<not> (\<exists>e. end = Some e \<and> e \<le> fst x)"
    by (fastforce simp: in_range_def split: option.splits)
  then show ?case
  proof cases
    case before
    then have "\<not> in_range start end (fst x)" by (auto simp: in_range_def)
    then show ?thesis using r before dec pos unfold by auto
  next
    case after
    then have "range_block start end buf pos out = Inr (True, out)" "\<not> in_range start end (fst x)"
      using dec pos unfold by (auto simp: in_range_def split: option.splits)
    then show ?thesis using after stop by auto
  next
    case within
    then have "range_block start end buf pos out = range_block start end buf (pos + length (encode_entry x)) (out @ [x])"
      using dec pos unfold by (auto split: option.splits)
    then show ?thesis using r within by auto
  qed
qed

section \<open>The iterators\<close>

text \<open>
  A stream of blocks: block \<open>i\<close> holds the encodings of group \<open>i\<close>, and \<open>items\<close> polls \<open>next\<close> until it
  returns nothing.
\<close>

locale block_reader = cursor_view enc dec wf view
  for enc :: "'a \<Rightarrow> bytes" and dec :: "bytes \<Rightarrow> nat \<Rightarrow> storage_error + 'b \<times> nat"
    and wf :: "'a \<Rightarrow> bool" and view :: "'a \<Rightarrow> 'b" +
  fixes load :: "'s \<Rightarrow> nat \<Rightarrow> storage_error + bytes"
    and count :: "'s \<Rightarrow> nat"
    and items :: "'s \<Rightarrow> sst_iter_state \<Rightarrow> (storage_error + 'b) list"
    and uses :: "'s \<Rightarrow> bool"
  assumes items_unfold: "uses s \<Longrightarrow> items s it =
      (case iter_next (load s) dec (count s) it of (None, it') \<Rightarrow> [] | (Some r, it') \<Rightarrow> r # items s it')"
begin

definition serves :: "'s \<Rightarrow> 'a list list \<Rightarrow> bool" where
  "serves s gs \<longleftrightarrow> uses s \<and> count s = length gs \<and>
     (\<forall>i < length gs. gs ! i \<noteq> [] \<and> (\<forall>x \<in> set (gs ! i). wf x) \<and>
        load s i = Inr (concat (map enc (gs ! i))) \<and> length (concat (map enc (gs ! i))) < usize_bound)"

lemma items_in_block:
  assumes "serves s gs" "it_block it = pre @ concat (map enc xs)" "it_pos it = length pre"
    and "\<forall>x \<in> set xs. wf x" "length (it_block it) < usize_bound"
  shows "items s it = map (Inr \<circ> view) xs @ items s (it\<lparr>it_pos := length (it_block it)\<rparr>)"
  using assms
proof (induction xs arbitrary: pre it)
  case Nil
  then have "it\<lparr>it_pos := length (it_block it)\<rparr> = it" by simp
  then show ?case by simp
next
  case (Cons x xs)
  let ?p = "length pre + length (enc x)"
  have "dec (it_block it) (it_pos it) = Inr (view x, ?p)"
    using Cons.prems by (simp add: dec_enc_at [of x _ pre "concat (map enc xs)"])
  moreover have "it_pos it < length (it_block it)"
    using Cons.prems enc_nonempty [of x] by simp
  ultimately have "iter_next (load s) dec (count s) it = (Some (Inr (view x)), it\<lparr>it_pos := ?p\<rparr>)"
    by (simp add: iter_next_def iter_fill.simps)
  then have "items s it = Inr (view x) # items s (it\<lparr>it_pos := ?p\<rparr>)"
    using items_unfold [of s it] Cons.prems(1) by (simp add: serves_def)
  also have "items s (it\<lparr>it_pos := ?p\<rparr>) = map (Inr \<circ> view) xs @ items s (it\<lparr>it_pos := length (it_block it)\<rparr>)"
    using Cons.prems Cons.IH [of "it\<lparr>it_pos := ?p\<rparr>" "pre @ enc x"] by simp
  finally show ?case by simp
qed

lemma items_from:
  assumes "serves s gs" "it_pos it = length (it_block it)"
  shows "items s it = map (Inr \<circ> view) (concat (drop (it_next_block it) gs))"
  using assms
proof (induction "length gs - it_next_block it" arbitrary: it)
  case 0
  then have "iter_next (load s) dec (count s) it = (None, it)" by (simp add: iter_next_def serves_def iter_fill.simps)
  then show ?case using 0 items_unfold [of s it] by (simp add: serves_def)
next
  case (Suc m)
  let ?i = "it_next_block it"
  let ?b = "concat (map enc (gs ! ?i))"
  let ?it = "it\<lparr>it_next_block := ?i + 1, it_pos := 0, it_block := ?b\<rparr>"
  have i: "?i < length gs" using Suc by simp
  then have g: "gs ! ?i \<noteq> []" "\<forall>x \<in> set (gs ! ?i). wf x" "load s ?i = Inr ?b" "length ?b < usize_bound"
    "count s = length gs" "uses s"
    using Suc.prems by (auto simp: serves_def)
  have "?b \<noteq> []" using g(1,2) enc_nonempty by (cases "gs ! ?i") auto
  then have "iter_fill (load s) (count s) it = iter_fill (load s) (count s) ?it"
    using Suc.prems i g by (subst iter_fill.simps) simp
  then have "iter_next (load s) dec (count s) it = iter_next (load s) dec (count s) ?it"
    by (simp add: iter_next_def)
  then have "items s it = items s ?it" using items_unfold [of s it] items_unfold [of s ?it] g by simp
  also have "\<dots> = map (Inr \<circ> view) (gs ! ?i) @ items s (?it\<lparr>it_pos := length ?b\<rparr>)"
    using Suc.prems g items_in_block [of s gs ?it "[]" "gs ! ?i"] by simp
  also have "items s (?it\<lparr>it_pos := length ?b\<rparr>) = map (Inr \<circ> view) (concat (drop (?i + 1) gs))"
    using Suc by (subst Suc.hyps(1)) auto
  finally show ?case using i by (simp add: Cons_nth_drop_Suc [symmetric])
qed

lemma items_iter_at:
  "serves s gs \<Longrightarrow> items s (iter_at i) = map (Inr \<circ> view) (concat (drop i gs))"
  using items_from [of s gs "iter_at i"] by (simp add: iter_at_def)

end

interpretation entry_reader: block_reader encode_entry decode_entry entry_ok "\<lambda>x. x"
  "\<lambda>s i. read_block (fst s) (snd s) (st_blocks (snd s) ! i)" "\<lambda>s. length (st_blocks (snd s))"
  "\<lambda>s. sst_items (fst s) (snd s)" "\<lambda>_. True"
  by unfold_locales (subst sst_items.simps, simp add: sst_iter_next_def)

text \<open>Stamps come from the sidecar when the table has one, and from the data blocks otherwise.\<close>

interpretation sidecar_reader: block_reader encode_stamp decode_stamp entry_ok stamp_of
  "\<lambda>s. read_stamp_block (fst s) (snd s) (the (st_stamps (snd s)))" "\<lambda>s. length (st_blocks (snd s))"
  "\<lambda>s. stamps_items (fst s) (snd s)" "\<lambda>s. st_stamps (snd s) \<noteq> None"
  by unfold_locales (subst stamps_items.simps, auto simp: stamps_iter_next_def)

interpretation fallback_reader: block_reader encode_entry decode_entry_stamp entry_ok stamp_of
  "\<lambda>s i. read_block (fst s) (snd s) (st_blocks (snd s) ! i)" "\<lambda>s. length (st_blocks (snd s))"
  "\<lambda>s. stamps_items (fst s) (snd s)" "\<lambda>s. st_stamps (snd s) = None"
  by unfold_locales (subst stamps_items.simps, simp add: stamps_iter_next_def)

section \<open>The block cache\<close>

definition bc_wf :: "block_cache \<Rightarrow> bool" where
  "bc_wf c \<longleftrightarrow> length c = BLOCK_CACHE_SHARDS \<and> (\<forall>s \<in> set c. bt_ok (bs_map s))"

lemma bc_evict_ok:
  assumes "bt_ok m"
  shows "submap (map_of (bs_map (bc_evict n fifo m))) (map_of m) \<and> bt_ok (bs_map (bc_evict n fifo m))"
  using assms
proof (induction n fifo m rule: bc_evict.induct)
  case (2 n old fifo m)
  have "submap f (map_of m)" if "submap f (map_of (bt_remove old m))" for f
    using submap_trans [OF that] by (simp add: submap_def)
  then show ?case using 2 by (simp del: map_of_bt_remove)
qed simp

lemma bc_shard_bound: "length c = BLOCK_CACHE_SHARDS \<Longrightarrow> bc_shard c off < BLOCK_CACHE_SHARDS"
  by (simp add: bc_shard_def Let_def unat_mod)

lemma bc_shard_update [simp]: "bc_shard (c[i := s]) off = bc_shard c off"
  by (simp add: bc_shard_def)

interpretation block_cache: lossy_cache bc_get bc_insert bc_wf
proof
  fix c off block assume wf: "bc_wf c"
  let ?s = "c ! bc_shard c off"
  have shard: "bc_shard c o' < length c" for o' using wf bc_shard_bound by (simp add: bc_wf_def)
  then have ok: "bt_ok (bs_map ?s)" using wf by (simp add: bc_wf_def)
  define s' where "s' = bc_evict (BLOCK_CACHE_BLOCKS div BLOCK_CACHE_SHARDS)
    (if map_of (bs_map ?s) off = None then bs_fifo ?s @ [off] else bs_fifo ?s) (bt_insert off block (bs_map ?s))"
  have ins: "bc_insert off block c = c[bc_shard c off := s']"
    by (simp add: bc_insert_def s'_def Let_def)
  have s': "submap (map_of (bs_map s')) ((map_of (bs_map ?s))(off \<mapsto> block))" "bt_ok (bs_map s')"
    using bc_evict_ok [OF bt_ok_insert [OF ok]] by (simp_all add: s'_def)
  show "submap (bc_get (bc_insert off block c)) ((bc_get c)(off \<mapsto> block))"
    using s'(1) shard by (auto simp: ins submap_def bc_get_def nth_list_update)
  show "bc_wf (bc_insert off block c)"
    using wf s'(2) by (auto simp: ins bc_wf_def dest: set_update_subset_insert [THEN subsetD])
qed

lemma bc_wf_default [simp]: "bc_wf block_cache_default"
  by (simp add: bc_wf_def block_cache_default_def)

lemma bc_get_default [simp]: "bc_get block_cache_default off = None"
  using bc_shard_bound [of block_cache_default off]
  by (simp add: bc_get_def block_cache_default_def)

section \<open>What a table holds\<close>

text \<open>The contents cut into the groups of its blocks.\<close>

definition block_at :: "block_meta list \<Rightarrow> entry list list \<Rightarrow> u64 \<Rightarrow> bytes" where
  "block_at blocks gs off = (case map_of (zip (map bm_offset blocks) gs) off of Some g \<Rightarrow> block_bytes g | None \<Rightarrow> [])"

abbreviation deletes :: "entry list \<Rightarrow> entry list" where
  "deletes es \<equiv> filter (\<lambda>e. snd (snd e) = Delete) es"

definition counts_of :: "entry list \<Rightarrow> u64 \<times> u64" where
  "counts_of es = (of_nat (length es - length (deletes es)), of_nat (length (deletes es)))"

definition groups_ok :: "entry list list \<Rightarrow> bool" where
  "groups_ok gs \<longleftrightarrow> bt_ok (concat gs) \<and> (\<forall>g \<in> set gs. g \<noteq> [] \<and> length (block_bytes g) < usize_bound) \<and>
     (\<forall>e \<in> set (concat gs). entry_ok e)"

definition sst_rel :: "externals \<Rightarrow> sstable \<Rightarrow> entry list list \<Rightarrow> bool" where
  "sst_rel X t gs \<longleftrightarrow> groups_ok gs \<and>
     map bm_first_key (st_blocks t) = map (fst \<circ> hd) gs \<and>
     (\<forall>i < length gs. read_block X t (st_blocks t ! i) = Inr (block_bytes (gs ! i))) \<and>
     bloom_ok (st_bloom t) \<and> (\<forall>e \<in> set (concat gs). bloom_contains (st_bloom t) (fst e) = Some True) \<and>
     distinct (map bm_offset (st_blocks t)) \<and>
     bc_wf (st_block_cache t) \<and> block_cache.coherent (st_block_cache t) (block_at (st_blocks t) gs) \<and>
     st_entry_count t = of_nat (length (concat gs)) \<and>
     (\<forall>c. st_version_counts t = Some c \<longrightarrow> c = counts_of (concat gs)) \<and>
     (\<forall>s. st_stamps t = Some s \<longrightarrow>
        (\<forall>i < length gs. read_stamp_block X t s i = Inr (concat (map encode_stamp (gs ! i)))))"

definition sst_holds :: "externals \<Rightarrow> sstable \<Rightarrow> entry list \<Rightarrow> bool" where
  "sst_holds X t es \<longleftrightarrow> (\<exists>gs. concat gs = es \<and> sst_rel X t gs)"

lemma sst_rel_length: "sst_rel X t gs \<Longrightarrow> length (st_blocks t) = length gs"
  unfolding sst_rel_def by (metis length_map)

lemma groups_ok_nth:
  assumes "groups_ok gs" "i < length gs"
  shows "gs ! i \<noteq> []" "length (block_bytes (gs ! i)) < usize_bound" "\<forall>e \<in> set (gs ! i). entry_ok e" "bt_ok (gs ! i)"
proof -
  have "gs ! i \<in> set gs" using assms(2) by simp
  then show "gs ! i \<noteq> []" "length (block_bytes (gs ! i)) < usize_bound" "\<forall>e \<in> set (gs ! i). entry_ok e"
    using assms(1) by (auto simp: groups_ok_def)
  have "bt_ok (concat gs)" using assms(1) by (simp add: groups_ok_def)
  also have "concat gs = concat (take i gs) @ gs ! i @ concat (drop (Suc i) gs)"
    using id_take_nth_drop [OF assms(2)] by (metis concat.simps(2) concat_append)
  finally show "bt_ok (gs ! i)" by (simp add: sorted_wrt_append)
qed

text \<open>The block index finds the only group that can hold a key.\<close>

lemma groups_seek:
  assumes "groups_ok gs" and i: "i = length (takeWhile (\<lambda>g. fst (hd g) \<le> key) gs)"
  shows "\<forall>e \<in> set (concat (drop i gs)). key < fst e"
    and "\<forall>e \<in> set (concat (take (i - 1) gs)). fst e < key"
    and "i > 0 \<Longrightarrow> concat gs = concat (take (i - 1) gs) @ gs ! (i - 1) @ concat (drop i gs)"
proof -
  have len: "i \<le> length gs" by (simp add: i length_takeWhile_le)
  have sorted: "bt_ok (concat gs)" and ne: "\<forall>g \<in> set gs. g \<noteq> []" using assms(1) by (auto simp: groups_ok_def)
  show "\<forall>e \<in> set (concat (drop i gs)). key < fst e"
  proof (cases "i < length gs")
    case True
    obtain e es where e: "gs ! i = e # es" using ne True by (meson list.exhaust nth_mem)
    have "\<not> fst (hd (gs ! i)) \<le> key"
      using True nth_length_takeWhile [of "\<lambda>g. fst (hd g) \<le> key" gs] by (simp add: i)
    then have key: "key < fst e" by (simp add: e not_le)
    have drop: "concat (drop i gs) = e # es @ concat (drop (Suc i) gs)"
      using True by (simp add: Cons_nth_drop_Suc [symmetric] e)
    have "bt_ok (concat (take i gs @ drop i gs))" using sorted by simp
    then have "bt_ok (concat (drop i gs))" unfolding concat_append bt_ok_append_iff by blast
    then have later: "fst e < fst x" if "x \<in> set (es @ concat (drop (Suc i) gs))" for x
      using that unfolding drop by (rule bt_ok_Cons_less)
    have "key < fst x" if "x = e \<or> x \<in> set (es @ concat (drop (Suc i) gs))" for x
      using that key later [of x] less_trans [of key "fst e" "fst x"] by blast
    then show ?thesis unfolding drop by simp
  qed simp
  show split: "concat gs = concat (take (i - 1) gs) @ gs ! (i - 1) @ concat (drop i gs)" if "i > 0"
  proof -
    have "gs = take (i - 1) gs @ gs ! (i - 1) # drop i gs"
      using id_take_nth_drop [of "i - 1" gs] that len by simp
    then have "concat gs = concat (take (i - 1) gs @ gs ! (i - 1) # drop i gs)" by (rule arg_cong)
    then show ?thesis by simp
  qed
  show "\<forall>e \<in> set (concat (take (i - 1) gs)). fst e < key"
  proof (cases "i > 0")
    case True
    have "i - 1 < length (takeWhile (\<lambda>g. fst (hd g) \<le> key) gs)" using True by (simp add: i)
    then have "fst (hd (gs ! (i - 1))) \<le> key"
      by (metis (mono_tags, lifting) nth_mem set_takeWhileD takeWhile_nth)
    moreover have "hd (gs ! (i - 1)) \<in> set (gs ! (i - 1))"
      using ne True len by (metis Suc_diff_1 Suc_le_lessD list.set_sel(1) nth_mem)
    moreover have "bt_ok (concat (take (i - 1) gs) @ gs ! (i - 1) @ concat (drop i gs))"
      using sorted split [OF True] by simp
    ultimately have "fst x < key" if "x \<in> set (concat (take (i - 1) gs))" for x
      using bt_ok_append_less [OF _ that] less_le_trans by blast
    then show ?thesis by blast
  qed simp
qed

lemma partition_point_groups:
  assumes "sst_rel X t gs"
  shows "partition_point (\<lambda>b. bm_first_key b \<le> key) (st_blocks t) = length (takeWhile (\<lambda>g. fst (hd g) \<le> key) gs)"
proof -
  have "length (takeWhile (\<lambda>k. k \<le> key) (map bm_first_key (st_blocks t)))
      = length (takeWhile (\<lambda>k. k \<le> key) (map (fst \<circ> hd) gs))"
    using assms by (simp add: sst_rel_def)
  then show ?thesis by (simp add: takeWhile_map partition_point_def comp_def)
qed

lemma block_at_nth:
  assumes "sst_rel X t gs" "i < length gs"
  shows "block_at (st_blocks t) gs (bm_offset (st_blocks t ! i)) = block_bytes (gs ! i)"
proof -
  have "map_of (zip (map bm_offset (st_blocks t)) gs) (map bm_offset (st_blocks t) ! i) = Some (gs ! i)"
    using assms sst_rel_length [OF assms(1)] by (intro map_of_zip_nth) (auto simp: sst_rel_def)
  then show ?thesis using assms sst_rel_length [OF assms(1)] by (simp add: block_at_def)
qed

lemma read_cache_update [simp]:
  "read_block X (t\<lparr>st_block_cache := c\<rparr>) = read_block X t"
  "read_stamp_block X (t\<lparr>st_block_cache := c\<rparr>) = read_stamp_block X t"
  "read_block X (t\<lparr>st_version_counts := vc\<rparr>) = read_block X t"
  "read_stamp_block X (t\<lparr>st_version_counts := vc\<rparr>) = read_stamp_block X t"
  by (simp_all add: fun_eq_iff read_block_def read_stamp_block_def)

lemma sst_rel_cache:
  "sst_rel X t gs \<Longrightarrow> bc_wf c \<Longrightarrow> block_cache.coherent c (block_at (st_blocks t) gs) \<Longrightarrow>
    sst_rel X (t\<lparr>st_block_cache := c\<rparr>) gs"
  by (simp add: sst_rel_def)

lemma read_block_cached_correct:
  assumes rel: "sst_rel X t gs" and i: "i < length gs"
  shows "\<exists>c. read_block_cached X t (st_blocks t ! i) = (t\<lparr>st_block_cache := c\<rparr>, Inr (block_bytes (gs ! i)))
    \<and> sst_rel X (t\<lparr>st_block_cache := c\<rparr>) gs"
proof (cases "bc_get (st_block_cache t) (bm_offset (st_blocks t ! i))")
  case None
  let ?c = "bc_insert (bm_offset (st_blocks t ! i)) (block_bytes (gs ! i)) (st_block_cache t)"
  have "read_block X t (st_blocks t ! i) = Inr (block_bytes (gs ! i))" using assms by (simp add: sst_rel_def)
  moreover have "sst_rel X (t\<lparr>st_block_cache := ?c\<rparr>) gs"
    using rel block_at_nth [OF assms]
    by (intro sst_rel_cache block_cache.inv_remember block_cache.coherent_remember) (auto simp: sst_rel_def)
  ultimately show ?thesis using None by (auto simp: read_block_cached_def)
next
  case (Some b)
  then have "b = block_bytes (gs ! i)"
    using block_cache.coherentD rel block_at_nth [OF assms] by (auto simp: sst_rel_def)
  then show ?thesis
    using Some rel by (intro exI [of _ "st_block_cache t"]) (simp add: read_block_cached_def)
qed

text \<open>A point read finds the version of the key, and leaves the contents as they were.\<close>

lemma sst_get_correct:
  assumes rel: "sst_rel X t gs"
  shows "\<exists>c. sst_get X t key = Some (t\<lparr>st_block_cache := c\<rparr>, Inr (map_of (concat gs) key))
    \<and> sst_rel X (t\<lparr>st_block_cache := c\<rparr>) gs"
proof -
  have ok: "groups_ok gs" using rel by (simp add: sst_rel_def)
  let ?i = "length (takeWhile (\<lambda>g. fst (hd g) \<le> key) gs)"
  note seek = groups_seek [OF ok refl, of key]
  obtain ans where ans: "bloom_contains (st_bloom t) key = Some ans"
    using rel bloom_filter.contains_total by (fastforce simp: sst_rel_def)
  have miss: ?thesis if "map_of (concat gs) key = None" "sst_get X t key = Some (t, Inr None)"
    using that rel by (intro exI [of _ "st_block_cache t"]) simp
  consider "ans = False" | "ans" "?i = 0" | "ans" "?i > 0" by auto
  then show ?thesis
  proof cases
    case 1
    then have "map_of (concat gs) key = None"
      using rel ans by (force simp: sst_rel_def map_of_eq_None_iff)
    then show ?thesis using 1 ans by (intro miss) (simp_all add: sst_get_def)
  next
    case 2
    then have "\<forall>x \<in> set (concat gs). key < fst x" using seek(1) by simp
    then have "map_of (concat gs) key = None" by (metis less_irrefl map_of_SomeD not_None_eq fst_conv)
    then show ?thesis using 2 ans by (intro miss) (simp_all add: sst_get_def partition_point_groups [OF rel])
  next
    case 3
    have i: "?i - 1 < length gs" using 3 length_takeWhile_le [of "\<lambda>g. fst (hd g) \<le> key" gs] by linarith
    have "map_of (concat gs) key = map_of (gs ! (?i - 1)) key"
      unfolding seek(3) [OF 3(2)] using seek(1,2) by (intro map_of_append_disjoint ballI) (metis less_irrefl)+
    moreover have "get_loop (block_bytes (gs ! (?i - 1))) key 0 = Inr (map_of (gs ! (?i - 1)) key)"
      using groups_ok_nth [OF ok i] by (intro get_loop_block [of _ "[]"]) auto
    ultimately show ?thesis
      using read_block_cached_correct [OF rel i] 3 ans
      by (elim exE conjE) (simp add: sst_get_def partition_point_groups [OF rel] exI)
  qed
qed

lemma sst_get_holds:
  assumes "sst_holds X t es"
  shows "\<exists>t'. sst_get X t key = Some (t', Inr (map_of es key)) \<and> sst_holds X t' es \<and>
    st_file t' = st_file t"
proof -
  obtain gs where gs: "concat gs = es" "sst_rel X t gs" using assms by (auto simp: sst_holds_def)
  obtain c where "sst_get X t key = Some (t\<lparr>st_block_cache := c\<rparr>, Inr (map_of es key))"
    "sst_rel X (t\<lparr>st_block_cache := c\<rparr>) gs"
    using sst_get_correct [OF gs(2)] gs(1) by metis
  then show ?thesis using gs(1) by (auto simp: sst_holds_def)
qed


section \<open>Ranges and iterators\<close>

lemma range_blocks_correct:
  assumes "groups_ok gs" "length metas = length gs"
    and "\<forall>i < length gs. bm_first_key (metas ! i) = fst (hd (gs ! i)) \<and> read_block X t (metas ! i) = Inr (block_bytes (gs ! i))"
  shows "range_blocks X t start end metas out = Inr (out @ filter (\<lambda>e. in_range start end (fst e)) (concat gs))"
  using assms
proof (induction metas arbitrary: gs out)
  case (Cons meta metas)
  obtain g gs' where gs: "gs = g # gs'" using Cons.prems by (cases gs) auto
  have sorted: "bt_ok (g @ concat gs')" using Cons.prems(1) by (simp add: groups_ok_def gs)
  have g: "g \<noteq> []" "length (block_bytes g) < usize_bound" "\<forall>e \<in> set g. entry_ok e" "bt_ok g"
    using groups_ok_nth [OF Cons.prems(1), of 0] by (simp_all add: gs)
  have meta: "bm_first_key meta = fst (hd g)" "read_block X t meta = Inr (block_bytes g)"
    using Cons.prems(3) by (auto simp: gs)
  have gs': "groups_ok gs'" using Cons.prems(1) by (simp add: groups_ok_def gs sorted_wrt_append)
  have IH: "range_blocks X t start end metas out' = Inr (out' @ filter (\<lambda>e. in_range start end (fst e)) (concat gs'))" for out'
  proof (rule Cons.IH [OF gs'])
    show "length metas = length gs'" using Cons.prems by (simp add: gs)
    show "\<forall>i < length gs'. bm_first_key (metas ! i) = fst (hd (gs' ! i)) \<and> read_block X t (metas ! i) = Inr (block_bytes (gs' ! i))"
      using Cons.prems(3) by (auto simp: gs)
  qed
  have past: "filter (\<lambda>e. in_range start end (fst e)) xs = []" if "end = Some e" "\<forall>x \<in> set xs. e \<le> fst x" for e xs
    using that by (fastforce simp: filter_empty_conv in_range_def)
  show ?case
  proof (cases "\<exists>e. end = Some e \<and> e \<le> bm_first_key meta")
    case True
    then obtain e where e: "end = Some e" "e \<le> fst (hd g)" using meta by auto
    have eq: "hd g # (tl g @ concat gs') = g @ concat gs'" using g(1) by (cases g) auto
    have "bt_ok (hd g # (tl g @ concat gs'))" unfolding eq by (rule sorted)
    then have "e \<le> fst x" if "x \<in> set (hd g # (tl g @ concat gs'))" for x
      using order_trans [OF e(2) bt_ok_Cons_ge] that by blast
    then have "filter (\<lambda>e. in_range start end (fst e)) (g @ concat gs') = []"
      using past [OF e(1), of "hd g # (tl g @ concat gs')"] by (simp only: eq) blast
    then show ?thesis using e meta by (simp add: gs)
  next
    case False
    obtain r where r: "range_block start end (block_bytes g) 0 out = Inr (r, out @ filter (\<lambda>x. in_range start end (fst x)) g)"
      "r \<longrightarrow> (\<exists>x \<in> set g. \<exists>e. end = Some e \<and> e \<le> fst x)"
      using range_block_block [OF _ _ g(2,3,4), of "[]" 0 start "end" out] by auto
    have "filter (\<lambda>e. in_range start end (fst e)) (concat gs') = []" if early: "r"
    proof -
      obtain x e where x: "x \<in> set g" "end = Some e" "e \<le> fst x" using r(2) early by blast
      have "e \<le> fst y" if "y \<in> set (concat gs')" for y
        using bt_ok_append_less [of g "concat gs'" "[]" x y] sorted x that by simp
      then show ?thesis using past x(2) by blast
    qed
    then show ?thesis using False meta r IH by (auto simp: gs split: option.splits)
  qed
qed simp

lemma seek_block_groups:
  assumes rel: "sst_rel X t gs"
  shows "\<forall>e \<in> set (concat (take (seek_block start t) gs)). \<exists>s. start = Some s \<and> fst e < s"
proof (cases start)
  case (Some s)
  have ok: "groups_ok gs" using rel by (simp add: sst_rel_def)
  show ?thesis
    using groups_seek(2) [OF ok refl, of s] by (simp add: Some seek_block_def partition_point_groups [OF rel])
qed (simp add: seek_block_def)

lemma groups_ok_drop: "groups_ok gs \<Longrightarrow> groups_ok (drop i gs)"
proof -
  assume ok: "groups_ok gs"
  then have "bt_ok (concat (take i gs @ drop i gs))" by (simp add: groups_ok_def)
  then have "bt_ok (concat (drop i gs))" unfolding concat_append bt_ok_append_iff by blast
  moreover have "set (drop i gs) \<subseteq> set gs" by (rule set_drop_subset)
  ultimately show ?thesis using ok by (auto simp: groups_ok_def)
qed

lemma sst_range_correct:
  assumes rel: "sst_rel X t gs"
  shows "sst_range X t start end = Inr (filter (\<lambda>e. in_range start end (fst e)) (concat gs))"
proof -
  define i where "i = min (seek_block start t) (length (st_blocks t))"
  have len: "length (st_blocks t) = length gs" by (rule sst_rel_length [OF rel])
  have firsts: "bm_first_key (st_blocks t ! j) = fst (hd (gs ! j))" if "j < length gs" for j
    using rel that len unfolding sst_rel_def by (metis comp_apply nth_map)
  have "range_blocks X t start end (drop i (st_blocks t)) []
      = Inr ([] @ filter (\<lambda>e. in_range start end (fst e)) (concat (drop i gs)))"
    using rel len firsts by (intro range_blocks_correct groups_ok_drop) (auto simp: sst_rel_def)
  moreover have "filter (\<lambda>e. in_range start end (fst e)) (concat (take i gs)) = []"
  proof -
    have "take i gs = take (seek_block start t) gs" by (simp add: i_def len min_def)
    then show ?thesis
      using seek_block_groups [OF rel, of start] by (fastforce simp: filter_empty_conv in_range_def)
  qed
  moreover have "concat gs = concat (take i gs) @ concat (drop i gs)"
    by (metis append_take_drop_id concat_append)
  ultimately show ?thesis by (simp add: sst_range_def i_def)
qed

lemma serves_entries: "sst_rel X t gs \<Longrightarrow> entry_reader.serves (X, t) gs"
  using groups_ok_nth [of gs] sst_rel_length [of X t gs] by (auto simp: entry_reader.serves_def sst_rel_def)

lemma serves_fallback: "sst_rel X t gs \<Longrightarrow> st_stamps t = None \<Longrightarrow> fallback_reader.serves (X, t) gs"
  using groups_ok_nth [of gs] sst_rel_length [of X t gs] by (auto simp: fallback_reader.serves_def sst_rel_def)

lemma stamp_bytes_le: "length (concat (map encode_stamp es)) \<le> length (block_bytes es)"
  by (induction es) (auto intro: add_mono length_encode_stamp)

lemma serves_sidecar: "sst_rel X t gs \<Longrightarrow> st_stamps t = Some s \<Longrightarrow> sidecar_reader.serves (X, t) gs"
  using groups_ok_nth [of gs] sst_rel_length [of X t gs] order.strict_trans1 [OF stamp_bytes_le]
  unfolding sidecar_reader.serves_def by (auto simp: sst_rel_def)

lemma sst_items_correct: "sst_rel X t gs \<Longrightarrow> sst_items X t (iter_at i) = map Inr (concat (drop i gs))"
  using entry_reader.items_iter_at [OF serves_entries] by (simp add: comp_def)

lemma stamps_items_correct:
  assumes "sst_rel X t gs"
  shows "stamps_items X t (iter_at i) = map (Inr \<circ> stamp_of) (concat (drop i gs))"
proof (cases "st_stamps t")
  case None
  then show ?thesis using fallback_reader.items_iter_at [OF serves_fallback [OF assms]] by simp
next
  case (Some s)
  then show ?thesis using sidecar_reader.items_iter_at [OF serves_sidecar [OF assms]] by simp
qed

text \<open>Seeking drops only entries before the bound.\<close>

lemma seek_split:
  assumes "sst_rel X t gs"
  shows "\<exists>pre. concat gs = pre @ concat (drop (seek_block start t) gs) \<and>
    (\<forall>e \<in> set pre. \<exists>s. start = Some s \<and> fst e < s)"
  using seek_block_groups [OF assms, of start] by (metis append_take_drop_id concat_append)

lemma collect_ok_Inr [simp]: "collect_ok (map Inr xs) = Inr xs"
  by (induction xs) auto

lemma count_versions_eq:
  "count_versions (map Inr es) (p, d) = (p + fst (counts_of es), d + snd (counts_of es))"
proof (induction es arbitrary: p d)
  case (Cons e es)
  obtain k h v where e: "e = (k, h, v)" by (cases e)
  have "length (deletes es) \<le> length es" by simp
  then show ?case using Cons by (cases v) (auto simp: e counts_of_def Suc_diff_le)
qed (simp add: counts_of_def)

section \<open>The operations on the contents\<close>

lemma sst_holds_sorted: "sst_holds X t es \<Longrightarrow> bt_ok es"
  by (auto simp: sst_holds_def sst_rel_def groups_ok_def)

lemma sst_range_holds:
  "sst_holds X t es \<Longrightarrow> sst_range X t start end = Inr (filter (\<lambda>e. in_range start end (fst e)) es)"
  using sst_range_correct by (auto simp: sst_holds_def)

lemma sst_iter_holds: "sst_holds X t es \<Longrightarrow> sst_iter X t = map Inr es"
  using sst_items_correct by (fastforce simp: sst_holds_def sst_iter_def)

lemma sst_entries_holds: "sst_holds X t es \<Longrightarrow> sst_entries X t = Inr es"
  by (simp add: sst_entries_def sst_iter_holds)

lemma sst_iter_from_holds:
  assumes "sst_holds X t es"
  obtains pre post where "es = pre @ post" "\<forall>e \<in> set pre. fst e < start" "sst_iter_from X t start = map Inr post"
proof -
  obtain gs where gs: "concat gs = es" "sst_rel X t gs" using assms by (auto simp: sst_holds_def)
  obtain pre where pre: "concat gs = pre @ concat (drop (seek_block (Some start) t) gs)" "\<forall>e \<in> set pre. fst e < start"
    using seek_split [OF gs(2), of "Some start"] by auto
  show thesis
    by (rule that [OF _ pre(2)]) (use pre(1) gs sst_items_correct [OF gs(2)] in \<open>auto simp: sst_iter_from_def\<close>)
qed

lemma stamps_iter_from_holds:
  assumes "sst_holds X t es"
  obtains pre post where "es = pre @ post" "\<forall>e \<in> set pre. \<exists>s. start = Some s \<and> fst e < s"
    "stamps_iter_from X t start = map (Inr \<circ> stamp_of) post"
proof -
  obtain gs where gs: "concat gs = es" "sst_rel X t gs" using assms by (auto simp: sst_holds_def)
  obtain pre where pre: "concat gs = pre @ concat (drop (seek_block start t) gs)"
    "\<forall>e \<in> set pre. \<exists>s. start = Some s \<and> fst e < s"
    using seek_split [OF gs(2), of start] by auto
  show thesis
    by (rule that [OF _ pre(2)]) (use pre(1) gs stamps_items_correct [OF gs(2)] in \<open>auto simp: stamps_iter_from_def\<close>)
qed

lemma version_counts_holds:
  assumes "sst_holds X t es"
  shows "\<exists>t'. version_counts X t = (t', counts_of es) \<and> sst_holds X t' es"
proof -
  obtain gs where gs: "concat gs = es" "sst_rel X t gs" using assms by (auto simp: sst_holds_def)
  show ?thesis
  proof (cases "st_version_counts t")
    case None
    then have "version_counts X t = (t\<lparr>st_version_counts := Some (counts_of es)\<rparr>, counts_of es)"
      using count_versions_eq [of es 0 0] sst_iter_holds [OF assms] by (simp add: version_counts_def Let_def)
    moreover have "sst_rel X (t\<lparr>st_version_counts := Some (counts_of es)\<rparr>) gs" using gs by (simp add: sst_rel_def)
    ultimately show ?thesis using gs(1) by (auto simp: sst_holds_def)
  next
    case (Some c)
    then have "c = counts_of es" using gs by (simp add: sst_rel_def)
    then show ?thesis using Some assms by (simp add: version_counts_def)
  qed
qed

end
