(* ===== verification/Sstable_Write.thy ===== *)
theory Sstable_Write
  imports Sstable_Read
begin

text \<open>
  Correctness of writing and opening the immutable tables. \<open>w_inv\<close> relates the writer to the groups
  it has sealed and the entries in its buffer; each entry and each seal keeps it, and what the
  finished writer leaves on disk opens to a table that holds the entries. Fewer than \<open>2 ^ 30\<close> entries
  of less than a gigabyte keep block lengths in 32 bits and offsets in 64.
\<close>

section \<open>Writing a table\<close>

definition file_block :: "externals \<Rightarrow> codec \<Rightarrow> dek option \<Rightarrow> bytes \<Rightarrow> block_meta \<Rightarrow> storage_error + bytes" where
  "file_block X codec dek f meta =
     rbind (read_exact_at f (unat (bm_comp_len meta)) (unat (bm_offset meta))) (\<lambda>on_disk.
     rbind (case dek of Some d \<Rightarrow> dek_open X d (bm_offset meta) on_disk | None \<Rightarrow> Inr on_disk) (\<lambda>comp.
     decompress X codec comp (unat (bm_uncomp_len meta))))"

lemma read_block_file: "read_block X t meta = file_block X (st_codec t) (st_dek t) (st_file t) meta"
  by (simp add: read_block_def file_block_def)

lemma read_exact_at_append: "read_exact_at f n off = Inr x \<Longrightarrow> read_exact_at (f @ g) n off = Inr x"
  by (auto simp: read_exact_at_def split: if_splits)

lemma file_block_append: "file_block X c d f m = Inr b \<Longrightarrow> file_block X c d (f @ g) m = Inr b"
  by (auto simp: file_block_def rbind_eq_Inr_iff [of "read_exact_at _ _ _"] dest: read_exact_at_append)

lemma read_exact_at_mid: "read_exact_at (pre @ xs @ post) (length xs) (length pre) = Inr xs"
  by (simp add: read_exact_at_def)

abbreviation stamp_bytes :: "entry list \<Rightarrow> bytes" where
  "stamp_bytes es \<equiv> concat (map encode_stamp es)"

definition stamp_lens :: "externals \<Rightarrow> codec \<Rightarrow> entry list \<Rightarrow> bytes" where
  "stamp_lens X codec g =
     le_bytes 4 (of_nat (length (compress X codec (stamp_bytes g))) :: u32) @ le_bytes 4 (of_nat (length (stamp_bytes g)) :: u32)"

text \<open>
  The writer after the sealed groups \<open>gs\<close> with the entries \<open>cur\<close> in its buffer.
\<close>

definition w_inv :: "externals \<Rightarrow> codec \<Rightarrow> dek option \<Rightarrow> sst_writer \<Rightarrow> entry list list \<Rightarrow> entry list \<Rightarrow> bool" where
  "w_inv X codec dek w gs cur \<longleftrightarrow>
     w_buf w = block_bytes cur \<and> w_stamp_buf w = stamp_bytes cur \<and>
     w_first w = (if cur = [] then None else Some (fst (hd cur))) \<and>
     bloom_ok (w_bloom w) \<and> (\<forall>e \<in> set (concat gs @ cur). bloom_contains (w_bloom w) (fst e) = Some True) \<and>
     w_entry_count w = of_nat (length (concat gs @ cur)) \<and>
     w_delete_count w = of_nat (length (deletes (concat gs @ cur))) \<and>
     unat (w_offset w) = length (w_out w) \<and> length (w_out w) \<le> length gs * 4294967296 \<and>
     map bm_first_key (w_blocks w) = map (fst \<circ> hd) gs \<and>
     (\<forall>i < length gs. file_block X codec dek (w_out w) (w_blocks w ! i) = Inr (block_bytes (gs ! i))) \<and>
     sorted_wrt (<) (map bm_offset (w_blocks w)) \<and> (\<forall>b \<in> set (w_blocks w). bm_offset b < w_offset w) \<and>
     (\<forall>g \<in> set gs. g \<noteq> [] \<and> length (block_bytes g) < 1073745920) \<and>
     (\<forall>out. w_stamps w = Some out \<longrightarrow> dek = None \<and> out = concat (map (\<lambda>g. compress X codec (stamp_bytes g)) gs) \<and>
        w_stamps_table w = concat (map (stamp_lens X codec) gs))"

lemma w_inv_new:
  assumes "sizing_ok X"
  shows "w_inv X codec dek (sst_writer_new X n dek env) [] []"
proof -
  obtain m k where mk: "bloom_sizing X n = (m, k)" by fastforce
  then have "bloom_ok (bloom_with_capacity m k)"
    using assms bloom_with_capacity_ok [of m k] unfolding sizing_ok_def by (metis fst_conv)
  then show ?thesis by (auto simp: w_inv_def sst_writer_new_def mk)
qed

text \<open>What is written for one block reads back as the block.\<close>

lemma sealed_block:
  assumes "codec_ok X" "aead_ok X" and len: "length buf < 1073745920" and "buf \<noteq> []"
    and seal: "(case dek of Some d \<Rightarrow> dek_seal X d off (compress X codec buf) | None \<Rightarrow> Inr (compress X codec buf)) = Inr on_disk"
    and out: "unat off = length out"
  shows "file_block X codec dek (out @ on_disk)
      \<lparr>bm_first_key = k, bm_offset = off, bm_comp_len = of_nat (length on_disk), bm_uncomp_len = of_nat (length buf)\<rparr> = Inr buf"
    and "on_disk \<noteq> []" and "length on_disk < 4294967296"
proof -
  have comp: "length (compress X codec buf) \<le> 2 * length buf + 1024" using assms(1) by (rule compress_length)
  have ne: "compress X codec buf \<noteq> []" using assms(1,4) by (rule compress_nonempty)
  have od: "(case dek of Some d \<Rightarrow> dek_open X d off on_disk | None \<Rightarrow> Inr on_disk) = Inr (compress X codec buf) \<and>
    length on_disk \<le> length (compress X codec buf) + 16 \<and> length (compress X codec buf) \<le> length on_disk"
    using seal dek_open_seal [OF assms(2)] by (cases dek) fastforce+
  then show l: "length on_disk < 4294967296" using comp len by simp
  show "on_disk \<noteq> []" using od ne by auto
  have "read_exact_at (out @ on_disk) (length on_disk) (length out) = Inr on_disk"
    using read_exact_at_mid [of out on_disk "[]"] by simp
  then show "file_block X codec dek (out @ on_disk)
      \<lparr>bm_first_key = k, bm_offset = off, bm_comp_len = of_nat (length on_disk), bm_uncomp_len = of_nat (length buf)\<rparr> = Inr buf"
    using od l len out assms(1)
    by (cases dek) (simp_all add: file_block_def unat_of_nat_u32 decompress_compress)
qed

lemma seal_stamps_inv:
  assumes "w_stamp_buf w = stamp_bytes cur" "length (w_blocks w) = length gs"
    and "\<forall>out. w_stamps w = Some out \<longrightarrow> dek = None \<and> out = concat (map (\<lambda>g. compress X codec (stamp_bytes g)) gs) \<and>
        w_stamps_table w = concat (map (stamp_lens X codec) gs)"
    and "w' = seal_stamps X codec env w"
  shows "\<forall>out. w_stamps w' = Some out \<longrightarrow> dek = None \<and> out = concat (map (\<lambda>g. compress X codec (stamp_bytes g)) (gs @ [cur])) \<and>
        w_stamps_table w' = concat (map (stamp_lens X codec) (gs @ [cur]))"
  using assms by (auto simp: seal_stamps_def Let_def stamp_lens_def split: option.splits if_splits)

lemma seal_stamps_frame [simp]:
  "w_blocks (seal_stamps X codec env w) = w_blocks w" "w_bloom (seal_stamps X codec env w) = w_bloom w"
  "w_entry_count (seal_stamps X codec env w) = w_entry_count w"
  "w_delete_count (seal_stamps X codec env w) = w_delete_count w"
  by (auto simp: seal_stamps_def Let_def split: option.splits)

lemma sst_seal_ok:
  assumes ext: "codec_ok X" "aead_ok X" and inv: "w_inv X codec dek w gs cur" and cur: "cur \<noteq> []"
    and len: "length (block_bytes cur) < 1073745920" and few: "length gs < 1073741824"
  shows "(\<exists>w'. sst_seal X codec dek env w = Some (Inr w') \<and> w_inv X codec dek w' (gs @ [cur]) []) \<or>
    (\<exists>e. dek \<noteq> None \<and> sst_seal X codec dek env w = Some (Inl (Crypto e)))"
proof -
  define sealed where "sealed = (case dek of Some d \<Rightarrow> dek_seal X d (w_offset w) (compress X codec (block_bytes cur))
    | None \<Rightarrow> Inr (compress X codec (block_bytes cur)))"
  have buf: "w_buf w = block_bytes cur" and first: "w_first w = Some (fst (hd cur))"
    using inv cur by (simp_all add: w_inv_def)
  show ?thesis
  proof (cases sealed)
    case (Inl e)
    then obtain d where d: "dek = Some d" "dek_seal X d (w_offset w) (compress X codec (block_bytes cur)) = Inl e"
      by (auto simp: sealed_def split: option.splits)
    then obtain m where "e = Crypto m" by (cases d) (auto split: option.splits)
    then show ?thesis using d by (simp add: sst_seal_def buf)
  next
    case (Inr on_disk)
    have ne: "block_bytes cur \<noteq> []" using cur by (cases cur) auto
    have out: "unat (w_offset w) = length (w_out w)" using inv by (simp add: w_inv_def)
    note blk = sealed_block [OF ext len ne Inr [unfolded sealed_def] out]
    define meta where "meta = \<lparr>bm_first_key = fst (hd cur), bm_offset = w_offset w,
      bm_comp_len = of_nat (length on_disk), bm_uncomp_len = of_nat (length (block_bytes cur))\<rparr>"
    define w' where "w' = (seal_stamps X codec env w)
      \<lparr>w_out := w_out w @ on_disk, w_offset := w_offset w + of_nat (length on_disk),
       w_first := None, w_buf := [], w_stamp_buf := [], w_blocks := w_blocks w @ [meta]\<rparr>"
    have res: "sst_seal X codec dek env w = Some (Inr w')"
      using Inr first by (simp add: sst_seal_def buf sealed_def meta_def w'_def)
    have lb: "length (w_blocks w) = length gs" using inv unfolding w_inv_def by (metis length_map)
    have bound: "length (w_out w) + length on_disk < 18446744073709551616" "length (w_out w) + length on_disk \<le> Suc (length gs) * 4294967296"
      using inv blk(3) few by (auto simp: w_inv_def)
    have off: "unat (w_offset w + of_nat (length on_disk)) = length (w_out w @ on_disk)"
      using out bound blk(3) by (simp add: unat_word_ariths unat_of_nat_u64)
    then have later: "w_offset w < w_offset w + of_nat (length on_disk)"
      using out blk(2) by (simp add: word_less_nat_alt)
    have blocks: "file_block X codec dek (w_out w @ on_disk) ((w_blocks w @ [meta]) ! i) = Inr (block_bytes ((gs @ [cur]) ! i))"
      if "i < Suc (length gs)" for i
      using that blk(1) inv lb file_block_append [of X codec dek "w_out w" "w_blocks w ! i" "block_bytes (gs ! i)" on_disk]
      by (cases "i = length gs") (auto simp: nth_append meta_def w_inv_def)
    have stamps: "\<forall>out. w_stamps w' = Some out \<longrightarrow> dek = None \<and> out = concat (map (\<lambda>g. compress X codec (stamp_bytes g)) (gs @ [cur])) \<and>
        w_stamps_table w' = concat (map (stamp_lens X codec) (gs @ [cur]))"
      using seal_stamps_inv [OF _ lb, of cur dek X codec _ env] inv by (simp add: w'_def w_inv_def)
    have "w_inv X codec dek w' (gs @ [cur]) []"
      unfolding w_inv_def
    proof (intro conjI)
      show "\<forall>i < length (gs @ [cur]). file_block X codec dek (w_out w') (w_blocks w' ! i) = Inr (block_bytes ((gs @ [cur]) ! i))"
        using blocks by (simp add: w'_def)
      show "sorted_wrt (<) (map bm_offset (w_blocks w'))" "\<forall>b \<in> set (w_blocks w'). bm_offset b < w_offset w'"
        using inv later by (auto simp: w_inv_def w'_def meta_def sorted_wrt_append intro: less_trans)
      show "\<forall>out. w_stamps w' = Some out \<longrightarrow> dek = None \<and> out = concat (map (\<lambda>g. compress X codec (stamp_bytes g)) (gs @ [cur])) \<and>
        w_stamps_table w' = concat (map (stamp_lens X codec) (gs @ [cur]))"
        by (rule stamps)
      show "unat (w_offset w') = length (w_out w')" "length (w_out w') \<le> length (gs @ [cur]) * 4294967296"
        using off bound by (simp_all add: w'_def)
    qed (use inv cur len in \<open>auto simp: w_inv_def w'_def meta_def\<close>)
    then show ?thesis using res by blast
  qed
qed

definition enc_failed :: "dek option \<Rightarrow> (storage_error + 'a) option \<Rightarrow> bool" where
  "enc_failed dek r \<longleftrightarrow> dek \<noteq> None \<and> (\<exists>e. r = Some (Inl (Crypto e)))"

lemma write_entry_ok:
  assumes ext: "codec_ok X" "aead_ok X" and inv: "w_inv X codec dek w gs cur"
    and small: "length (block_bytes cur) < BLOCK_TARGET" and e: "entry_ok e" and few: "length (concat gs) < 1073741824"
  shows "(\<exists>w' gs' cur'. write_entry X codec dek env e w = Some (Inr w') \<and> w_inv X codec dek w' gs' cur' \<and>
      length (block_bytes cur') < BLOCK_TARGET \<and> concat gs' @ cur' = concat gs @ cur @ [e]) \<or>
    enc_failed dek (write_entry X codec dek env e w)"
proof -
  have ok: "bloom_ok (w_bloom w)" using inv by (simp add: w_inv_def)
  then obtain b where b: "bloom_add (fst e) (w_bloom w) = Some b" "bloom_ok b"
    using bloom_filter.add_total by blast
  have contains: "bloom_contains b (fst x) = Some True" if "x \<in> set (concat gs @ cur) \<or> x = e" for x
    using that inv bloom_filter.contains_added [OF ok b(1)] bloom_filter.contains_kept [OF ok b(1)]
    unfolding w_inv_def by blast
  define w1 where "w1 = w\<lparr>w_first := (if w_first w = None then Some (fst e) else w_first w), w_bloom := b,
                   w_entry_count := w_entry_count w + 1,
                   w_delete_count := w_delete_count w + (if snd (snd e) = Delete then 1 else 0),
                   w_buf := w_buf w @ encode_entry e,
                   w_stamp_buf := w_stamp_buf w @ encode_stamp e\<rparr>"
  have step: "write_entry X codec dek env e w =
      (if length (w_buf w1) \<ge> BLOCK_TARGET then sst_seal X codec dek env w1 else Some (Inr w1))"
    using b by (simp add: write_entry_def w1_def Let_def)
  have inv1: "w_inv X codec dek w1 gs (cur @ [e])"
    unfolding w_inv_def
  proof (intro conjI)
    show "\<forall>x \<in> set (concat gs @ cur @ [e]). bloom_contains (w_bloom w1) (fst x) = Some True"
      using contains by (auto simp: w1_def)
    show "w_first w1 = (if cur @ [e] = [] then None else Some (fst (hd (cur @ [e]))))"
      using inv by (cases cur) (auto simp: w_inv_def w1_def)
  qed (use inv b in \<open>auto simp: w_inv_def w1_def\<close>)
  then have buf: "w_buf w1 = block_bytes (cur @ [e])" by (simp add: w_inv_def)
  show ?thesis
  proof (cases "length (w_buf w1) \<ge> BLOCK_TARGET")
    case True
    have len: "length (block_bytes (cur @ [e])) < 1073745920" using small e by (simp add: entry_ok_def)
    have ne: "\<forall>g \<in> set gs. g \<noteq> []" using inv by (auto simp: w_inv_def)
    have "length gs \<le> length (concat gs)" using ne by (rule length_le_concat)
    then have "length gs < 1073741824" using few by simp
    then consider w' where "sst_seal X codec dek env w1 = Some (Inr w')" "w_inv X codec dek w' (gs @ [cur @ [e]]) []"
      | m where "dek \<noteq> None" "sst_seal X codec dek env w1 = Some (Inl (Crypto m))"
      using sst_seal_ok [OF ext inv1 _ len, of env] by auto
    then show ?thesis
    proof cases
      case 1
      then show ?thesis
        using True step by (intro disjI1 exI [of _ w'] exI [of _ "gs @ [cur @ [e]]"] exI [of _ "[]"]) simp
    next
      case 2
      then show ?thesis using True step by (auto simp: enc_failed_def)
    qed
  next
    case False
    then show ?thesis
      using step inv1 buf by (intro disjI1 exI [of _ w1] exI [of _ gs] exI [of _ "cur @ [e]"]) simp
  qed
qed

lemma write_entries_ok:
  assumes ext: "codec_ok X" "aead_ok X" and inv: "w_inv X codec dek w gs cur"
    and small: "length (block_bytes cur) < BLOCK_TARGET" and es: "\<forall>e \<in> set es. entry_ok e"
    and few: "length (concat gs @ cur @ es) < 1073741824"
  shows "(\<exists>w' gs' cur'. write_entries X codec dek env (map Inr es) w = Some (Inr w') \<and> w_inv X codec dek w' gs' cur' \<and>
      length (block_bytes cur') < BLOCK_TARGET \<and> concat gs' @ cur' = concat gs @ cur @ es) \<or>
    enc_failed dek (write_entries X codec dek env (map Inr es) w)"
  using inv small es few
proof (induction es arbitrary: w gs cur)
  case Nil
  then show ?case by auto
next
  case (Cons e es)
  have ee: "entry_ok e" and few: "length (concat gs) < 1073741824" using Cons.prems by simp_all
  consider w1 gs1 cur1 where "write_entry X codec dek env e w = Some (Inr w1)" "w_inv X codec dek w1 gs1 cur1"
      "length (block_bytes cur1) < BLOCK_TARGET" "concat gs1 @ cur1 = concat gs @ cur @ [e]"
    | "enc_failed dek (write_entry X codec dek env e w)"
    using write_entry_ok [OF ext Cons.prems(1,2) ee few] by blast
  then show ?case
  proof cases
    case 1
    then have eq: "concat gs1 @ cur1 @ es = concat gs @ cur @ e # es" by (metis append.assoc append_Cons append_Nil)
    have "length (concat gs1 @ cur1 @ es) < 1073741824" unfolding eq by (rule Cons.prems(4))
    then have "(\<exists>w' gs' cur'. write_entries X codec dek env (map Inr es) w1 = Some (Inr w') \<and> w_inv X codec dek w' gs' cur' \<and>
      length (block_bytes cur') < BLOCK_TARGET \<and> concat gs' @ cur' = concat gs1 @ cur1 @ es) \<or>
      enc_failed dek (write_entries X codec dek env (map Inr es) w1)"
      using Cons.IH [OF 1(2,3)] Cons.prems(3) by simp
    then show ?thesis unfolding eq using 1(1) by simp
  next
    case 2
    then show ?thesis by (auto simp: enc_failed_def)
  qed
qed

section \<open>The sidecar\<close>

lemma stamps_blocks_lens:
  assumes "\<forall>g \<in> set gs. length (compress X codec (stamp_bytes g)) < 4294967296 \<and> length (stamp_bytes g) < 4294967296"
    and "unat off = length pre" "length pre + length (concat (map (\<lambda>g. compress X codec (stamp_bytes g)) gs)) < 18446744073709551616"
  shows "\<exists>bs off'. stamps_blocks (concat (map (stamp_lens X codec) gs)) (length gs) off = (bs, off') \<and>
    unat off' = length pre + length (concat (map (\<lambda>g. compress X codec (stamp_bytes g)) gs)) \<and>
    (\<forall>i < length gs. \<exists>ofs c u. bs ! i = (ofs, c, u) \<and> unat u = length (stamp_bytes (gs ! i)) \<and>
       read_exact_at (pre @ concat (map (\<lambda>g. compress X codec (stamp_bytes g)) gs) @ post) (unat c) (unat ofs)
         = Inr (compress X codec (stamp_bytes (gs ! i))))"
  using assms
proof (induction gs arbitrary: off pre)
  case Nil
  then show ?case by simp
next
  case (Cons g gs)
  define sc where "sc = compress X codec (stamp_bytes g)"
  have g: "length sc < 4294967296" "length (stamp_bytes g) < 4294967296"
    using Cons.prems(1) by (simp_all add: sc_def)
  have u: "unat (of_nat (length sc) :: u32) = length sc" using g by (simp add: unat_of_nat_u32)
  have "length pre + length sc < 18446744073709551616" using Cons.prems(3) by (simp add: sc_def)
  then have off: "unat (off + ucast (of_nat (length sc) :: u32)) = length (pre @ sc)"
    using Cons.prems(2) u g(1) by (simp add: unat_word_ariths unsigned_ucast_eq take_bit_nat_eq_self)
  have "length (pre @ sc) + length (concat (map (\<lambda>g. compress X codec (stamp_bytes g)) gs)) < 18446744073709551616"
    using Cons.prems(3) by (simp add: sc_def)
  then obtain bs off' where IH: "stamps_blocks (concat (map (stamp_lens X codec) gs)) (length gs) (off + ucast (of_nat (length sc) :: u32)) = (bs, off')"
    "unat off' = length (pre @ sc) + length (concat (map (\<lambda>g. compress X codec (stamp_bytes g)) gs))"
    "\<forall>i < length gs. \<exists>ofs c u. bs ! i = (ofs, c, u) \<and> unat u = length (stamp_bytes (gs ! i)) \<and>
       read_exact_at ((pre @ sc) @ concat (map (\<lambda>g. compress X codec (stamp_bytes g)) gs) @ post) (unat c) (unat ofs)
         = Inr (compress X codec (stamp_bytes (gs ! i)))"
    using Cons.IH [OF _ off] Cons.prems(1) by auto
  let ?bs = "(off, of_nat (length sc), of_nat (length (stamp_bytes g))) # bs"
  have "stamps_blocks (concat (map (stamp_lens X codec) (g # gs))) (length (g # gs)) off = (?bs, off')"
    using IH(1) by (simp add: stamp_lens_def sc_def)
  moreover have "unat off' = length pre + length (concat (map (\<lambda>g. compress X codec (stamp_bytes g)) (g # gs)))"
    using IH(2) by (simp add: sc_def)
  moreover have "\<forall>i < length (g # gs). \<exists>ofs c u. ?bs ! i = (ofs, c, u) \<and> unat u = length (stamp_bytes ((g # gs) ! i)) \<and>
       read_exact_at (pre @ concat (map (\<lambda>g. compress X codec (stamp_bytes g)) (g # gs)) @ post) (unat c) (unat ofs)
         = Inr (compress X codec (stamp_bytes ((g # gs) ! i)))"
  proof (intro allI impI)
    fix i assume i: "i < length (g # gs)"
    show "\<exists>ofs c u. ?bs ! i = (ofs, c, u) \<and> unat u = length (stamp_bytes ((g # gs) ! i)) \<and>
       read_exact_at (pre @ concat (map (\<lambda>g. compress X codec (stamp_bytes g)) (g # gs)) @ post) (unat c) (unat ofs)
         = Inr (compress X codec (stamp_bytes ((g # gs) ! i)))"
    proof (cases i)
      case 0
      then show ?thesis
        using g u Cons.prems(2) read_exact_at_mid [of pre sc "concat (map (\<lambda>g. compress X codec (stamp_bytes g)) gs) @ post"]
        by (simp add: sc_def unat_of_nat_u32)
    next
      case (Suc j)
      then show ?thesis using IH(3) i by (simp add: sc_def)
    qed
  qed
  ultimately show ?case by blast
qed

lemma length_stamp_lens: "length (concat (map (stamp_lens X codec) gs)) = 8 * length gs"
  by (induction gs) (auto simp: stamp_lens_def)

lemma sum_lengths_bound:
  assumes "\<forall>g \<in> set gs. length (f g) \<le> b"
  shows "length (concat (map f gs)) \<le> length gs * b"
  using assms by (induction gs) auto

lemma stamp_block_bounds:
  assumes "codec_ok X" "length (block_bytes g) < 1073745920"
  shows "length (compress X codec (stamp_bytes g)) < 4294967296" "length (stamp_bytes g) < 4294967296"
proof -
  have "length (stamp_bytes g) < 1073745920" using stamp_bytes_le [of g] assms(2) by linarith
  then show "length (compress X codec (stamp_bytes g)) < 4294967296" "length (stamp_bytes g) < 4294967296"
    using compress_length [OF assms(1), of codec "stamp_bytes g"] by linarith+
qed

definition sidecar_file :: "externals \<Rightarrow> codec \<Rightarrow> entry list list \<Rightarrow> bytes" where
  "sidecar_file X codec gs = concat (map (\<lambda>g. compress X codec (stamp_bytes g)) gs) @ concat (map (stamp_lens X codec) gs)
     @ le_bytes 8 (of_nat (length gs) :: u64) @ le_bytes 8 STAMPS_MAGIC"

lemma load_stamps_ok:
  assumes ext: "codec_ok X" and gs: "\<forall>g \<in> set gs. length (block_bytes g) < 1073745920" and few: "length gs < 1073741824"
    and blocks: "length blocks = length gs"
  obtains s where "load_stamps (Some (sidecar_file X codec gs)) blocks = Some s"
    "\<And>t i. i < length gs \<Longrightarrow> st_codec t = codec \<Longrightarrow> read_stamp_block X t s i = Inr (stamp_bytes (gs ! i))"
proof -
  define A where "A = concat (map (\<lambda>g. compress X codec (stamp_bytes g)) gs)"
  define B where "B = concat (map (stamp_lens X codec) gs)"
  define C where "C = le_bytes 8 (of_nat (length gs) :: u64)"
  define D where "D = le_bytes 8 STAMPS_MAGIC"
  define f where "f = A @ B @ C @ D"
  have f: "sidecar_file X codec gs = f" by (simp add: sidecar_file_def f_def A_def B_def C_def D_def)
  have lens: "length B = 8 * length gs" "length C = 8" "length D = 8"
    by (simp_all add: B_def C_def D_def length_stamp_lens)
  have A: "length A \<le> length gs * 4294967296"
    unfolding A_def
    by (rule sum_lengths_bound) (use stamp_block_bounds(1) [OF ext] gs in \<open>auto intro: less_imp_le\<close>)
  have "\<exists>bs off'. stamps_blocks B (length gs) 0 = (bs, off') \<and> unat off' = length ([] :: bytes) + length A \<and>
    (\<forall>i < length gs. \<exists>ofs c u. bs ! i = (ofs, c, u) \<and> unat u = length (stamp_bytes (gs ! i)) \<and>
       read_exact_at ([] @ A @ B @ C @ D) (unat c) (unat ofs) = Inr (compress X codec (stamp_bytes (gs ! i))))"
    unfolding A_def B_def
    using stamp_block_bounds [OF ext] gs A few by (intro stamps_blocks_lens) (auto simp: A_def)
  then obtain bs off' where bs: "stamps_blocks B (length gs) 0 = (bs, off')" "unat off' = length A"
    "\<forall>i < length gs. \<exists>ofs c u. bs ! i = (ofs, c, u) \<and> unat u = length (stamp_bytes (gs ! i)) \<and>
       read_exact_at f (unat c) (unat ofs) = Inr (compress X codec (stamp_bytes (gs ! i)))"
    by (auto simp: f_def)
  have len: "length f = length A + 8 * length gs + 16" by (simp add: f_def lens)
  have foot: "drop (length A + 8 * length gs) f = C @ D" "drop (8 + (length A + 8 * length gs)) f = D"
    "take (length gs * 8) (drop (length A) f) = B"
    by (simp_all add: f_def lens)
  have n: "unat (from_le_bytes C :: u64) = length gs" "from_le_bytes D = STAMPS_MAGIC"
    using few by (simp_all add: C_def D_def unat_of_nat_u64)
  have load: "load_stamps (Some f) blocks = Some \<lparr>si_file = f, si_blocks = bs\<rparr>"
    using few by (simp add: load_stamps_def Let_def foot n blocks bs len lens)
  have read: "read_stamp_block X t \<lparr>si_file = f, si_blocks = bs\<rparr> i = Inr (stamp_bytes (gs ! i))"
    if i: "i < length gs" and t: "st_codec t = codec" for t i
  proof -
    obtain ofs c u where "bs ! i = (ofs, c, u)" "unat u = length (stamp_bytes (gs ! i))"
       "read_exact_at f (unat c) (unat ofs) = Inr (compress X codec (stamp_bytes (gs ! i)))"
      using bs(3) i by blast
    then show ?thesis using t decompress_compress [OF ext] by (simp add: read_stamp_block_def)
  qed
  show thesis using that [of "\<lparr>si_file = f, si_blocks = bs\<rparr>"] load read by (simp add: f)
qed

section \<open>Footers\<close>

lemma le_bytes_8_codec: "le_bytes 8 (ucast (codec_to_u8 c) :: u64) ! 0 = codec_to_u8 c"
proof -
  have "le_bytes (Suc 7) (ucast (codec_to_u8 c) :: u64) ! 0 = ucast (ucast (codec_to_u8 c) :: u64)"
    by (simp only: le_bytes.simps nth_Cons_0)
  then show ?thesis by (cases c) simp_all
qed

lemma footer_fields:
  assumes "footer = le_bytes 8 a @ le_bytes 8 b @ le_bytes 8 c @ le_bytes 8 (ucast (codec_to_u8 codec) :: u64) @ rest"
  shows "footer_u64 footer 0 = a" "footer_u64 footer 1 = b" "footer_u64 footer 2 = c"
    "footer_codec footer = Inr codec"
proof -
  show "footer_u64 footer 0 = a" "footer_u64 footer 1 = b" "footer_u64 footer 2 = c"
    by (simp_all add: assms footer_u64_def)
  have "footer ! 24 = codec_to_u8 codec"
    using le_bytes_8_codec [of codec] by (simp add: assms nth_append del: le_bytes.simps)
  then show "footer_codec footer = Inr codec" by (simp add: footer_codec_def)
qed

lemma read_exact_at_end: "length xs = n \<Longrightarrow> read_exact_at (pre @ xs) n (length (pre @ xs) - n) = Inr xs"
  using read_exact_at_mid [of pre xs "[]"] by simp

lemma read_footer_plain:
  assumes "f = body @ le_bytes 8 io @ le_bytes 8 bo @ le_bytes 8 ec
      @ le_bytes 8 (ucast (codec_to_u8 codec) :: u64) @ le_bytes 8 MAGIC"
  shows "read_footer X kek f = Inr (io, bo, of_nat (length body), ec, codec, None)"
proof -
  define footer where "footer = le_bytes 8 io @ le_bytes 8 bo @ le_bytes 8 ec
      @ le_bytes 8 (ucast (codec_to_u8 codec) :: u64) @ le_bytes 8 MAGIC"
  have f: "f = body @ footer" "f = (body @ le_bytes 8 io @ le_bytes 8 bo @ le_bytes 8 ec
      @ le_bytes 8 (ucast (codec_to_u8 codec) :: u64)) @ le_bytes 8 MAGIC"
    by (simp_all add: assms footer_def)
  have len: "length footer = 40" by (simp add: footer_def)
  have magic: "read_exact_at f 8 (length f - 8) = Inr (le_bytes 8 MAGIC)"
    unfolding f(2) by (rule read_exact_at_end) simp
  have foot: "read_exact_at f 40 (length f - 40) = Inr footer"
    unfolding f(1) by (rule read_exact_at_end) (rule len)
  have "length f - 40 = length body" "\<not> length f < 40" by (simp_all add: f(1) len)
  then show ?thesis
    using magic foot footer_fields [OF footer_def]
    by (simp add: read_footer_def MAGIC_def MAGIC_ENC_def del: le_bytes.simps)
qed

lemma read_footer_enc:
  assumes "f = body @ wrapped @ le_bytes 8 io @ le_bytes 8 bo @ le_bytes 8 ec
      @ le_bytes 8 (ucast (codec_to_u8 codec) :: u64) @ le_bytes 8 dek_off @ le_bytes 8 MAGIC_ENC"
    and "unat dek_off = length body" "length wrapped = WRAPPED_DEK_LEN" "unwrap_dek X kek wrapped = Inr dek"
  shows "read_footer X (Some kek) f = Inr (io, bo, dek_off, ec, codec, Some dek)"
proof -
  define footer where "footer = le_bytes 8 io @ le_bytes 8 bo @ le_bytes 8 ec
      @ le_bytes 8 (ucast (codec_to_u8 codec) :: u64) @ le_bytes 8 dek_off @ le_bytes 8 MAGIC_ENC"
  have f: "f = (body @ wrapped) @ footer" "f = (body @ wrapped @ le_bytes 8 io @ le_bytes 8 bo @ le_bytes 8 ec
      @ le_bytes 8 (ucast (codec_to_u8 codec) :: u64) @ le_bytes 8 dek_off) @ le_bytes 8 MAGIC_ENC"
    by (simp_all add: assms(1) footer_def)
  have len: "length footer = 48" by (simp add: footer_def)
  have magic: "read_exact_at f 8 (length f - 8) = Inr (le_bytes 8 MAGIC_ENC)"
    unfolding f(2) by (rule read_exact_at_end) simp
  have foot: "read_exact_at f 48 (length f - 48) = Inr footer"
    unfolding f(1) by (rule read_exact_at_end) (rule len)
  have w: "read_exact_at f 60 (length body) = Inr wrapped"
    using read_exact_at_mid [of body wrapped footer] assms(3) by (simp add: f(1))
  have dek: "footer_u64 footer 4 = dek_off" by (simp add: footer_def footer_u64_def del: le_bytes.simps)
  have "\<not> length f < 40" "\<not> length f < 48" by (simp_all add: f(1) len)
  then show ?thesis
    using magic foot footer_fields [OF footer_def] w dek assms(2,4)
    by (simp add: read_footer_def del: le_bytes.simps)
qed

section \<open>Opening what was written\<close>

lemma parse_index_bytes:
  assumes "\<forall>b \<in> set blocks. meta_ok b" and "length (index_bytes blocks) < usize_bound"
  shows "parse_block_index (index_bytes blocks) = Inr blocks"
proof -
  let ?n = "le_bytes 8 (of_nat (length blocks) :: u64)"
  have "length blocks \<le> length (concat (map encode_block_meta blocks))"
    using assms(1) by (rule meta_codec.length_le_concat_enc)
  then have n: "unat (of_nat (length blocks) :: u64) = length blocks"
    using assms(2) by (simp add: index_bytes_def unat_of_nat_u64)
  have u: "sst_read_u64 (index_bytes blocks) 0 = Inr (of_nat (length blocks), 8)"
    using sst_read_u64_at [of "index_bytes blocks" "[]" "of_nat (length blocks)"] assms(2) by (simp add: index_bytes_def)
  have "dec_times decode_block_meta (length blocks) (index_bytes blocks) 8
      = Inr (map (\<lambda>x. x) blocks, 8 + length (concat (map encode_block_meta blocks)))"
    using assms by (intro meta_codec.dec_times_enc [of _ _ ?n "[]"]) (auto simp: index_bytes_def)
  then show ?thesis using u n by (simp add: parse_block_index_def)
qed

lemma sst_open_regions:
  assumes foot: "read_footer X kek f = Inr (io, bo, ie, ec, codec, dek)"
    and f: "f = out @ I @ B @ rest" and len: "length f < usize_bound"
    and offs: "unat io = length out" "unat bo = length out + length I" "unat ie = length out + length I + length B"
    and I: "(case dek of Some d \<Rightarrow> dek_open X d io I | None \<Rightarrow> Inr I) = Inr (index_bytes blocks)"
    and B: "(case dek of Some d \<Rightarrow> dek_open X d bo B | None \<Rightarrow> Inr B) = Inr (bloom_encode bloom)"
    and blocks: "\<forall>b \<in> set blocks. meta_ok b" "length (index_bytes blocks) < usize_bound" and bloom: "bloom_ok bloom"
  shows "sst_open X kek f sidecar = Inr \<lparr>st_file = f, st_codec = codec, st_dek = dek, st_blocks = blocks,
    st_bloom = bloom, st_entry_count = ec, st_version_counts = None, st_disk_len = of_nat (length f),
    st_block_cache = block_cache_default, st_stamps = load_stamps sidecar blocks\<rparr>"
proof -
  have le: "io \<le> bo" "bo \<le> ie" using offs by (simp_all add: word_le_nat_alt)
  have sub: "unat (bo - io) = length I" "unat (ie - bo) = length B"
    using offs le by (simp_all add: unat_sub)
  have "read_exact_at f (length I) (length out) = Inr I"
    using read_exact_at_mid [of out I "B @ rest"] by (simp add: f)
  moreover have "read_exact_at f (length B) (length out + length I) = Inr B"
    using read_exact_at_mid [of "out @ I" B rest] by (simp add: f)
  moreover have "parse_block_index (index_bytes blocks) = Inr blocks" using blocks by (rule parse_index_bytes)
  moreover have "bloom_decode (bloom_encode bloom) = Some bloom" using bloom by (rule bloom_decode_encode)
  ultimately show ?thesis
    using foot le sub offs I B by (simp add: sst_open_def not_less [symmetric])
qed

lemma index_bytes_length:
  assumes "\<forall>b \<in> set blocks. length (bm_first_key b) \<le> m"
  shows "length (index_bytes blocks) \<le> 8 + length blocks * (m + 20)"
  using sum_lengths_bound [of blocks encode_block_meta "m + 20"] assms
  by (simp add: index_bytes_def encode_block_meta_def)

lemma bloom_encode_length: "bloom_ok b \<Longrightarrow> length (bloom_encode b) < 2305843009213693964"
  using unsigned_less [where ?'a = nat, of "bl_m b"] by (auto simp: bloom_ok_def bloom_encode_def)

text \<open>The sizes of the regions of a finished table.\<close>

lemma w_inv_sizes:
  assumes inv: "w_inv X codec dek w gs []" and ok: "\<forall>e \<in> set (concat gs). entry_ok e" and few: "length gs < 1073741824"
  shows "\<forall>b \<in> set (w_blocks w). meta_ok b" "length (w_out w) < 4611686018427387904"
    "length (index_bytes (w_blocks w)) < 4611686018427387904" "length (bloom_encode (w_bloom w)) < 2305843009213693964"
    "length (w_blocks w) = length gs"
proof -
  show len: "length (w_blocks w) = length gs" using inv unfolding w_inv_def by (metis length_map)
  have short: "length (bm_first_key b) \<le> 1073741824" if "b \<in> set (w_blocks w)" for b
  proof -
    have "bm_first_key b \<in> set (map (fst \<circ> hd) gs)" using inv that unfolding w_inv_def by (metis image_eqI set_map)
    then obtain g where g: "g \<in> set gs" "bm_first_key b = fst (hd g)" by auto
    have "g \<noteq> []" using inv g(1) by (simp add: w_inv_def)
    then have "entry_ok (hd g)" using ok g(1) by auto
    then show ?thesis using g(2) by (cases "hd g") (auto simp: entry_ok_def encode_entry_def)
  qed
  then show "\<forall>b \<in> set (w_blocks w). meta_ok b" by (fastforce simp: meta_ok_def)
  show "length (w_out w) < 4611686018427387904" using inv few by (auto simp: w_inv_def)
  show "length (index_bytes (w_blocks w)) < 4611686018427387904"
    using index_bytes_length [of "w_blocks w" 1073741824] short len few by auto
  show "length (bloom_encode (w_bloom w)) < 2305843009213693964"
    using inv by (intro bloom_encode_length) (simp add: w_inv_def)
qed

text \<open>The handle that opening yields.\<close>

definition opened :: "bytes \<Rightarrow> codec \<Rightarrow> dek option \<Rightarrow> sst_writer \<Rightarrow> bytes option \<Rightarrow> sstable" where
  "opened f codec dek w sidecar = \<lparr>st_file = f, st_codec = codec, st_dek = dek, st_blocks = w_blocks w,
    st_bloom = w_bloom w, st_entry_count = w_entry_count w, st_version_counts = None, st_disk_len = of_nat (length f),
    st_block_cache = block_cache_default, st_stamps = load_stamps sidecar (w_blocks w)\<rparr>"

lemma open_tail_plain:
  assumes inv: "w_inv X codec dek w gs []" and ok: "\<forall>e \<in> set (concat gs). entry_ok e"
    and few: "length gs < 1073741824" and tail: "write_tail X codec None w = Inr (f, disk_len)"
  shows "sst_open X kek f sidecar = Inr (opened f codec None w sidecar)
    \<and> unat disk_len = length f \<and> (\<exists>rest. f = w_out w @ rest)"
proof -
  note sz = w_inv_sizes [OF inv ok few]
  have bloom: "bloom_ok (w_bloom w)" and out: "unat (w_offset w) = length (w_out w)"
    using inv by (simp_all add: w_inv_def)
  define I B where "I = index_bytes (w_blocks w)" and "B = bloom_encode (w_bloom w)"
  define bo where "bo = w_offset w + of_nat (length I)"
  define footer where "footer = le_bytes 8 (w_offset w) @ le_bytes 8 bo @ le_bytes 8 (w_entry_count w)
    @ le_bytes 8 (ucast (codec_to_u8 codec) :: u64) @ le_bytes 8 MAGIC"
  have f: "f = w_out w @ I @ B @ footer" "disk_len = w_offset w + of_nat (length (I @ B @ footer))"
    using tail by (simp_all add: write_tail_def Let_def I_def B_def bo_def footer_def)
  have lf: "length footer = 40" by (simp add: footer_def)
  have len: "length f < usize_bound" using sz by (simp add: f lf I_def B_def)
  have bo: "unat bo = length (w_out w) + length I"
    using out sz by (simp add: bo_def I_def unat_word_ariths unat_of_nat)
  have "read_footer X kek f = Inr (w_offset w, bo, of_nat (length (w_out w @ I @ B)), w_entry_count w, codec, None)"
    by (intro read_footer_plain) (simp add: f footer_def)
  moreover have "unat (of_nat (length (w_out w @ I @ B)) :: u64) = length (w_out w) + length I + length B"
    using len by (subst unat_of_nat_u64) (simp_all add: f)
  ultimately have "sst_open X kek f sidecar = Inr (opened f codec None w sidecar)"
    using f(1) len out bo sz(1,3) bloom unfolding opened_def
    by (intro sst_open_regions [where out = "w_out w" and I = I and B = B and rest = footer]) (auto simp: I_def B_def)
  moreover have "unat disk_len = length f"
    using len by (simp add: f out unat_word_ariths unat_of_nat)
  ultimately show ?thesis using f(1) by auto
qed

lemma open_tail_enc:
  assumes ext: "aead_ok X" and inv: "w_inv X codec dek w gs []" and ok: "\<forall>e \<in> set (concat gs). entry_ok e"
    and few: "length gs < 1073741824" and wr: "length wr = WRAPPED_DEK_LEN" "unwrap_dek X k wr = Inr d"
    and tail: "write_tail X codec (Some (d, wr)) w = Inr (f, disk_len)"
  shows "sst_open X (Some k) f sidecar = Inr (opened f codec (Some d) w sidecar)
    \<and> unat disk_len = length f \<and> (\<exists>rest. f = w_out w @ rest)"
proof -
  note sz = w_inv_sizes [OF inv ok few]
  have bloom: "bloom_ok (w_bloom w)" and out: "unat (w_offset w) = length (w_out w)"
    using inv by (simp_all add: w_inv_def)
  define I B where "I = index_bytes (w_blocks w)" and "B = bloom_encode (w_bloom w)"
  obtain SI where SI: "dek_seal X d (w_offset w) I = Inr SI"
    using tail by (auto simp: write_tail_def Let_def I_def rbind_eq_Inr_iff)
  define bo where "bo = w_offset w + of_nat (length SI)"
  obtain SB where SB: "dek_seal X d bo B = Inr SB"
    using tail SI by (auto simp: write_tail_def Let_def I_def B_def bo_def rbind_eq_Inr_iff)
  define dk where "dk = bo + of_nat (length SB)"
  define footer where "footer = le_bytes 8 (w_offset w) @ le_bytes 8 bo @ le_bytes 8 (w_entry_count w)
    @ le_bytes 8 (ucast (codec_to_u8 codec) :: u64) @ le_bytes 8 dk @ le_bytes 8 MAGIC_ENC"
  have f: "f = w_out w @ SI @ SB @ wr @ footer" "disk_len = dk + of_nat (length wr) + 48"
    using tail SI SB by (simp_all add: write_tail_def Let_def I_def B_def bo_def footer_def dk_def)
  note seal = dek_open_seal [OF ext SI] dek_open_seal [OF ext SB]
  have lf: "length footer = 48" by (simp add: footer_def)
  have len: "length f < usize_bound" using sz seal(2,4) wr(1) by (simp add: f lf I_def B_def)
  have bo: "unat bo = length (w_out w) + length SI"
    using out len by (simp add: bo_def f unat_word_ariths unat_of_nat)
  have dk: "unat dk = length (w_out w) + length SI + length SB"
    using bo len by (simp add: dk_def f unat_word_ariths unat_of_nat)
  have "read_footer X (Some k) f = Inr (w_offset w, bo, dk, w_entry_count w, codec, Some d)"
    using dk wr by (intro read_footer_enc [where body = "w_out w @ SI @ SB" and wrapped = wr]) (auto simp: f footer_def)
  then have "sst_open X (Some k) f sidecar = Inr (opened f codec (Some d) w sidecar)"
    using f(1) len out bo dk sz(1,3) bloom seal unfolding opened_def
    by (intro sst_open_regions [where out = "w_out w" and I = SI and B = SB and rest = "wr @ footer"]) (auto simp: I_def B_def)
  moreover have "unat disk_len = length f"
    using len dk wr(1) lf by (simp add: f unat_word_ariths unat_of_nat)
  ultimately show ?thesis using f(1) by auto
qed

text \<open>A finished writer's handle, fresh or opened, holds the groups.\<close>

definition sidecar_of :: "sidecar_env \<Rightarrow> sst_writer \<Rightarrow> bytes option" where
  "sidecar_of env w = (case w_stamps w of
     Some out \<Rightarrow>
       if sc_close_ok env
       then Some (out @ w_stamps_table w @ le_bytes 8 (of_nat (length (w_blocks w)) :: u64) @ le_bytes 8 STAMPS_MAGIC)
       else None
   | None \<Rightarrow> None)"

lemma w_inv_handle:
  assumes ext: "codec_ok X" and inv: "w_inv X codec dek w gs []" and ok: "\<forall>e \<in> set (concat gs). entry_ok e"
    and sorted: "bt_ok (concat gs)" and few: "length gs < 1073741824" and f: "f = w_out w @ rest"
    and vc: "vc = None \<or> vc = Some (w_entry_count w - w_delete_count w, w_delete_count w)"
  shows "sst_rel X ((opened f codec dek w (sidecar_of env w))\<lparr>st_version_counts := vc, st_disk_len := dl\<rparr>) gs"
proof -
  have len: "length (w_blocks w) = length gs" by (rule w_inv_sizes [OF inv ok few])
  have big: "\<forall>g \<in> set gs. g \<noteq> [] \<and> length (block_bytes g) < 1073745920" using inv by (simp add: w_inv_def)
  have stamps: "read_stamp_block X t s i = Inr (stamp_bytes (gs ! i))"
    if "load_stamps (sidecar_of env w) (w_blocks w) = Some s" "i < length gs" "st_codec t = codec" for s i and t :: sstable
  proof (cases "sidecar_of env w")
    case None
    then show ?thesis using that(1) by (simp add: load_stamps_def)
  next
    case (Some sf)
    have "sf = sidecar_file X codec gs"
      using Some inv len by (auto simp: sidecar_of_def sidecar_file_def w_inv_def split: option.splits if_splits)
    moreover obtain s' where "load_stamps (Some (sidecar_file X codec gs)) (w_blocks w) = Some s'"
      "\<And>t i. i < length gs \<Longrightarrow> st_codec t = codec \<Longrightarrow> read_stamp_block X t s' i = Inr (stamp_bytes (gs ! i))"
      using load_stamps_ok [OF ext _ few len] big by blast
    ultimately show ?thesis using that Some by auto
  qed
  have counts: "(w_entry_count w - w_delete_count w, w_delete_count w) = counts_of (concat gs)"
    using inv by (simp add: w_inv_def counts_of_def of_nat_diff)
  have blocks: "file_block X codec dek f (w_blocks w ! i) = Inr (block_bytes (gs ! i))" if "i < length gs" for i
    using inv that unfolding f by (intro file_block_append) (simp add: w_inv_def)
  have dist: "distinct (map bm_offset (w_blocks w))" using inv by (simp add: w_inv_def strict_sorted_iff)
  have "groups_ok gs" using sorted ok big by (fastforce simp: groups_ok_def)
  then show ?thesis
    using inv blocks dist stamps vc counts
    by (auto simp: sst_rel_def opened_def read_block_file block_cache.coherent_def w_inv_def)
qed

lemma wrap_new_dek_cases:
  assumes "aead_ok X" "rng_ok rk rn"
  shows "(\<exists>d wr. wrap_new_dek X k rk rn = Inr (d, wr) \<and> length wr = WRAPPED_DEK_LEN \<and> unwrap_dek X k wr = Inr d) \<or>
    (\<exists>e. wrap_new_dek X k rk rn = Inl (Crypto e))"
proof (cases "wrap_new_dek X k rk rn")
  case (Inl e)
  then show ?thesis by (cases k; cases rk; cases rn) (auto split: option.splits)
next
  case (Inr p)
  obtain d wr where p: "wrap_new_dek X k rk rn = Inr (d, wr)" using Inr by (cases p) auto
  show ?thesis using p unwrap_wrap_dek_rng [OF assms p] by auto
qed

definition enc_error :: "kek option \<Rightarrow> (storage_error + 'a) option \<Rightarrow> bool" where
  "enc_error kek r \<longleftrightarrow> kek \<noteq> None \<and> (\<exists>e. r = Some (Inl (Crypto e)))"

definition write_body ::
    "externals \<Rightarrow> codec \<Rightarrow> (dek \<times> bytes) option \<Rightarrow> sidecar_env \<Rightarrow> entry list \<Rightarrow> nat
      \<Rightarrow> (storage_error + sst_writer \<times> bytes \<times> u64) option" where
  "write_body X codec dw env es n =
     pbind (write_entries X codec (map_option fst dw) env (map Inr es) (sst_writer_new X n (map_option fst dw) env)) (\<lambda>w.
     pbind (if w_buf w \<noteq> [] then sst_seal X codec (map_option fst dw) env w else Some (Inr w)) (\<lambda>w.
     pbind (Some (write_tail X codec dw w)) (\<lambda>(f, dl). Some (Inr (w, f, dl)))))"

text \<open>After the key was made: the entries are written, and the table and what is on disk hold them.\<close>

lemma write_body_holds:
  assumes ext: "codec_ok X" "aead_ok X" "sizing_ok X" and es: "bt_ok es" "\<forall>e \<in> set es. entry_ok e" "length es < 1073741824"
    and dw: "dw = None \<or> (\<exists>k d wr. kek = Some k \<and> dw = Some (d, wr) \<and> length wr = WRAPPED_DEK_LEN \<and> unwrap_dek X k wr = Inr d)"
    and dek: "dek = map_option fst dw"
  shows "(\<exists>w gs f dl rest. write_body X codec dw env es n = Some (Inr (w, f, dl)) \<and> concat gs = es \<and> w_inv X codec dek w gs [] \<and> length gs < 1073741824 \<and>
      f = w_out w @ rest \<and> unat dl = length f \<and>
      (\<forall>sc. sst_open X kek f sc = Inr (opened f codec dek w sc))) \<or> (dek \<noteq> None \<and> (\<exists>e. write_body X codec dw env es n = Some (Inl (Crypto e))))"
proof -
  consider w gs cur where "write_entries X codec dek env (map Inr es) (sst_writer_new X n dek env) = Some (Inr w)"
      "w_inv X codec dek w gs cur" "length (block_bytes cur) < BLOCK_TARGET" "concat gs @ cur = es"
    | "enc_failed dek (write_entries X codec dek env (map Inr es) (sst_writer_new X n dek env))"
    using write_entries_ok [OF ext(1,2) w_inv_new [OF ext(3), where env = env], of es codec dek env n] es(2,3) by auto
  then show ?thesis
  proof cases
    case 1
    have ne: "\<forall>g \<in> set gs. g \<noteq> []" using 1(2) by (simp add: w_inv_def)
    have few: "length gs < 1073741824" using length_le_concat [OF ne] es(3) 1(4) by auto
    have buf: "w_buf w = block_bytes cur" using 1(2) by (simp add: w_inv_def)
    have "(\<exists>w' gs'. (if w_buf w \<noteq> [] then sst_seal X codec dek env w else Some (Inr w)) = Some (Inr w') \<and>
        concat gs' = es \<and> w_inv X codec dek w' gs' []) \<or>
      (dek \<noteq> None \<and> (\<exists>e. (if w_buf w \<noteq> [] then sst_seal X codec dek env w else Some (Inr w)) = Some (Inl (Crypto e))))"
    proof (cases cur)
      case Nil
      then show ?thesis using 1 buf by auto
    next
      case (Cons e cur')
      have "concat (gs @ [cur]) = es" using 1(4) by simp
      then show ?thesis using sst_seal_ok [OF ext(1,2) 1(2) _ _ few, of env] 1(3) buf Cons by fastforce
    qed
    then consider w' gs' where "(if w_buf w \<noteq> [] then sst_seal X codec dek env w else Some (Inr w)) = Some (Inr w')"
        "concat gs' = es" "w_inv X codec dek w' gs' []"
      | e where "dek \<noteq> None" "(if w_buf w \<noteq> [] then sst_seal X codec dek env w else Some (Inr w)) = Some (Inl (Crypto e))"
      by blast
    then show ?thesis
    proof cases
      case 2
      have "write_body X codec dw env es n = Some (Inl (Crypto e))"
        unfolding write_body_def dek [symmetric] 1(1) pbind.simps 2(2) by (rule refl)
      then show ?thesis using 2(1) by blast
    next
      case A: 1
      have ne': "\<forall>g \<in> set gs'. g \<noteq> []" using A(3) by (simp add: w_inv_def)
      have few': "length gs' < 1073741824" using length_le_concat [OF ne'] es(3) A(2) by auto
      have ok: "\<forall>e \<in> set (concat gs'). entry_ok e" using es(2) A(2) by simp
      have r: "write_body X codec dw env es n = pbind (Some (write_tail X codec dw w')) (\<lambda>(f, dl). Some (Inr (w', f, dl)))"
        unfolding write_body_def dek [symmetric] 1(1) pbind.simps A(1) by (rule refl)
      show ?thesis
      proof (cases "write_tail X codec dw w'")
        case (Inl e)
        then obtain d wr where d: "dw = Some (d, wr)" by (auto simp: write_tail_def Let_def split: option.splits)
        then have "\<exists>m. e = Crypto m"
          using Inl by (cases d) (auto simp: write_tail_def Let_def split: option.splits)
        then show ?thesis using r Inl d dek by auto
      next
        case (Inr p)
        obtain f dl where p: "write_tail X codec dw w' = Inr (f, dl)" using Inr by (cases p) auto
        have "(\<forall>sc. sst_open X kek f sc = Inr (opened f codec dek w' sc)) \<and> unat dl = length f \<and> (\<exists>rest. f = w_out w' @ rest)"
          using dw
        proof (elim disjE exE conjE)
          assume "dw = None"
          then show ?thesis using open_tail_plain [OF A(3) ok few'] p dek by simp
        next
          fix k d wr assume k: "kek = Some k" "dw = Some (d, wr)" "length wr = WRAPPED_DEK_LEN" "unwrap_dek X k wr = Inr d"
          then show ?thesis using open_tail_enc [OF ext(2) A(3) ok few' k(3,4)] p dek by simp
        qed
        then show ?thesis using r p A few' by auto
      qed
    qed
  next
    case 2
    then show ?thesis by (auto simp: write_body_def enc_failed_def dek)
  qed
qed

lemma write_stream_holds:
  assumes ext: "codec_ok X" "aead_ok X" "sizing_ok X" and es: "bt_ok es" "\<forall>e \<in> set es. entry_ok e" "length es < 1073741824"
    and rng: "rng_ok rk rn"
  shows "(\<exists>t sidecar. write_stream X rk rn env (map Inr es) n codec kek = Some (Inr (t, sidecar)) \<and> sst_holds X t es \<and>
      unat (st_disk_len t) = length (st_file t) \<and>
      (\<exists>t'. sst_open X kek (st_file t) sidecar = Inr t' \<and> sst_holds X t' es)) \<or>
    enc_error kek (write_stream X rk rn env (map Inr es) n codec kek)"
proof -
  consider (fail) e where "kek \<noteq> None" "write_stream X rk rn env (map Inr es) n codec kek = Some (Inl (Crypto e))"
    | (go) dw where "(case kek of Some kek \<Rightarrow> rbind (wrap_new_dek X kek rk rn) (\<lambda>dw. Inr (Some dw)) | None \<Rightarrow> Inr None) = Inr dw"
      "dw = None \<or> (\<exists>k d wr. kek = Some k \<and> dw = Some (d, wr) \<and> length wr = WRAPPED_DEK_LEN \<and> unwrap_dek X k wr = Inr d)"
  proof (cases kek)
    case None
    then show ?thesis using that(2) by simp
  next
    case (Some k)
    show ?thesis
      using wrap_new_dek_cases [OF ext(2) rng, of k]
    proof (elim disjE exE conjE)
      fix d wr assume "wrap_new_dek X k rk rn = Inr (d, wr)" "length wr = WRAPPED_DEK_LEN" "unwrap_dek X k wr = Inr d"
      then show ?thesis using that(2) [of "Some (d, wr)"] Some by simp
    next
      fix e assume "wrap_new_dek X k rk rn = Inl (Crypto e)"
      then show ?thesis using that(1) Some by (simp add: write_stream_def)
    qed
  qed
  then show ?thesis
  proof cases
    case fail
    then show ?thesis by (auto simp: enc_error_def)
  next
    case go
    let ?dek = "map_option fst dw"
    let ?r = "write_body X codec dw env es n"
    have step: "write_stream X rk rn env (map Inr es) n codec kek = pbind ?r (\<lambda>(w, f, dl).
        Some (Inr ((opened f codec ?dek w (sidecar_of env w))
          \<lparr>st_version_counts := Some (w_entry_count w - w_delete_count w, w_delete_count w), st_disk_len := dl\<rparr>, sidecar_of env w)))"
      unfolding write_stream_def go(1)
      by (simp add: pbind_assoc write_body_def opened_def sidecar_of_def Let_def case_prod_unfold cong: if_cong option.case_cong)
    show ?thesis
      using write_body_holds [OF ext es go(2) refl, of codec env n]
    proof (elim disjE exE conjE)
      fix w gs f dl rest
      assume r: "?r = Some (Inr (w, f, dl))" and gs: "concat gs = es" and inv: "w_inv X codec ?dek w gs []"
        and few: "length gs < 1073741824" and f: "f = w_out w @ rest" and dl: "unat dl = length f"
        and opn: "\<forall>sc. sst_open X kek f sc = Inr (opened f codec ?dek w sc)"
      let ?t = "(opened f codec ?dek w (sidecar_of env w))
        \<lparr>st_version_counts := Some (w_entry_count w - w_delete_count w, w_delete_count w), st_disk_len := dl\<rparr>"
      have rel: "sst_rel X ((opened f codec ?dek w (sidecar_of env w))\<lparr>st_version_counts := vc, st_disk_len := dl'\<rparr>) gs"
        if "vc = None \<or> vc = Some (w_entry_count w - w_delete_count w, w_delete_count w)" for vc dl'
        using es gs that by (intro w_inv_handle [OF ext(1) inv _ _ few f]) auto
      have "sst_rel X (opened f codec ?dek w (sidecar_of env w)) gs"
        using rel [of None "of_nat (length f)"] by (simp add: opened_def)
      then have "sst_holds X ?t es" "sst_holds X (opened f codec ?dek w (sidecar_of env w)) es"
        using rel gs by (auto simp: sst_holds_def)
      moreover have "write_stream X rk rn env (map Inr es) n codec kek = Some (Inr (?t, sidecar_of env w))"
        by (simp add: step r)
      moreover have "st_file ?t = f" "st_disk_len ?t = dl" by (simp_all add: opened_def)
      ultimately show ?thesis using opn dl by (intro disjI1 exI [of _ ?t] exI [of _ "sidecar_of env w"]) simp
    next
      fix e assume "?dek \<noteq> None" "?r = Some (Inl (Crypto e))"
      then show ?thesis using go(2) by (auto simp: step enc_error_def)
    qed
  qed
qed

section \<open>Errors end an iteration\<close>

lemma iter_fill_result:
  "iter_fill load n it = (r, it') \<Longrightarrow> (\<exists>e. r = Inl e) \<Longrightarrow> it' = it\<lparr>it_next_block := n, it_pos := 0, it_block := []\<rparr>"
proof (induction load n it rule: iter_fill.induct)
  case (1 load n it)
  then show ?case by (subst (asm) iter_fill.simps) (auto split: if_splits sum.splits)
qed

lemma iter_next_poisoned:
  assumes "iter_next load dec n it = (Some (Inl e), it')"
  shows "iter_next load dec n it' = (None, it')"
proof -
  obtain r it1 where f: "iter_fill load n it = (r, it1)" by fastforce
  have "it_next_block it' = n \<and> it_block it' = [] \<and> it_pos it' = 0"
    using assms f iter_fill_result [OF f] by (cases r) (auto simp: iter_next_def split: bool.splits sum.splits)
  then show ?thesis by (simp add: iter_next_def iter_fill.simps)
qed

definition ends_at_error :: "('e + 'a) list \<Rightarrow> bool" where
  "ends_at_error rs \<longleftrightarrow> (\<forall>r \<in> set (butlast rs). is_ok r)"

lemma ends_at_error_Nil [simp]: "ends_at_error []"
  by (simp add: ends_at_error_def)

lemma ends_at_error_Cons: "is_ok r \<Longrightarrow> ends_at_error rs \<Longrightarrow> ends_at_error (r # rs)"
  by (auto simp: ends_at_error_def)

lemma sst_items_end_at_error: "ends_at_error (sst_items X t it)"
proof (induction X t it rule: sst_items.induct)
  case (1 X t it)
  obtain r it' where n: "sst_iter_next X t it = (r, it')" by fastforce
  show ?case
  proof (cases r)
    case None
    then show ?thesis using n by (simp add: sst_items.simps)
  next
    case (Some x)
    show ?thesis
    proof (cases x)
      case (Inl e)
      then have "sst_iter_next X t it' = (None, it')"
        using n Some iter_next_poisoned unfolding sst_iter_next_def by blast
      then have "sst_items X t it' = []" by (simp add: sst_items.simps)
      moreover have "sst_items X t it = x # sst_items X t it'" using n Some by (subst sst_items.simps) simp
      ultimately show ?thesis by (simp add: ends_at_error_def)
    next
      case (Inr e)
      have "ends_at_error (sst_items X t it')" using 1 n Some by force
      moreover have "sst_items X t it = x # sst_items X t it'" using n Some by (subst sst_items.simps) simp
      ultimately show ?thesis using Inr by (simp add: ends_at_error_Cons)
    qed
  qed
qed

section \<open>Properties\<close>

text \<open>
  C4: writing sorted entries, with any codec, plain or encrypted, and whatever happens to the
  best-effort sidecar, gives a table that holds exactly these entries, and so does opening the file
  again. Only encryption itself can fail; a plain write always succeeds.
\<close>

theorem sstable_round_trip:
  assumes "codec_ok X" "aead_ok X" "sizing_ok X" "rng_ok rk rn"
    and "bt_ok es" "\<forall>e \<in> set es. entry_ok e" "length es < 1073741824"
  shows "(\<exists>t sidecar t'. write_stream X rk rn env (map Inr es) n codec kek = Some (Inr (t, sidecar)) \<and> sst_holds X t es \<and>
      unat (sst_disk_len t) = length (st_file t) \<and>
      sst_open X kek (st_file t) sidecar = Inr t' \<and> sst_holds X t' es) \<or>
    (kek \<noteq> None \<and> (\<exists>e. write_stream X rk rn env (map Inr es) n codec kek = Some (Inl (Crypto e))))"
  using write_stream_holds [OF assms(1-3,5-7,4), of env n codec kek]
  by (auto simp: enc_error_def sst_disk_len_def)

definition example_entries :: "entry list" where
  "example_entries = [([1], Hlc 5 0, Put [7]), ([2], Hlc 6 1, Delete), ([2, 0], Hlc 4 0, Put [])]"

lemma example_entries_ok: "bt_ok example_entries" "\<forall>e \<in> set example_entries. entry_ok e"
  "length example_entries < 1073741824"
  by (simp_all add: example_entries_def entry_ok_def encode_entry_def)

definition example_env :: sidecar_env where
  "example_env = \<lparr>sc_create_ok = True, sc_write_ok = (\<lambda>_. True), sc_close_ok = True\<rparr>"

lemma rng_ok_example: "rng_ok None None"
  by (simp add: rng_ok_def)

theorem sstable_round_trip_witness:
  "\<exists>t sidecar t'. write_stream plain_externals None None example_env (map Inr example_entries) 3 Lz4 None = Some (Inr (t, sidecar)) \<and>
     sst_holds plain_externals t example_entries \<and> unat (sst_disk_len t) = length (st_file t) \<and>
     sst_open plain_externals None (st_file t) sidecar = Inr t' \<and> sst_holds plain_externals t' example_entries"
  using sstable_round_trip [OF codec_ok_plain aead_ok_plain sizing_ok_plain rng_ok_example example_entries_ok,
      of example_env 3 Lz4 None]
  by simp

text \<open>
  C11: every read of a table that holds \<open>es\<close> answers from \<open>es\<close>: a point read is the lookup of the key
  (it never panics or fails, and leaves a table holding \<open>es\<close>), a range read is the sorted entries in
  the range, a full read is \<open>es\<close>, and the counts are those of \<open>es\<close>.
\<close>

theorem sstable_reads_refine:
  assumes "sst_holds X t es"
  shows "(\<exists>t'. sst_get X t key = Some (t', Inr (map_of es key)) \<and> sst_holds X t' es) \<and>
    sst_range X t start end = Inr (filter (\<lambda>e. in_range start end (fst e)) es) \<and>
    sst_entries X t = Inr es \<and>
    (\<exists>t'. version_counts X t = (t', counts_of es) \<and> sst_holds X t' es) \<and>
    sst_len t = of_nat (length es)"
proof -
  have "sst_len t = of_nat (length es)" using assms by (auto simp: sst_holds_def sst_rel_def sst_len_def)
  then show ?thesis
    using sst_get_holds [OF assms] sst_range_holds [OF assms] sst_entries_holds [OF assms] version_counts_holds [OF assms]
    by blast
qed

lemma example_table: "\<exists>t. sst_holds plain_externals t example_entries"
  using write_stream_holds [OF codec_ok_plain aead_ok_plain sizing_ok_plain example_entries_ok rng_ok_example,
      of example_env 3 Lz4 None]
  by (auto simp: enc_error_def)

theorem sstable_reads_refine_witness:
  "\<exists>t. sst_holds plain_externals t example_entries \<and>
     (\<exists>t'. sst_get plain_externals t [2] = Some (t', Inr (Some (Hlc 6 1, Delete)))) \<and>
     sst_range plain_externals t (Some [2]) (Some [2, 0]) = Inr [([2], Hlc 6 1, Delete)]"
proof -
  obtain t where t: "sst_holds plain_externals t example_entries" using example_table by blast
  then show ?thesis
    using sstable_reads_refine [OF t, of "[2]" "Some [2]" "Some [2, 0]"]
    by (auto simp: example_entries_def in_range_def)
qed

text \<open>
  C30: streaming stamps from any start agrees with streaming the entries, whether they come from
  the sidecar or from the data blocks, and seeking skips only keys below the start.
\<close>

theorem stamps_agree_with_entries:
  assumes "sst_holds X t es"
  shows "stamps_iter_from X t (Some start) = map (map_sum id stamp_of) (sst_iter_from X t start) \<and>
    filter (\<lambda>s. start \<le> fst s) (map stamp_of es) = filter (\<lambda>s. start \<le> fst s) (map projr (stamps_iter_from X t (Some start)))"
proof -
  obtain gs where gs: "concat gs = es" "sst_rel X t gs" using assms by (auto simp: sst_holds_def)
  obtain pre where pre: "es = pre @ concat (drop (seek_block (Some start) t) gs)" "\<forall>e \<in> set pre. fst e < start"
    using seek_split [OF gs(2), of "Some start"] gs(1) by auto
  have "filter (\<lambda>s. start \<le> fst s) (map stamp_of pre) = []"
    using pre(2) by (fastforce simp: filter_empty_conv stamp_of_def split: prod.splits)
  then show ?thesis
    using stamps_items_correct [OF gs(2)] sst_items_correct [OF gs(2)]
    by (subst pre(1)) (simp add: stamps_iter_from_def sst_iter_from_def comp_def)
qed

theorem stamps_agree_with_entries_witness:
  "\<exists>t. sst_holds plain_externals t example_entries \<and>
     stamps_iter_from plain_externals t (Some [2]) = map (map_sum id stamp_of) (sst_iter_from plain_externals t [2])"
  using example_table stamps_agree_with_entries [of plain_externals _ example_entries "[2]"] by blast

text \<open>
  C31: on any buffer, valid or not, the key-only reader and the stamp reader accept exactly the
  positions the full decoder accepts, and return parts of the same entry and the same next position.
\<close>

theorem entry_readers_equivalent:
  assumes "length buf < 9223372036854775808"
  shows "(peek_entry_key buf pos = Inr (k, p) \<longleftrightarrow> (\<exists>h v. decode_entry buf pos = Inr ((k, h, v), p))) \<and>
    decode_entry_stamp buf pos = rbind (decode_entry buf pos) (\<lambda>(e, p). Inr (stamp_of e, p))"
  using peek_entry_key_iff [OF assms] decode_entry_stamp_eq [OF assms] by blast

theorem entry_readers_equivalent_witness:
  "\<exists>p. peek_entry_key (encode_entry ([1], Hlc 5 0, Put [7])) 0 = Inr ([1], p) \<and>
     decode_entry_stamp (encode_entry ([1], Hlc 5 0, Put [7])) 0 = Inr (([1], Hlc 5 0, True), p) \<and>
     decode_entry_stamp [0, 0] 0 = rbind (decode_entry [0, 0] 0) (\<lambda>(e, p). Inr (stamp_of e, p))"
proof -
  let ?x = "([1], Hlc 5 0, Put [7]) :: entry"
  have len: "length (encode_entry ?x) < 9223372036854775808" by (simp add: encode_entry_def)
  have "decode_entry (encode_entry ?x) 0 = Inr (?x, length (encode_entry ?x))"
    using entry_codec.dec_enc [where x = ?x and pre = "[]" and post = "[]"] len example_entries_ok(2) by (simp add: example_entries_def)
  then show ?thesis
    using entry_readers_equivalent [OF len, of 0 "[1]" "length (encode_entry ?x)"] entry_readers_equivalent [of "[0, 0]" 0]
    by (intro exI [of _ "length (encode_entry ?x)"]) (simp add: stamp_of_def)
qed

text \<open>
  C32: on any table, whatever its bytes, polling the iterator ends, and an error is the last item it
  yields.
\<close>

theorem iterator_stops_at_error: "list_all is_ok (butlast (sst_iter X t))"
  using sst_items_end_at_error [of X t "iter_at 0"] by (simp add: sst_iter_def ends_at_error_def list_all_iff)

end
