(* ===== verification/Engine_Read.thy ===== *)
theory Engine_Read
  imports Engine Sstable_Write
begin

text \<open>
  Reads of the engine. An engine state is described by the entry list of every table
  (\<open>eng_ok\<close>): the memtables are well formed, every table holds its list, and a cached answer is what
  the tables answer, except that a version reclaimed by a compaction may still be cached. Under
  this invariant a point read answers from the newest source that has the key (\<open>held\<close>), and every
  scan is a window on the last-writer-wins merge of the sources (\<open>lww_merge\<close>).
\<close>

section \<open>The abstract state\<close>

text \<open>The newest source that has the key.\<close>

definition held :: "entry list list \<Rightarrow> bytes \<Rightarrow> (hlc \<times> version_value) option" where
  "held ss k = first_hit (\<lambda>es. map_of es k) ss"

lemma held_simps [simp]:
  "held [] k = None"
  "held (es # ss) k = (case map_of es k of Some x \<Rightarrow> Some x | None \<Rightarrow> held ss k)"
  by (simp_all add: held_def cong: option.case_cong)

lemma held_append: "held (ss @ ss') k = (case held ss k of Some x \<Rightarrow> Some x | None \<Rightarrow> held ss' k)"
  by (induction ss) (auto split: option.splits)

lemma held_None_iff: "held ss k = None \<longleftrightarrow> (\<forall>es \<in> set ss. map_of es k = None)"
  by (induction ss) (auto split: option.splits)

definition mem_lists :: "engine \<Rightarrow> entry list list" where
  "mem_lists e = map mt_iter_latest_lazy (memtables e)"

abbreviation sources :: "engine \<Rightarrow> entry list list \<Rightarrow> entry list list" where
  "sources e ess \<equiv> mem_lists e @ ess"

text \<open>
  What a compaction may drop: a tombstone, and a row older than the highest expiry cutoff \<open>g\<close> used
  so far (0 when no time-to-live was ever set).
\<close>

definition reclaimable :: "u64 \<Rightarrow> hlc \<times> version_value \<Rightarrow> bool" where
  "reclaimable g hv \<longleftrightarrow> snd hv = Delete \<or> physical (fst hv) < g"

definition invisible :: "u64 \<Rightarrow> (hlc \<times> version_value) option \<Rightarrow> bool" where
  "invisible g r \<longleftrightarrow> (case r of Some hv \<Rightarrow> reclaimable g hv | None \<Rightarrow> True)"

text \<open>Equal, or both without a visible row.\<close>

definition answer_ok :: "u64 \<Rightarrow> (hlc \<times> version_value) option \<Rightarrow> (hlc \<times> version_value) option \<Rightarrow> bool" where
  "answer_ok g truth v \<longleftrightarrow> v = truth \<or> invisible g truth \<and> invisible g v"

lemma answer_ok_refl [simp]: "answer_ok g r r"
  by (simp add: answer_ok_def)

lemma answer_ok_sym: "answer_ok g a b \<Longrightarrow> answer_ok g b a"
  by (auto simp: answer_ok_def)

lemma answer_ok_trans: "answer_ok g a b \<Longrightarrow> answer_ok g b c \<Longrightarrow> answer_ok g a c"
  by (auto simp: answer_ok_def)

lemma invisible_mono: "invisible g r \<Longrightarrow> g \<le> g' \<Longrightarrow> invisible g' r"
  by (auto simp: invisible_def reclaimable_def split: option.splits)

lemma answer_ok_mono: "answer_ok g a b \<Longrightarrow> g \<le> g' \<Longrightarrow> answer_ok g' a b"
  using invisible_mono by (auto simp: answer_ok_def)

definition cache_ok :: "u64 \<Rightarrow> engine \<Rightarrow> entry list list \<Rightarrow> bool" where
  "cache_ok g e ess \<longleftrightarrow> rc_wf (en_read_cache e) \<and>
     (\<forall>k v. rc_lookup (en_read_cache e) k = Some v \<longrightarrow>
        held (mem_lists e) k = None \<and> answer_ok g (held ess k) v)"

definition eng_ok :: "externals \<Rightarrow> u64 \<Rightarrow> engine \<Rightarrow> entry list list \<Rightarrow> bool" where
  "eng_ok X g e ess \<longleftrightarrow> (\<forall>m \<in> set (memtables e). mt_inv m) \<and>
     list_all2 (\<lambda>t. sst_holds X (tb_sst t)) (sstables_newest_first e) ess \<and> cache_ok g e ess"

lemma eng_okD:
  assumes "eng_ok X g e ess"
  shows "\<forall>m \<in> set (memtables e). mt_inv m" "list_all2 (\<lambda>t. sst_holds X (tb_sst t)) (sstables_newest_first e) ess"
    "cache_ok g e ess"
  using assms by (simp_all add: eng_ok_def)

lemma tables_sorted: "list_all2 (\<lambda>t. sst_holds X (tb_sst t)) ts ess \<Longrightarrow> \<forall>es \<in> set ess. bt_ok es"
  by (induction rule: list_all2_induct) (auto dest: sst_holds_sorted)

lemma sources_sorted: "eng_ok X g e ess \<Longrightarrow> \<forall>es \<in> set (sources e ess). bt_ok es"
  using tables_sorted by (fastforce simp: eng_ok_def mem_lists_def mt_iter_latest_lazy_ok)

lemma first_hit_map: "first_hit f (map g xs) = first_hit (f \<circ> g) xs"
  by (induction xs) (auto split: option.splits)

lemma first_hit_cong: "(\<And>x. x \<in> set xs \<Longrightarrow> f x = g x) \<Longrightarrow> first_hit f xs = first_hit g xs"
  by (induction xs) (auto split: option.splits)

lemma mem_hit:
  assumes "\<forall>m \<in> set (memtables e). mt_inv m"
  shows "first_hit (\<lambda>m. mt_get_entry_versioned m key) (memtables e) = held (mem_lists e) key"
  using assms unfolding held_def mem_lists_def first_hit_map
  by (intro first_hit_cong) (simp add: map_of_mt_iter_latest_lazy)

section \<open>Point reads\<close>

lemma probe_tables_holds:
  assumes "list_all2 (\<lambda>t. sst_holds X (tb_sst t)) ts ess"
  shows "\<exists>ts'. probe_tables X key ts = Some (ts', Inr (held ess key)) \<and>
    list_all2 (\<lambda>t. sst_holds X (tb_sst t)) ts' ess \<and> map tb_path ts' = map tb_path ts"
  using assms
proof (induction rule: list_all2_induct)
  case (Cons t ts es ess)
  obtain s where s: "sst_get X (tb_sst t) key = Some (s, Inr (map_of es key))" "sst_holds X s es"
    using sst_get_holds [OF Cons.hyps(1)] by blast
  with Cons.IH Cons.hyps show ?case by (auto split: option.splits)
qed simp

lemma set_tables_simps [simp]:
  "en_mem (set_tables ts e) = en_mem e" "en_frozen (set_tables ts e) = en_frozen e"
  "en_read_cache (set_tables ts e) = en_read_cache e" "en_ttl_ms (set_tables ts e) = en_ttl_ms e"
  "sstables_newest_first (set_tables ts e) = ts"
  by (simp_all add: set_tables_def sstables_newest_first_def)

lemma memtables_cong [simp]: "memtables (set_tables ts e) = memtables e"
  by (simp add: memtables_def)

lemma set_tables_paths:
  "map tb_path ts = map tb_path (sstables_newest_first e) \<Longrightarrow>
   map tb_path (en_l0 (set_tables ts e)) = map tb_path (en_l0 e) \<and>
   map tb_path (en_levels (set_tables ts e)) = map tb_path (en_levels e)"
  by (simp add: set_tables_def sstables_newest_first_def take_map [symmetric] drop_map [symmetric])

text \<open>A read changes caches and counters only.\<close>

definition same_data :: "engine \<Rightarrow> engine \<Rightarrow> bool" where
  "same_data e e' \<longleftrightarrow> en_mem e' = en_mem e \<and> en_frozen e' = en_frozen e \<and> en_wal e' = en_wal e \<and>
     en_next_wal_seq e' = en_next_wal_seq e \<and> en_clock e' = en_clock e \<and> en_ttl_ms e' = en_ttl_ms e \<and>
     en_tombstone_retention_ms e' = en_tombstone_retention_ms e \<and> en_opts e' = en_opts e \<and>
     en_next_seq e' = en_next_seq e \<and> en_maint_watermark e' = en_maint_watermark e \<and> en_disk e' = en_disk e \<and>
     map tb_path (en_l0 e') = map tb_path (en_l0 e) \<and> map tb_path (en_levels e') = map tb_path (en_levels e)"

lemma same_data_memtables: "same_data e e' \<Longrightarrow> memtables e' = memtables e"
  by (simp add: same_data_def memtables_def)

lemma find_flushed_holds:
  assumes "list_all2 (\<lambda>t. sst_holds X (tb_sst t)) (sstables_newest_first e) ess"
  shows "\<exists>e'. find_flushed X key e = Done (held ess key) e' \<and> same_data e e' \<and> en_read_cache e' = en_read_cache e \<and>
    list_all2 (\<lambda>t. sst_holds X (tb_sst t)) (sstables_newest_first e') ess"
proof -
  obtain ts where ts: "probe_tables X key (sstables_newest_first e) = Some (ts, Inr (held ess key))"
    "list_all2 (\<lambda>t. sst_holds X (tb_sst t)) ts ess" "map tb_path ts = map tb_path (sstables_newest_first e)"
    using probe_tables_holds [OF assms] by blast
  then show ?thesis using set_tables_paths [OF ts(3)]
    by (auto simp: find_flushed_def same_data_def set_tables_def sstables_newest_first_def memtables_def)
qed

lemma memtables_update [simp]:
  "memtables (e\<lparr>en_read_cache := c\<rparr>) = memtables e"
  "memtables (e\<lparr>en_sst_negative_lookups := n\<rparr>) = memtables e"
  by (simp_all add: memtables_def)

lemma sstables_update [simp]:
  "sstables_newest_first (e\<lparr>en_read_cache := c\<rparr>) = sstables_newest_first e"
  "sstables_newest_first (e\<lparr>en_sst_negative_lookups := n\<rparr>) = sstables_newest_first e"
  by (simp_all add: sstables_newest_first_def)

lemma mem_lists_cong: "memtables e' = memtables e \<Longrightarrow> mem_lists e' = mem_lists e"
  by (simp add: mem_lists_def)

lemma cache_ok_insert:
  assumes "cache_ok g e ess" "held (mem_lists e) k = None" "memtables e' = memtables e"
    "en_read_cache e' = rc_insert k (held ess k) (en_read_cache e)"
  shows "cache_ok g e' ess"
proof -
  have wf: "rc_wf (en_read_cache e)" using assms(1) by (simp add: cache_ok_def)
  have "held (mem_lists e) k' = None \<and> answer_ok g (held ess k') v"
    if "rc_lookup (en_read_cache e') k' = Some v" for k' v
  proof -
    have "((rc_lookup (en_read_cache e))(k \<mapsto> held ess k)) k' = Some v"
      using reads.look_remember [OF wf, of k "held ess k"] that assms(4) unfolding submap_def
      by (metis option.distinct(1))
    then show ?thesis using assms(1,2) by (cases "k' = k") (simp_all add: cache_ok_def answer_ok_def)
  qed
  then show ?thesis using wf assms(3,4) mem_lists_cong [OF assms(3)] by (simp add: cache_ok_def)
qed

lemma cache_ok_cong:
  assumes "cache_ok g e ess" "memtables e' = memtables e" "rc_lookup (en_read_cache e') = rc_lookup (en_read_cache e)"
    "rc_wf (en_read_cache e') = rc_wf (en_read_cache e)"
  shows "cache_ok g e' ess"
  using assms mem_lists_cong [OF assms(2)] by (simp add: cache_ok_def)

text \<open>A point read answers from the newest source, or with a version a compaction reclaimed.\<close>

lemma get_versioned_holds:
  assumes "eng_ok X g e ess"
  shows "\<exists>r e'. get_versioned X key e = Done r e' \<and> answer_ok g (held (sources e ess) key) r \<and>
    (held (mem_lists e) key \<noteq> None \<or> rc_lookup (en_read_cache e) key = None \<longrightarrow> r = held (sources e ess) key) \<and>
    eng_ok X g e' ess \<and> same_data e e'"
proof -
  note ok = eng_okD [OF assms]
  note hit = mem_hit [OF ok(1), of key]
  show ?thesis
  proof (cases "held (mem_lists e) key")
    case (Some hv)
    then show ?thesis using assms hit by (simp add: get_versioned_def held_append answer_ok_def same_data_def)
  next
    case None
    obtain c r where c: "rc_get key (en_read_cache e) = (c, r)" by force
    note look = rc_get_lookup [OF c]
    have c_ok: "cache_ok g (e\<lparr>en_read_cache := c\<rparr>) ess" using look by (intro cache_ok_cong [OF ok(3)]) simp_all
    show ?thesis
    proof (cases r)
      case (Some v)
      have "answer_ok g (held ess key) v" using ok(3) look Some by (auto simp: cache_ok_def)
      then show ?thesis using None hit c Some ok(1,2) c_ok look
        by (auto simp: get_versioned_def held_append eng_ok_def same_data_def)
    next
      case None': None
      obtain e' where e': "find_flushed X key (e\<lparr>en_read_cache := c\<rparr>) = Done (held ess key) e'"
        "same_data (e\<lparr>en_read_cache := c\<rparr>) e'" "en_read_cache e' = c"
        "list_all2 (\<lambda>t. sst_holds X (tb_sst t)) (sstables_newest_first e') ess"
        using find_flushed_holds [of X "e\<lparr>en_read_cache := c\<rparr>" ess key] ok(2) by auto
      define e2 where "e2 = e'\<lparr>en_sst_negative_lookups := en_sst_negative_lookups e' + (if held ess key = None then 1 else 0),
        en_read_cache := rc_insert key (held ess key) c\<rparr>"
      have m: "memtables e2 = memtables e" using e'(2) by (simp add: e2_def same_data_def memtables_def)
      have "cache_ok g e2 ess"
        by (rule cache_ok_insert [OF c_ok]) (use None m e'(3) in \<open>simp_all add: e2_def mem_lists_def\<close>)
      moreover have "get_versioned X key e = Done (held ess key) e2"
        using None None' hit c e'(1,3) by (simp add: get_versioned_def e2_def)
      moreover have "list_all2 (\<lambda>t. sst_holds X (tb_sst t)) (sstables_newest_first e2) ess"
        using e'(4) by (simp add: e2_def sstables_newest_first_def)
      ultimately show ?thesis using None m ok(1) e'(2)
        by (auto simp: eng_ok_def held_append answer_ok_def same_data_def e2_def)
    qed
  qed
qed

subsection \<open>Live values\<close>

definition live_value :: "engine_env \<Rightarrow> engine \<Rightarrow> (hlc \<times> version_value) option \<Rightarrow> bytes option" where
  "live_value env e r =
     (case r of Some (h, v) \<Rightarrow> if is_expired env e h then None else version_to_value v | None \<Rightarrow> None)"

text \<open>Every cutoff used so far is below the present one: no time-to-live, or one that was not raised.\<close>

definition cutoff_ok :: "u64 \<Rightarrow> engine_env \<Rightarrow> engine \<Rightarrow> bool" where
  "cutoff_ok g env e \<longleftrightarrow> g = 0 \<or> (\<exists>ttl. en_ttl_ms e = Some ttl \<and> g \<le> saturating_sub (ev_wall env) ttl)"

lemma expired_below_cutoff:
  assumes "physical h < g" "cutoff_ok g env e"
  shows "is_expired env e h"
proof -
  have "g \<noteq> 0" using assms(1) by auto
  then obtain ttl where ttl: "en_ttl_ms e = Some ttl" "g \<le> saturating_sub (ev_wall env) ttl"
    using assms(2) by (auto simp: cutoff_ok_def)
  then have le: "ttl \<le> ev_wall env" using \<open>g \<noteq> 0\<close> by (auto simp: saturating_sub_def split: if_splits)
  then have "unat (physical h) < unat (ev_wall env) - unat ttl"
    using ttl(2) assms(1) by (auto simp: saturating_sub_def word_less_nat_alt word_le_nat_alt unat_sub)
  then have "unat ttl < unat (ev_wall env - physical h)" "physical h \<le> ev_wall env"
    using le by (simp_all add: word_le_nat_alt unat_sub)
  then show ?thesis using ttl(1) by (simp add: is_expired_def row_expired_def saturating_sub_def word_less_nat_alt)
qed

lemma live_value_answer:
  assumes "answer_ok g truth r" "cutoff_ok g env e"
  shows "live_value env e r = live_value env e truth"
proof -
  have "live_value env e v = None" if "invisible g v" for v
    using that expired_below_cutoff [OF _ assms(2)]
    by (auto simp: invisible_def live_value_def reclaimable_def version_to_value_def split: option.splits)
  then show ?thesis using assms(1) by (auto simp: answer_ok_def)
qed

lemma engine_get_holds:
  assumes "eng_ok X g e ess" "cutoff_ok g env e"
  shows "\<exists>e'. engine_get X env key e = Done (live_value env e (held (sources e ess) key)) e' \<and>
    eng_ok X g e' ess \<and> same_data e e'"
proof -
  obtain r e' where r: "get_versioned X key e = Done r e'" "answer_ok g (held (sources e ess) key) r"
    "eng_ok X g e' ess" "same_data e e'"
    using get_versioned_holds [OF assms(1)] by blast
  have "is_expired env e' = is_expired env e" using r(4) by (simp add: fun_eq_iff same_data_def is_expired_def)
  then have "engine_get X env key e = Done (live_value env e r) e'"
    by (cases r) (auto simp: engine_get_def r(1) live_value_def)
  then show ?thesis using live_value_answer [OF r(2) assms(2)] r by simp
qed

section \<open>Scans\<close>

lemma collect_ok_map_Inr [simp]: "collect_ok (map Inr xs) = Inr xs"
  by (induction xs) auto

lemma map_filter_map: "List.map_filter f (map g xs) = List.map_filter (f \<circ> g) xs"
  by (induction xs) (auto simp: List.map_filter_simps split: option.splits)

lemma map_map_filter: "map g (List.map_filter f xs) = List.map_filter (map_option g \<circ> f) xs"
  by (induction xs) (auto simp: List.map_filter_simps split: option.splits)

definition live_pair :: "engine_env \<Rightarrow> engine \<Rightarrow> entry \<Rightarrow> (bytes \<times> bytes) option" where
  "live_pair env e x = map_option (Pair (fst x)) (live_value env e (Some (snd x)))"

definition live_rows :: "engine_env \<Rightarrow> engine \<Rightarrow> entry list \<Rightarrow> (bytes \<times> bytes) list" where
  "live_rows env e es = List.map_filter (live_pair env e) es"

lemma live_row_rows: "List.map_filter (live_row env e) (map Inr es) = map Inr (live_rows env e es)"
proof -
  have "live_row env e \<circ> Inr = map_option Inr \<circ> live_pair env e"
    by (auto simp: fun_eq_iff live_row_def live_pair_def live_value_def version_to_value_def split: version_value.splits)
  then show ?thesis by (simp add: live_rows_def map_filter_map map_map_filter)
qed

definition tomb_of :: "entry \<Rightarrow> bytes \<times> hlc \<times> bytes option" where
  "tomb_of x = (case x of (k, h, v) \<Rightarrow> (k, h, version_to_value v))"

lemma tombstone_row_Inr: "map tombstone_row (map Inr es) = map Inr (map tomb_of es)"
  by (auto simp: tombstone_row_def tomb_of_def version_to_value_def split: version_value.splits)

lemma mem_sources_map: "mem_sources f e = map (map Inr) (map f (memtables e))"
  by (simp add: mem_sources_def)

lemma table_sources:
  assumes "list_all2 (\<lambda>t. sst_holds X (tb_sst t)) ts ess" "\<And>t es. sst_holds X (tb_sst t) es \<Longrightarrow> f t = map Inr (g es)"
  shows "map f ts = map (map Inr) (map g ess)"
  using assms(1) by (induction rule: list_all2_induct) (auto simp: assms(2))

lemma merged_iter_holds:
  assumes "eng_ok X g e ess"
  shows "merged_iter X e = map Inr (lww_merge (sources e ess))"
proof -
  have "map (\<lambda>t. sst_iter X (tb_sst t)) (sstables_newest_first e) = map (map Inr) (map id ess)"
    using eng_okD(2) [OF assms] by (rule table_sources) (simp add: sst_iter_holds)
  then have "merged_iter X e = merge_all (map (map Inr) (sources e ess))"
    by (simp add: merged_iter_def mem_sources_map mem_lists_def)
  also have "\<dots> = map Inr (lww_merge (sources e ess))"
    using sources_sorted [OF assms] by (rule merge_all_correct(1))
  finally show ?thesis .
qed

lemma scan_holds:
  assumes "eng_ok X g e ess"
  shows "scan X env e = Inr (live_rows env e (lww_merge (sources e ess)))"
  using merged_iter_holds [OF assms] by (simp add: scan_def scan_iter_def live_row_rows)

lemma scan_with_tombstones_holds:
  assumes "eng_ok X g e ess"
  shows "scan_versioned_with_tombstones_iter X e = map Inr (map tomb_of (lww_merge (sources e ess)))"
  unfolding scan_versioned_with_tombstones_iter_def merged_iter_holds [OF assms] tombstone_row_Inr ..

subsection \<open>Ranges\<close>

abbreviation window :: "bytes option \<Rightarrow> bytes option \<Rightarrow> entry list \<Rightarrow> entry list" where
  "window start end \<equiv> filter (\<lambda>x. in_range start end (fst x))"

text \<open>A range read panics when its bounds are inverted and some memtable has an entry.\<close>

definition range_panics :: "bytes option \<Rightarrow> bytes option \<Rightarrow> engine \<Rightarrow> bool" where
  "range_panics start end e \<longleftrightarrow> inverted start end \<and> list_ex (\<lambda>m. \<not> mt_is_empty m) (memtables e)"

lemma mem_ranges_holds:
  assumes "\<forall>m \<in> set ms. mt_inv m"
  shows "mem_ranges start end ms =
    (if inverted start end \<and> list_ex (\<lambda>m. \<not> mt_is_empty m) ms then None
     else Some (map (window start end) (map mt_iter_latest_lazy ms)))"
  using assms by (induction ms) (auto simp: mt_range_latest_eq)

lemma mem_range_sources:
  assumes "eng_ok X g e ess"
  shows "mem_ranges start end (memtables e) =
    (if range_panics start end e then None else Some (map (window start end) (mem_lists e)))"
  using mem_ranges_holds [OF eng_okD(1) [OF assms]] by (simp add: range_panics_def mem_lists_def)

lemma merge_window:
  assumes "eng_ok X g e ess"
  shows "merge_all (map (map Inr) (map (window start end) (sources e ess))) =
    map Inr (window start end (lww_merge (sources e ess)))"
proof -
  note ok = sources_sorted [OF assms]
  have "\<forall>s \<in> set (map (window start end) (sources e ess)). bt_ok s" using ok by auto
  then show ?thesis using merge_all_correct(1) lww_merge_filter [OF ok, of "in_range start end"] by metis
qed

lemma range_sources_holds:
  assumes "eng_ok X g e ess"
  shows "range_sources X start end e =
    (if range_panics start end e then None
     else Some (Inr (map (map Inr) (map (window start end) (sources e ess)))))"
proof -
  have "map (\<lambda>t. sst_range X (tb_sst t) start end) (sstables_newest_first e) = map Inr (map (window start end) ess)"
    using eng_okD(2) [OF assms] by (induction rule: list_all2_induct) (simp_all add: sst_range_holds)
  then show ?thesis
    by (simp add: range_sources_def mem_range_sources [OF assms] del: map_map)
qed

lemma merge_range_holds:
  assumes "eng_ok X g e ess"
  shows "pbind (range_sources X start end e) (\<lambda>ss. Some (f (merge_all ss))) =
    (if range_panics start end e then None else Some (f (map Inr (window start end (lww_merge (sources e ess))))))"
  by (cases "range_panics start end e")
    (simp_all only: range_sources_holds [OF assms] merge_window [OF assms] pbind.simps if_True if_False simp_thms)

lemma scan_range_holds:
  assumes "eng_ok X g e ess"
  shows "scan_range X env start end e =
    (if range_panics start end e then None
     else Some (Inr (live_rows env e (window start end (lww_merge (sources e ess))))))"
  by (simp only: scan_range_def live_row_rows collect_ok_map_Inr
      merge_range_holds [OF assms, where f = "\<lambda>items. collect_ok (List.map_filter (live_row env e) items)"])

lemma scan_versioned_range_holds:
  assumes "eng_ok X g e ess"
  shows "scan_versioned_range X start end limit e =
    (if range_panics start end e then None
     else Some (Inr (map tomb_of (take limit (window start end (lww_merge (sources e ess)))))))"
  by (simp only: scan_versioned_range_def take_map tombstone_row_Inr collect_ok_map_Inr
      merge_range_holds [OF assms, where f = "\<lambda>items. collect_ok (map tombstone_row (take limit items))"])

text \<open>The streaming range reads the same window of every table: seek, skip, stop.\<close>

lemma takeWhile_less_window:
  assumes "bt_ok es" "\<forall>x \<in> set es. case start of Some s \<Rightarrow> s \<le> fst x | None \<Rightarrow> True"
  shows "takeWhile (before_end end) (map Inr es) = map Inr (window start end es)"
  using assms
proof (induction es)
  case (Cons x es)
  have x: "in_range start end (fst x) = before_end end (Inr x)"
    using Cons.prems(2) by (cases x) (auto simp: in_range_def before_end_def split: option.splits)
  show ?case
  proof (cases "before_end end (Inr x)")
    case False
    have "\<not> in_range start end (fst y)" if "y \<in> set es" for y
      using False bt_ok_Cons_less [OF Cons.prems(1) that]
      by (cases x) (auto simp: before_end_def in_range_def split: option.splits)
    then have "window start end es = []" by (simp add: filter_empty_conv)
    then show ?thesis using False x by simp
  qed (use Cons x in simp)
qed simp

lemma dropWhile_before_start:
  assumes "bt_ok es"
  shows "dropWhile (before_start start) (map Inr es) =
    map Inr (filter (\<lambda>x. case start of Some s \<Rightarrow> s \<le> fst x | None \<Rightarrow> True) es)" (is "_ = map Inr (filter ?P es)")
  using assms
proof (induction es)
  case (Cons x es)
  have x: "before_start start (Inr x) = (\<not> ?P x)" by (cases x) (auto simp: before_start_def split: option.splits)
  show ?case
  proof (cases "?P x")
    case True
    have "?P y" if "y \<in> set es" for y
      using True bt_ok_Cons_less [OF Cons.prems that] by (auto split: option.splits)
    then have "filter ?P es = es" by simp
    then show ?thesis using True x by simp
  qed (use Cons x in simp)
qed simp

lemma window_filter: "window start end (filter (\<lambda>x. case start of Some s \<Rightarrow> s \<le> fst x | None \<Rightarrow> True) es) = window start end es"
  by (auto simp: in_range_def split: option.splits intro: filter_cong)

lemma seek_range:
  assumes "sst_holds X t es"
  obtains pre post where "es = pre @ post" "\<forall>x \<in> set pre. \<exists>s. start = Some s \<and> fst x < s"
    "(case start of Some s \<Rightarrow> sst_iter_from X t s | None \<Rightarrow> sst_iter X t) = map Inr post"
proof (cases start)
  case None
  then show ?thesis using that [of "[]" es] sst_iter_holds [OF assms] by simp
next
  case (Some s)
  obtain pre post where "es = pre @ post" "\<forall>x \<in> set pre. fst x < s" "sst_iter_from X t s = map Inr post"
    by (rule sst_iter_from_holds [OF assms])
  then show ?thesis using that [of pre post] Some by simp
qed

lemma seek_window:
  assumes "sst_holds X t es"
  shows "takeWhile (before_end end) (dropWhile (before_start start)
      (case start of Some s \<Rightarrow> sst_iter_from X t s | None \<Rightarrow> sst_iter X t)) = map Inr (window start end es)"
proof -
  obtain pre post where p: "es = pre @ post" "\<forall>x \<in> set pre. \<exists>s. start = Some s \<and> fst x < s"
    "(case start of Some s \<Rightarrow> sst_iter_from X t s | None \<Rightarrow> sst_iter X t) = map Inr post"
    by (rule seek_range [OF assms])
  have ok: "bt_ok post" using sst_holds_sorted [OF assms] p(1) by (simp add: sorted_wrt_append)
  have "window start end pre = []" using p(2) by (auto simp: filter_empty_conv in_range_def)
  then have w: "window start end es = window start end post" using p(1) by simp
  let ?P = "\<lambda>x :: entry. case start of Some s \<Rightarrow> s \<le> fst x | None \<Rightarrow> True"
  have "takeWhile (before_end end) (map Inr (filter ?P post)) = map Inr (window start end (filter ?P post))"
    by (rule takeWhile_less_window) (use ok in auto)
  then show ?thesis by (simp only: p(3) dropWhile_before_start [OF ok] w window_filter)
qed

lemma scan_range_iter_holds:
  assumes "eng_ok X g e ess"
  shows "scan_range_iter X env start end e =
    (if range_panics start end e then None
     else Some (map Inr (live_rows env e (window start end (lww_merge (sources e ess))))))"
proof -
  have "map (\<lambda>t. takeWhile (before_end end) (dropWhile (before_start start)
        (case start of Some s \<Rightarrow> sst_iter_from X (tb_sst t) s | None \<Rightarrow> sst_iter X (tb_sst t)))) (sstables_newest_first e) =
      map (map Inr) (map (window start end) ess)"
    using eng_okD(2) [OF assms] by (rule table_sources) (rule seek_window)
  then show ?thesis
    unfolding scan_range_iter_def mem_range_sources [OF assms] Let_def
    using merge_window [OF assms, of start "end"] live_row_rows
    by (cases "range_panics start end e") (simp_all only: map_append option.map if_True if_False simp_thms)
qed

subsection \<open>Pages\<close>

lemma past_cursor_Inr: "filter (past_cursor after) (map Inr es) = map Inr (filter (\<lambda>x. after_key after (fst x)) es)"
  by (induction es) (auto simp: past_cursor_def split: option.splits)

text \<open>A suffix that keeps everything after the cursor.\<close>

definition after_suffix :: "bytes option \<Rightarrow> entry list \<Rightarrow> entry list \<Rightarrow> bool" where
  "after_suffix after es post \<longleftrightarrow> (\<exists>pre. es = pre @ post \<and> (\<forall>x \<in> set pre. \<not> after_key after (fst x)))"

lemma after_suffix_filter:
  "after_suffix after es post \<Longrightarrow> filter (\<lambda>x. after_key after (fst x)) post = filter (\<lambda>x. after_key after (fst x)) es"
  by (auto simp: after_suffix_def filter_empty_conv)

lemma after_suffix_sorted: "after_suffix after es post \<Longrightarrow> bt_ok es \<Longrightarrow> bt_ok post"
  by (auto simp: after_suffix_def sorted_wrt_append)

text \<open>
  The page of the merge: pages of the memtables, suffixes of the tables, the cursor filter and the
  limit give the first rows of the full merge after the cursor.
\<close>

lemma page_of_merge:
  assumes sorted: "\<forall>s \<in> set (ms @ ess). bt_ok s" and posts: "list_all2 (after_suffix after) ess posts"
  shows "take n (filter (past_cursor after) (merge_all
      (map (map Inr) (map (\<lambda>s. take n (filter (\<lambda>x. after_key after (fst x)) s)) ms @ posts)))) =
    map Inr (take n (filter (\<lambda>x. after_key after (fst x)) (lww_merge (ms @ ess))))"
proof -
  let ?A = "filter (\<lambda>x :: entry. after_key after (fst x))"
  let ?ss = "map (\<lambda>s. take n (?A s)) ms @ posts"
  have posts_ok: "\<forall>s \<in> set posts. bt_ok s" using posts sorted
    by (induction rule: list_all2_induct) (auto dest: after_suffix_sorted)
  have take_ok: "bt_ok (take k s)" if "bt_ok s" for k and s :: "entry list"
    using that by (simp add: sorted_wrt_take take_map [symmetric])
  have ok: "\<forall>s \<in> set ?ss. bt_ok s" using sorted posts_ok take_ok by auto
  have "map ?A posts = map ?A ess" using posts
    by (induction rule: list_all2_induct) (auto simp: after_suffix_filter)
  moreover have "map ?A (map (\<lambda>s. take n (?A s)) ms) = map (\<lambda>s. take n (?A s)) ms"
    by (auto simp: filter_id_conv dest: in_set_takeD)
  ultimately have "map ?A ?ss = map (take n) (map ?A ms) @ map ?A ess" by (simp only: map_append map_map comp_def)
  then have "?A (lww_merge ?ss) = lww_merge (map (take n) (map ?A ms) @ map ?A ess)"
    using lww_merge_filter [OF ok, of "after_key after"] by (simp only:)
  moreover have "take n (lww_merge (map (take n) (map ?A ms) @ map ?A ess)) = take n (lww_merge (map ?A (ms @ ess)))"
    unfolding map_append by (rule lww_merge_take) (use sorted in auto)
  moreover have "lww_merge (map ?A (ms @ ess)) = ?A (lww_merge (ms @ ess))"
    using lww_merge_filter [OF sorted, of "after_key after"] by simp
  ultimately have "take n (?A (lww_merge ?ss)) = take n (?A (lww_merge (ms @ ess)))" by simp
  then show ?thesis by (simp only: merge_all_correct(1) [OF ok] past_cursor_Inr take_map)
qed

lemma table_posts:
  assumes "list_all2 (\<lambda>t. sst_holds X (tb_sst t)) ts ess"
    "\<And>t es. sst_holds X (tb_sst t) es \<Longrightarrow> \<exists>post. after_suffix after es post \<and> f t = map (Inr \<circ> g) post"
  shows "\<exists>posts. list_all2 (after_suffix after) ess posts \<and> map f ts = map (map Inr) (map (map g) posts)"
  using assms(1)
proof (induction rule: list_all2_induct)
  case (Cons t ts es ess)
  obtain posts where "list_all2 (after_suffix after) ess posts" "map f ts = map (map Inr) (map (map g) posts)"
    using Cons.IH by blast
  moreover obtain post where "after_suffix after es post" "f t = map (Inr \<circ> g) post"
    using assms(2) [OF Cons.hyps(1)] by blast
  ultimately show ?case by (intro exI [of _ "post # posts"]) simp
qed simp

lemma scan_versioned_page_holds:
  assumes "eng_ok X g e ess"
  shows "scan_versioned_page X after limit e =
    Inr (map tomb_of (take limit (filter (\<lambda>x. after_key after (fst x)) (lww_merge (sources e ess)))))"
proof -
  note ok = eng_okD [OF assms]
  let ?f = "\<lambda>t. case after of Some a \<Rightarrow> sst_iter_from X (tb_sst t) a | None \<Rightarrow> sst_iter X (tb_sst t)"
  have "\<exists>post. after_suffix after es post \<and> ?f t = map (Inr \<circ> id) post" if "sst_holds X (tb_sst t) es" for t es
    by (rule seek_range [OF that, of after]) (force simp: after_suffix_def)
  then obtain posts where posts: "list_all2 (after_suffix after) ess posts"
    "map ?f (sstables_newest_first e) = map (map Inr) (map (map id) posts)"
    using table_posts [OF ok(2), of after ?f id] by blast
  have mems: "map (\<lambda>m. mt_range_latest_page m after limit) (memtables e) =
      map (\<lambda>s. take limit (filter (\<lambda>x. after_key after (fst x)) s)) (mem_lists e)"
    using ok(1) by (simp add: mem_lists_def mt_range_latest_page_eq)
  have "mem_sources (\<lambda>m. mt_range_latest_page m after limit) e @ map ?f (sstables_newest_first e) =
      map (map Inr) (map (\<lambda>s. take limit (filter (\<lambda>x. after_key after (fst x)) s)) (mem_lists e) @ posts)"
    unfolding mem_sources_map mems posts(2) by simp
  then show ?thesis
    unfolding scan_versioned_page_def Let_def using page_of_merge [OF sources_sorted [OF assms] posts(1), of limit]
    by (simp only: tombstone_row_Inr collect_ok_map_Inr)
qed

lemma strip_value_pair: "strip_value (k, hv) = (k, (\<lambda>(h, v). (h, case v of Put _ \<Rightarrow> Put [] | Delete \<Rightarrow> Delete)) hv)"
  by (cases hv) (simp add: strip_value_def)

lemma strip_value_key [simp]: "fst (strip_value x) = fst x"
  by (cases x) (simp add: strip_value_def)

lemma stamp_marker_of: "stamp_marker (Inr (stamp_of x)) = Inr (strip_value x)"
  by (cases x) (auto simp: stamp_marker_def stamp_of_def strip_value_def split: version_value.splits)

lemma stamp_row_strip: "map stamp_row (map Inr (map strip_value xs)) = map Inr (map stamp_of xs)"
  by (auto simp: stamp_row_def stamp_of_def strip_value_def split: version_value.splits)

lemma strip_value_fst [simp]: "fst \<circ> strip_value = fst"
  by (simp add: fun_eq_iff)

lemma filter_strip: "filter (\<lambda>x. P (fst x)) (map strip_value es) = map strip_value (filter (\<lambda>x. P (fst x)) es)"
  by (simp add: filter_map comp_def)

lemma after_suffix_strip: "after_suffix after es post \<Longrightarrow> after_suffix after (map strip_value es) (map strip_value post)"
proof -
  assume "after_suffix after es post"
  then obtain pre where "es = pre @ post" "\<forall>x \<in> set pre. \<not> after_key after (fst x)" by (auto simp: after_suffix_def)
  then show ?thesis unfolding after_suffix_def by (intro exI [of _ "map strip_value pre"]) (simp cong: option.case_cong)
qed

lemma scan_stamps_page_holds:
  assumes "eng_ok X g e ess"
  shows "scan_stamps_page X after limit e =
    Inr (map stamp_of (take limit (filter (\<lambda>x. after_key after (fst x)) (lww_merge (sources e ess)))))"
proof -
  note ok = eng_okD [OF assms] and sorted = sources_sorted [OF assms]
  let ?f = "\<lambda>t. map stamp_marker (stamps_iter_from X (tb_sst t) after)" and ?S = "map strip_value"
  let ?A = "filter (\<lambda>x :: entry. after_key after (fst x))"
  have "\<exists>post. after_suffix after es post \<and> ?f t = map (Inr \<circ> strip_value) post"
    if holds: "sst_holds X (tb_sst t) es" for t es
  proof -
    obtain pre post where p: "es = pre @ post" "\<forall>x \<in> set pre. \<exists>s. after = Some s \<and> fst x < s"
      "stamps_iter_from X (tb_sst t) after = map (Inr \<circ> stamp_of) post"
      by (rule stamps_iter_from_holds [OF holds])
    have "after_suffix after es post" using p(1,2) by (force simp: after_suffix_def)
    then show ?thesis using p(3) by (auto simp: stamp_marker_of)
  qed
  then obtain posts where posts: "list_all2 (after_suffix after) ess posts"
    "map ?f (sstables_newest_first e) = map (map Inr) (map ?S posts)"
    using table_posts [OF ok(2), of after ?f strip_value] by blast
  have posts': "list_all2 (after_suffix after) (map ?S ess) (map ?S posts)"
    using posts(1) by (auto simp: list_all2_conv_all_nth after_suffix_strip)
  have mems: "map (\<lambda>m. ?S (mt_range_latest_page m after limit)) (memtables e) =
      map (\<lambda>s. take limit (?A s)) (map ?S (mem_lists e))"
    using ok(1) by (simp add: mem_lists_def mt_range_latest_page_eq filter_strip [of "after_key after"] take_map)
  have "mem_sources (\<lambda>m. ?S (mt_range_latest_page m after limit)) e @ map ?f (sstables_newest_first e) =
      map (map Inr) (map (\<lambda>s. take limit (?A s)) (map ?S (mem_lists e)) @ map ?S posts)"
    unfolding mem_sources_map mems posts(2) by simp
  moreover have "\<forall>s \<in> set (map ?S (mem_lists e) @ map ?S ess). bt_ok s" using sorted by auto
  moreover have "lww_merge (map ?S (mem_lists e) @ map ?S ess) = ?S (lww_merge (sources e ess))"
    using lww_merge_map [OF sorted strip_value_pair] by (simp add: case_prod_unfold)
  ultimately show ?thesis
    unfolding scan_stamps_page_def Let_def using page_of_merge [OF _ posts', of "map ?S (mem_lists e)" limit]
    by (simp only: filter_strip [of "after_key after"] take_map stamp_row_strip collect_ok_map_Inr)
qed

subsection \<open>Counts\<close>

definition live_count :: "entry list \<Rightarrow> nat" where
  "live_count es = length (filter (\<lambda>x. snd (snd x) \<noteq> Delete) es)"

lemma count_puts_Inr: "count_puts (map Inr es) n = Inr (n + live_count es)"
proof (induction es arbitrary: n)
  case (Cons x es)
  then show ?case by (cases x; cases "snd (snd x)") (auto simp: live_count_def)
qed (simp add: live_count_def)

lemma count_range_holds:
  assumes "eng_ok X g e ess"
  shows "count_range X start end e =
    (if range_panics start end e then None
     else Some (Inr (live_count (window start end (lww_merge (sources e ess))))))"
  by (simp only: count_range_def merge_range_holds [OF assms, where f = "\<lambda>items. count_puts items 0"] count_puts_Inr add_0)

text \<open>The number of versions the sources hold in a range, shadowed ones included.\<close>

definition raw_count :: "bytes option \<Rightarrow> bytes option \<Rightarrow> entry list list \<Rightarrow> nat" where
  "raw_count start end ss = sum_list (map (\<lambda>es. length (window start end es)) ss)"

abbreviation capped :: "nat \<Rightarrow> nat \<Rightarrow> nat option" where
  "capped cap n \<equiv> (if cap < n then None else Some n)"

lemma inverted_empty: "inverted start end \<Longrightarrow> \<not> in_range start end k"
  by (auto simp: inverted_def in_range_def split: option.splits)

lemma inverted_raw: "inverted start end \<Longrightarrow> raw_count start end ss = 0"
  by (simp add: raw_count_def inverted_empty)

lemma raw_frozen_holds:
  assumes "\<forall>f \<in> set fs. mt_inv (fm_mem f)" and "inverted start end \<longrightarrow> raw \<le> cap"
  shows "raw_frozen start end cap fs raw =
    (if inverted start end \<and> list_ex (\<lambda>m. \<not> mt_is_empty m) (map fm_mem fs) then None
     else Some (capped cap (raw + raw_count start end (map (mt_iter_latest_lazy \<circ> fm_mem) fs))))"
  using assms
  by (induction fs arbitrary: raw) (auto simp: raw_count_def mt_range_latest_eq inverted_empty)

lemma raw_items_holds:
  assumes "bt_ok es" "raw \<le> cap"
  shows "raw_items start end cap (map Inr es) raw = Inr (capped cap (raw + length (window start end es)))"
  using assms
proof (induction es arbitrary: raw)
  case (Cons x es)
  obtain k hv where x: "x = (k, hv)" by (cases x)
  show ?case
  proof (cases "\<exists>b. end = Some b \<and> b \<le> k")
    case True
    then have "\<not> in_range start end (fst y)" if "y \<in> set (x # es)" for y
      using bt_ok_Cons_ge [OF Cons.prems(1) that] x by (auto simp: in_range_def)
    then have "window start end (x # es) = []" by (auto simp: filter_empty_conv)
    then show ?thesis using True Cons.prems(2) by (auto simp: x)
  next
    case False
    then show ?thesis using Cons by (auto simp: x split: option.splits)
  qed
qed simp

lemma raw_tables_holds:
  assumes "list_all2 (\<lambda>t. sst_holds X (tb_sst t)) ts ess" "raw \<le> cap"
  shows "raw_tables X start end cap ts raw = Inr (capped cap (raw + raw_count start end ess))"
  using assms
proof (induction arbitrary: raw rule: list_all2_induct)
  case (Cons t ts es ess)
  obtain pre post where p: "es = pre @ post" "\<forall>x \<in> set pre. \<exists>s. start = Some s \<and> fst x < s"
    "(case start of Some s \<Rightarrow> sst_iter_from X (tb_sst t) s | None \<Rightarrow> sst_iter X (tb_sst t)) = map Inr post"
    by (rule seek_range [OF Cons.hyps(1)])
  have "window start end es = window start end post" using p(1,2) by (auto simp: filter_empty_conv in_range_def)
  moreover have "bt_ok post" using sst_holds_sorted [OF Cons.hyps(1)] p(1) by (simp add: sorted_wrt_append)
  ultimately show ?case
    using Cons.IH Cons.prems by (auto simp: p(3) raw_items_holds raw_count_def add.assoc)
qed (simp add: raw_count_def)

lemma lww_merge_length:
  assumes "\<forall>s \<in> set ss. bt_ok s"
  shows "length (lww_merge ss) \<le> sum_list (map length ss)"
proof -
  have keys: "fst ` set (lww_merge ss) \<subseteq> fst ` set (concat ss)"
  proof
    fix k assume "k \<in> fst ` set (lww_merge ss)"
    then have "lww (map (\<lambda>s. map_of s k) ss) \<noteq> None"
      using merge_all_correct(3) [OF assms, of k] by (metis map_of_eq_None_iff)
    then obtain s where "s \<in> set ss" "map_of s k \<noteq> None" by (auto simp: lww_None_iff)
    then show "k \<in> fst ` set (concat ss)" by (force dest: map_of_SomeD)
  qed
  have "length (lww_merge ss) = card (fst ` set (lww_merge ss))"
    using bt_ok_distinct [OF merge_all_correct(2) [OF assms]] by (metis distinct_card length_map set_map)
  also have "\<dots> \<le> card (fst ` set (concat ss))" using keys by (intro card_mono) auto
  also have "\<dots> \<le> length (concat ss)" by (metis card_length length_map set_map)
  finally show ?thesis by (simp add: length_concat)
qed

lemma live_count_le_raw:
  assumes "eng_ok X g e ess"
  shows "live_count (window start end (lww_merge (sources e ess))) \<le> raw_count start end (sources e ess)"
proof -
  note sorted = sources_sorted [OF assms]
  have "live_count (window start end (lww_merge (sources e ess))) \<le> length (lww_merge (map (window start end) (sources e ess)))"
    by (simp only: lww_merge_filter [OF sorted] live_count_def length_filter_le)
  also have "\<dots> \<le> raw_count start end (sources e ess)"
  proof -
    have "\<forall>s \<in> set (map (window start end) (sources e ess)). bt_ok s" using sorted by auto
    from lww_merge_length [OF this] show ?thesis by (simp add: raw_count_def comp_def)
  qed
  finally show ?thesis .
qed

lemma count_range_at_most_holds:
  assumes "eng_ok X g e ess" and "cap + 1 < usize_bound"
  shows "count_range_at_most X start end cap e =
    (if range_panics start end e then None
     else Some (Inr (if cap < raw_count start end (sources e ess) then cap + 1
         else live_count (window start end (lww_merge (sources e ess))))))"
proof -
  note ok = eng_okD [OF assms(1)] and le = live_count_le_raw [OF assms(1), of start "end"]
  have mem: "mt_inv (en_mem e)" "\<forall>f \<in> set (en_frozen e). mt_inv (fm_mem f)" using ok(1) by (auto simp: memtables_def)
  let ?n = "length (window start end (mt_iter_latest_lazy (en_mem e)))"
  have raw: "raw_count start end (sources e ess) = ?n +
      raw_count start end (map (mt_iter_latest_lazy \<circ> fm_mem) (en_frozen e)) + raw_count start end ess"
    by (simp add: raw_count_def mem_lists_def memtables_def rev_map [symmetric] sum_list_rev comp_def)
  have panics: "range_panics start end e \<longleftrightarrow> inverted start end \<and>
      (\<not> mt_is_empty (en_mem e) \<or> list_ex (\<lambda>m. \<not> mt_is_empty m) (map fm_mem (en_frozen e)))"
    by (auto simp: range_panics_def memtables_def list_ex_iff)
  have small: "inverted start end \<longrightarrow> ?n \<le> cap" by (simp add: inverted_empty)
  show ?thesis
    using le raw assms(2)
    by (auto simp: count_range_at_most_def mt_range_latest_eq [OF mem(1)] raw_frozen_holds [OF mem(2) small]
        raw_tables_holds [OF ok(2)] count_range_holds [OF assms(1)] panics min_def)
qed

text \<open>The count against the rows of a scan: it leaves nothing out, and adds only expired rows.\<close>

lemma live_count_rows:
  "length (live_rows env e es) \<le> live_count es"
  "en_ttl_ms e = None \<Longrightarrow> length (live_rows env e es) = live_count es"
  by (induction es)
    (auto simp: live_count_def live_rows_def List.map_filter_simps live_pair_def live_value_def version_to_value_def
      is_expired_def row_expired_def split: option.splits version_value.splits if_splits)

subsection \<open>Prefixes\<close>

lemma lex_append_le [simp]: "q @ x \<le> q @ y \<longleftrightarrow> x \<le> (y :: bytes)"
  by (induction q) auto

lemma lex_append_less [simp]: "q @ x < q @ y \<longleftrightarrow> x < (y :: bytes)"
  by (induction q) auto

lemma lex_between:
  fixes q :: bytes
  assumes "q \<le> k" "k < q @ y"
  shows "\<exists>r. k = q @ r"
  using assms
proof (induction q arbitrary: k)
  case (Cons c q)
  then obtain d k' where "k = d # k'" by (cases k) auto
  with Cons show ?case by auto
qed simp

lemma lex_le_append: "(q :: bytes) \<le> q @ x"
  by (induction q) auto

lemma byte_less_Suc: "b < 0xFF \<Longrightarrow> x < b + 1 \<longleftrightarrow> x \<le> (b :: byte)"
proof -
  assume "b < 0xFF"
  then have "unat (b + 1) = unat b + 1" by (simp add: word_less_nat_alt unat_word_ariths)
  then show ?thesis by (auto simp: word_less_nat_alt word_le_nat_alt)
qed

lemma prefix_upper_bound_range:
  "in_range (Some p) (prefix_upper_bound p) k \<longleftrightarrow> take (length p) k = p"
proof (induction p rule: rev_induct)
  case Nil
  then show ?case by (simp add: prefix_upper_bound_def in_range_def)
next
  case (snoc b q)
  have starts: "take (length (q @ [b])) k = q @ [b] \<longleftrightarrow> (\<exists>r. k = q @ b # r)"
    by (auto simp: append_eq_conv_conj) (metis append_Cons append_assoc append_take_drop_id self_append_conv2)
  show ?case
  proof (cases "b < 0xFF")
    case True
    then have "in_range (Some (q @ [b])) (prefix_upper_bound (q @ [b])) k \<longleftrightarrow> q @ [b] \<le> k \<and> k < q @ [b + 1]"
      by (simp add: prefix_upper_bound_def in_range_def)
    also have "\<dots> \<longleftrightarrow> (\<exists>r. k = q @ b # r)"
    proof
      assume k: "q @ [b] \<le> k \<and> k < q @ [b + 1]"
      then have "q \<le> k" using order_trans [OF lex_le_append [of q "[b]"]] by simp
      then obtain r where r: "k = q @ r" using lex_between [of q k "[b + 1]"] k by auto
      then have rb: "[b] \<le> r" "r < [b + 1]" using k by simp_all
      then obtain x r' where x: "r = x # r'" by (cases r) auto
      have "b \<le> x" "x < b + 1" using rb unfolding x by auto
      then have "x = b" using byte_less_Suc [OF True, of x] by simp
      then show "\<exists>r. k = q @ b # r" using r x by blast
    next
      assume "\<exists>r. k = q @ b # r"
      then obtain r where r: "k = q @ b # r" ..
      have "b < b + 1" using byte_less_Suc [OF True, of b] by simp
      then show "q @ [b] \<le> k \<and> k < q @ [b + 1]" unfolding r by simp
    qed
    finally show ?thesis using starts by blast
  next
    case False
    then have b: "b = 0xFF"
      using unsigned_less [where ?'a = nat, of b] by (simp add: word_less_nat_alt word_unat_eq_iff)
    then have "prefix_upper_bound (q @ [b]) = prefix_upper_bound q" by (simp add: prefix_upper_bound_def)
    then have "in_range (Some (q @ [b])) (prefix_upper_bound (q @ [b])) k \<longleftrightarrow>
        q @ [b] \<le> k \<and> in_range (Some q) (prefix_upper_bound q) k"
      using lex_le_append [of q "[b]"] by (auto simp: in_range_def)
    also have "\<dots> \<longleftrightarrow> (\<exists>r. k = q @ b # r)"
    proof
      assume k: "q @ [b] \<le> k \<and> in_range (Some q) (prefix_upper_bound q) k"
      then obtain r where r: "k = q @ r" using snoc.IH by (metis append_take_drop_id)
      then have rb: "[b] \<le> r" using k by simp
      then obtain x r' where x: "r = x # r'" by (cases r) auto
      then have "b \<le> x" using rb by auto
      then have "x = b"
        using b unsigned_less [where ?'a = nat, of x] by (simp add: word_le_nat_alt word_unat_eq_iff)
      then show "\<exists>r. k = q @ b # r" using r x by blast
    qed (use snoc.IH in auto)
    finally show ?thesis using starts by blast
  qed
qed

lemma live_rows_Cons:
  "live_rows env e (x # es) =
     (case live_value env e (Some (snd x)) of Some v \<Rightarrow> (fst x, v) # live_rows env e es | None \<Rightarrow> live_rows env e es)"
  by (simp add: live_rows_def live_pair_def List.map_filter_simps split: option.splits)

lemma live_rows_Nil [simp]: "live_rows env e [] = []"
  by (simp add: live_rows_def)

lemma live_value_None [simp]: "live_value env e None = None"
  by (simp add: live_value_def)

lemma live_rows_filter: "live_rows env e (filter (\<lambda>x. P (fst x)) es) = filter (\<lambda>x. P (fst x)) (live_rows env e es)"
  by (induction es) (simp_all add: live_rows_Cons split: option.splits)

lemma prefix_not_inverted: "\<not> inverted (Some p) (prefix_upper_bound p)"
  using prefix_upper_bound_range [of p p] inverted_empty by force

lemma scan_prefix_holds:
  assumes "eng_ok X g e ess"
  shows "scan_prefix X env p e =
    Some (Inr (live_rows env e (filter (\<lambda>x. take (length p) (fst x) = p) (lww_merge (sources e ess)))))"
  using scan_range_holds [OF assms]
  by (simp add: scan_prefix_def prefix_upper_bound_range range_panics_def prefix_not_inverted)

section \<open>Point reads and scans agree on ordered sources\<close>

text \<open>Along the sources, newest first, the stamps of a key never increase.\<close>

definition not_older :: "entry list \<Rightarrow> entry list \<Rightarrow> bool" where
  "not_older a b \<longleftrightarrow> (\<forall>k x y. map_of a k = Some x \<longrightarrow> map_of b k = Some y \<longrightarrow> fst y \<le> fst x)"

definition stamps_down :: "entry list list \<Rightarrow> bool" where
  "stamps_down ss \<longleftrightarrow> sorted_wrt not_older ss"

lemma not_olderD: "not_older a b \<Longrightarrow> map_of a k = Some x \<Longrightarrow> map_of b k = Some y \<Longrightarrow> fst y \<le> fst x"
  unfolding not_older_def by blast

lemma stamps_down_Cons: "stamps_down (s # ss) \<longleftrightarrow> (\<forall>s' \<in> set ss. not_older s s') \<and> stamps_down ss"
  by (simp add: stamps_down_def)

lemma stamps_down_append:
  "stamps_down (as @ bs) \<longleftrightarrow> stamps_down as \<and> stamps_down bs \<and> (\<forall>a \<in> set as. \<forall>b \<in> set bs. not_older a b)"
  by (auto simp: stamps_down_def sorted_wrt_append)

lemma stamps_down_held:
  assumes "stamps_down ss"
  shows "held ss k = lww (map (\<lambda>s. map_of s k) ss)"
  using assms
proof (induction ss)
  case (Cons s ss)
  then have IH: "held ss k = lww (map (\<lambda>s. map_of s k) ss)" by (simp add: stamps_down_def)
  show ?case
  proof (cases "map_of s k")
    case (Some x)
    show ?thesis
    proof (cases "lww (map (\<lambda>s. map_of s k) ss)")
      case (Some y)
      then obtain s' where "s' \<in> set ss" "map_of s' k = Some y" using lww_SomeD [OF Some] by auto
      moreover have "\<forall>s' \<in> set ss. not_older s s'" using Cons.prems by (simp add: stamps_down_Cons)
      ultimately have "fst y \<le> fst x" using \<open>map_of s k = Some x\<close> not_olderD by blast
      then show ?thesis using Some \<open>map_of s k = Some x\<close> by (simp add: not_less [symmetric])
    qed (simp add: Some)
  qed (simp add: IH)
qed simp

lemma live_rows_keys: "fst ` set (live_rows env e es) \<subseteq> fst ` set es"
  by (induction es) (auto simp: live_rows_Cons split: option.splits)

lemma map_of_live_rows:
  assumes "bt_ok es"
  shows "map_of (live_rows env e es) k = live_value env e (map_of es k)"
  using assms
proof (induction es)
  case (Cons x es)
  have "fst x \<notin> fst ` set es" using bt_ok_Cons_less [OF Cons.prems] by force
  then have "map_of (live_rows env e es) (fst x) = None"
    using live_rows_keys [of env e es] by (auto simp: map_of_eq_None_iff)
  then show ?case using Cons by (cases "fst x = k") (simp_all add: live_rows_Cons split: option.splits)
qed simp

lemma live_rows_sorted: "bt_ok es \<Longrightarrow> bt_ok (live_rows env e es)"
proof (induction es)
  case (Cons x es)
  have "fst x < fst y" if "y \<in> set (live_rows env e es)" for y
  proof -
    have "fst y \<in> fst ` set es" using that live_rows_keys [of env e es] by blast
    then show ?thesis using bt_ok_Cons_less [OF Cons.prems] by force
  qed
  then show ?case using Cons by (simp add: live_rows_Cons split: option.splits)
qed simp

lemma scan_versioned_with_tombstones_holds:
  assumes "eng_ok X g e ess"
  shows "scan_versioned_with_tombstones X e = Inr (map tomb_of (lww_merge (sources e ess)))"
  by (simp only: scan_versioned_with_tombstones_def scan_with_tombstones_holds [OF assms] collect_ok_map_Inr)

section \<open>Properties\<close>

text \<open>An engine with one write in memory above one table.\<close>

definition example_engine :: "sstable \<Rightarrow> engine" where
  "example_engine t =
     \<lparr>en_wal = plain_wal [], en_mem = mt_of [([1], Hlc 9 0, Put [8])], en_frozen = [],
      en_next_wal_seq = 1, en_write_seq = 0, en_clock = hlc_clock_new, en_ttl_ms = None,
      en_tombstone_retention_ms = 0, en_opts = engine_options_default,
      en_l0 = [\<lparr>tb_path = table_name 0, tb_sst = t\<rparr>], en_levels = [], en_next_seq = 1,
      en_read_cache = rc_new 0 0, en_compactions = 0, en_compaction_bytes = 0,
      en_sst_negative_lookups = 0, en_maint_watermark = hlc_MAX,
      en_disk = \<lparr>dk_files = (\<lambda>_. None), dk_manifest = None\<rparr>\<rparr>"

definition example_wall :: engine_env where
  "example_wall = \<lparr>ev_wall = 1000, ev_wal_rng = (\<lambda>_. (None, None)), ev_sst_rng = (\<lambda>_. (None, None)),
     ev_sidecar = (\<lambda>_. example_env)\<rparr>"

lemma example_sources: "mem_lists (example_engine t) = [[([1], Hlc 9 0, Put [8])]]"
  by (simp add: mem_lists_def memtables_def example_engine_def mt_of_def mt_insert_def mt_new_def mt_iter_latest_lazy_def)

lemma example_range_panics: "range_panics start end (example_engine t) = inverted start end"
  by (simp add: range_panics_def memtables_def example_engine_def mt_is_empty_of)

lemma example_engine_ok:
  assumes "sst_holds plain_externals t example_entries"
  shows "eng_ok plain_externals 0 (example_engine t) [example_entries]"
  using assms
  by (simp add: eng_ok_def cache_ok_def memtables_def sstables_newest_first_def example_engine_def rc_wf_def
      rc_lookup_eq rc_new_def Let_def)

lemma example_cutoff: "cutoff_ok 0 env e"
  by (simp add: cutoff_ok_def)

lemma example_stamps_down: "stamps_down (sources (example_engine t) [example_entries])"
  by (simp add: stamps_down_def not_older_def example_sources example_entries_def less_eq_hlc_def)

lemma example_merge:
  "lww_merge (sources (example_engine t) [example_entries]) =
     [([1], Hlc 9 0, Put [8]), ([2], Hlc 6 1, Delete), ([2, 0], Hlc 4 0, Put [])]"
  by (rule lww_merge_unique) (auto simp: example_sources example_entries_def less_hlc_def)

lemma example_expired [simp]: "is_expired env (example_engine t) h = False"
  by (simp add: is_expired_def row_expired_def example_engine_def)

text \<open>
  C7: a point read returns the live value of the newest source that has the key (active memtable,
  frozen memtables, tables), through the read cache and the tables' block caches, and leaves the
  data as it was. The versioned read returns that version; only where a compaction reclaimed a
  tombstone or an expired row may it return another version that no reader sees as a row.
\<close>

theorem engine_point_read:
  assumes "eng_ok X g e ess" "cutoff_ok g env e"
  shows "(\<exists>e'. engine_get X env key e = Done (live_value env e (held (sources e ess) key)) e' \<and>
      eng_ok X g e' ess \<and> same_data e e') \<and>
    (\<exists>r e'. get_versioned X key e = Done r e' \<and> answer_ok g (held (sources e ess) key) r)"
  using engine_get_holds [OF assms] get_versioned_holds [OF assms(1)] by blast

theorem engine_point_read_witness:
  "\<exists>t e'. engine_get plain_externals example_wall [1] (example_engine t) = Done (Some [8]) e'"
proof -
  obtain t where t: "sst_holds plain_externals t example_entries" using example_table by blast
  show ?thesis
    using engine_point_read [OF example_engine_ok [OF t] example_cutoff, of example_wall "[1]"]
    by (auto simp: example_sources live_value_def version_to_value_def)
qed

text \<open>
  C8: a full scan ends without an error and lists the live rows in strict key order, each with the
  value of the highest stamp over all sources, deleted and expired rows left out; the versioned
  scan lists the same versions with their stamps and with the tombstones.
\<close>

theorem engine_scan_lww:
  assumes "eng_ok X g e ess"
  shows "\<exists>rows. scan X env e = Inr rows \<and> bt_ok rows \<and>
    (\<forall>k. map_of rows k = live_value env e (lww (map (\<lambda>s. map_of s k) (sources e ess)))) \<and>
    scan_versioned_with_tombstones X e = Inr (map tomb_of (lww_merge (sources e ess)))"
proof -
  note m = merge_all_correct(2,3) [OF sources_sorted [OF assms]]
  show ?thesis
    using scan_holds [OF assms] live_rows_sorted [OF m(1)] map_of_live_rows [OF m(1)] m(2)
      scan_versioned_with_tombstones_holds [OF assms]
    by metis
qed

theorem engine_scan_lww_witness:
  "\<exists>t rows. scan plain_externals example_wall (example_engine t) = Inr rows \<and> map_of rows [1] = Some [8] \<and>
     map_of rows [2] = None \<and> map_of rows [2, 0] = Some []"
proof -
  obtain t where t: "sst_holds plain_externals t example_entries" using example_table by blast
  obtain rows where rows: "scan plain_externals example_wall (example_engine t) = Inr rows"
    "\<forall>k. map_of rows k = live_value example_wall (example_engine t)
      (lww (map (\<lambda>s. map_of s k) (sources (example_engine t) [example_entries])))"
    using engine_scan_lww [OF example_engine_ok [OF t], of example_wall] by blast
  have "map_of rows [1] = Some [8] \<and> map_of rows [2] = None \<and> map_of rows [2, 0] = Some []"
    by (simp add: rows(2) example_sources example_entries_def live_value_def version_to_value_def less_hlc_def)
  then show ?thesis using rows(1) by blast
qed

text \<open>
  C15: the collected and the streaming range scan panic exactly when the start of the range lies above
  its end and some memtable has an entry. Otherwise they return exactly the rows of the full scan
  whose keys are in the half-open range, and the versioned one the first versions of the merge there,
  tombstones included. The prefix scan never panics and returns the rows whose keys start with the prefix.
\<close>

theorem engine_range_reads:
  assumes "eng_ok X g e ess" "scan X env e = Inr rows"
  shows "scan_range X env start end e =
      (if range_panics start end e then None else Some (Inr (filter (\<lambda>r. in_range start end (fst r)) rows))) \<and>
    scan_range_iter X env start end e =
      (if range_panics start end e then None else Some (map Inr (filter (\<lambda>r. in_range start end (fst r)) rows))) \<and>
    scan_versioned_range X start end limit e =
      (if range_panics start end e then None
       else Some (Inr (map tomb_of (take limit (window start end (lww_merge (sources e ess))))))) \<and>
    scan_prefix X env p e = Some (Inr (filter (\<lambda>r. take (length p) (fst r) = p) rows))"
proof -
  have rows: "rows = live_rows env e (lww_merge (sources e ess))" using scan_holds [OF assms(1)] assms(2) by simp
  show ?thesis
    using scan_range_holds [OF assms(1)] scan_range_iter_holds [OF assms(1)] scan_prefix_holds [OF assms(1)]
      scan_versioned_range_holds [OF assms(1)]
    by (simp only: rows live_rows_filter [of env e "in_range start end"]
        live_rows_filter [of env e "\<lambda>k. take (length p) k = p"] simp_thms)
qed

theorem engine_range_reads_witness:
  "\<exists>t. scan_range plain_externals example_wall (Some [1]) (Some [2, 0]) (example_engine t) = Some (Inr [([1], [8])]) \<and>
     scan_prefix plain_externals example_wall [2] (example_engine t) = Some (Inr [([2, 0], [])]) \<and>
     scan_range plain_externals example_wall (Some [2]) (Some [1]) (example_engine t) = None"
proof -
  obtain t where t: "sst_holds plain_externals t example_entries" using example_table by blast
  have "scan plain_externals example_wall (example_engine t) = Inr [([1], [8]), ([2, 0], [])]"
    using scan_holds [OF example_engine_ok [OF t], of example_wall]
    by (simp add: example_merge live_rows_Cons live_value_def version_to_value_def)
  note reads = engine_range_reads [OF example_engine_ok [OF t] this]
  show ?thesis
    using reads [of "Some [1]" "Some [2, 0]" 1 "[2]"] reads [of "Some [2]" "Some [1]" 1 "[2]"]
    by (intro exI [of _ t]) (simp add: in_range_def inverted_def example_range_panics)
qed

text \<open>
  C16: a page of the versioned scan is the next \<open>limit\<close> rows of the full versioned scan after the
  cursor, although every memtable contributes no more than \<open>limit\<close> entries and every table is read
  from a block boundary; the page of stamps is the same page without the values.
\<close>

theorem engine_pages:
  assumes "eng_ok X g e ess" "scan_versioned_with_tombstones X e = Inr rows"
  shows "scan_versioned_page X after limit e = Inr (take limit (filter (\<lambda>r. after_key after (fst r)) rows)) \<and>
    scan_stamps_page X after limit e =
      Inr (map (\<lambda>(k, h, v). (k, h, v \<noteq> None)) (take limit (filter (\<lambda>r. after_key after (fst r)) rows)))"
proof -
  let ?A = "\<lambda>xs. filter (\<lambda>r. after_key after (fst r)) xs"
  let ?m = "lww_merge (sources e ess)"
  have rows: "rows = map tomb_of ?m" using scan_versioned_with_tombstones_holds [OF assms(1)] assms(2) by simp
  have key: "fst (tomb_of x) = fst x" for x by (cases x) (simp add: tomb_of_def)
  have "take limit (?A rows) = map tomb_of (take limit (?A ?m))"
    by (simp add: rows filter_map comp_def key take_map cong: option.case_cong)
  moreover have "map (\<lambda>(k, h, v). (k, h, v \<noteq> None)) (map tomb_of xs) = map stamp_of xs" for xs
    by (auto simp: tomb_of_def stamp_of_def version_to_value_def split: version_value.splits)
  ultimately show ?thesis
    using scan_versioned_page_holds [OF assms(1)] scan_stamps_page_holds [OF assms(1)] by (simp only:)
qed

theorem engine_pages_witness:
  "\<exists>t. scan_versioned_page plain_externals (Some [1]) 1 (example_engine t) = Inr [([2], Hlc 6 1, None)] \<and>
     scan_stamps_page plain_externals None 2 (example_engine t) = Inr [([1], Hlc 9 0, True), ([2], Hlc 6 1, False)]"
proof -
  obtain t where t: "sst_holds plain_externals t example_entries" using example_table by blast
  have rows: "scan_versioned_with_tombstones plain_externals (example_engine t) =
      Inr [([1], Hlc 9 0, Some [8]), ([2], Hlc 6 1, None), ([2, 0], Hlc 4 0, Some [])]"
    using scan_versioned_with_tombstones_holds [OF example_engine_ok [OF t]]
    by (simp add: example_merge tomb_of_def version_to_value_def)
  show ?thesis
    using engine_pages [OF example_engine_ok [OF t] rows, of "Some [1]" 1]
      engine_pages [OF example_engine_ok [OF t] rows, of None 2]
    by (intro exI [of _ t]) simp
qed

text \<open>
  C34: the counts of a range panic exactly when the range scan does. Otherwise the count is the number of
  versions of the merge in the range that are not tombstones: it is at least the number of rows a scan
  lists there, and equal to it for a table without time to live, since expired rows are counted.
  The bounded count is that number when the sources hold at most \<open>cap\<close> versions in the
  range, shadowed ones and tombstones included, and otherwise \<open>cap + 1\<close>, which may be more than it.
\<close>

theorem engine_counts:
  assumes "eng_ok X g e ess" "scan X env e = Inr rows" "cap + 1 < usize_bound"
  shows "\<exists>n. n = live_count (window start end (lww_merge (sources e ess))) \<and>
    length (filter (\<lambda>r. in_range start end (fst r)) rows) \<le> n \<and>
    (en_ttl_ms e = None \<longrightarrow> length (filter (\<lambda>r. in_range start end (fst r)) rows) = n) \<and>
    count_range X start end e = (if range_panics start end e then None else Some (Inr n)) \<and>
    count_range_at_most X start end cap e =
      (if range_panics start end e then None
       else Some (Inr (if cap < raw_count start end (sources e ess) then cap + 1 else n)))"
proof -
  have rows: "rows = live_rows env e (lww_merge (sources e ess))" using scan_holds [OF assms(1)] assms(2) by simp
  have "filter (\<lambda>r. in_range start end (fst r)) rows = live_rows env e (window start end (lww_merge (sources e ess)))"
    by (simp only: rows live_rows_filter [of env e "in_range start end"])
  then show ?thesis
    using live_count_rows [where env = env and e = e and es = "window start end (lww_merge (sources e ess))"]
      count_range_holds [OF assms(1)] count_range_at_most_holds [OF assms(1,3)] by metis
qed

theorem engine_counts_witness:
  "\<exists>t. count_range plain_externals None None (example_engine t) = Some (Inr 2) \<and>
     count_range_at_most plain_externals None None 3 (example_engine t) = Some (Inr 4) \<and>
     count_range_at_most plain_externals None None 4 (example_engine t) = Some (Inr 2) \<and>
     count_range plain_externals (Some [2]) (Some [1]) (example_engine t) = None"
proof -
  obtain t where t: "sst_holds plain_externals t example_entries" using example_table by blast
  obtain rows where "scan plain_externals example_wall (example_engine t) = Inr rows"
    using scan_holds [OF example_engine_ok [OF t]] by blast
  note c = engine_counts [OF example_engine_ok [OF t] this]
  have raw: "raw_count None None (sources (example_engine t) [example_entries]) = 4"
    by (simp add: raw_count_def example_sources example_entries_def in_range_def)
  show ?thesis
    using c [of 3 None None] c [of 4 None None] c [of 3 "Some [2]" "Some [1]"]
    by (intro exI [of _ t]) (simp add: raw example_merge live_count_def in_range_def inverted_def example_range_panics)
qed

text \<open>
  C35: where the stamps of a key never increase from newer to older sources, as they do under local
  writes, a point read returns exactly the row that a full scan lists for the key.
\<close>

theorem engine_get_agrees_with_scan:
  assumes "eng_ok X g e ess" "cutoff_ok g env e" "stamps_down (sources e ess)" "scan X env e = Inr rows"
  shows "\<exists>e'. engine_get X env key e = Done (map_of rows key) e'"
proof -
  note m = merge_all_correct(2,3) [OF sources_sorted [OF assms(1)]]
  have "rows = live_rows env e (lww_merge (sources e ess))" using scan_holds [OF assms(1)] assms(4) by simp
  then have "map_of rows key = live_value env e (held (sources e ess) key)"
    using map_of_live_rows [OF m(1)] m(2) stamps_down_held [OF assms(3)] by metis
  then show ?thesis using engine_get_holds [OF assms(1,2)] by metis
qed

theorem engine_get_agrees_with_scan_witness:
  "\<exists>t rows e'. scan plain_externals example_wall (example_engine t) = Inr rows \<and>
     engine_get plain_externals example_wall [2, 0] (example_engine t) = Done (map_of rows [2, 0]) e'"
proof -
  obtain t where t: "sst_holds plain_externals t example_entries" using example_table by blast
  then show ?thesis
    using engine_get_agrees_with_scan [OF example_engine_ok [OF t] example_cutoff example_stamps_down
        scan_holds [OF example_engine_ok [OF t]]] scan_holds [OF example_engine_ok [OF t]] by blast
qed

end
