(* ===== verification/Engine_Files.thy ===== *)
theory Engine_Files
  imports Engine_Read
begin

text \<open>
  The files of an engine. Every live table is on disk under its own name with the entries the open
  table holds, names come from the sequence counter and are never reused, and an operation touches
  no file but new ones and those of the tables it retires.
\<close>

section \<open>Tables on disk\<close>

definition ext_ok :: "externals \<Rightarrow> bool" where
  "ext_ok X \<longleftrightarrow> codec_ok X \<and> aead_ok X \<and> sizing_ok X"

definition env_ok :: "engine_env \<Rightarrow> bool" where
  "env_ok env \<longleftrightarrow> (\<forall>n. rng_ok (fst (ev_wal_rng env n)) (snd (ev_wal_rng env n))) \<and>
     (\<forall>p. rng_ok (fst (ev_sst_rng env p)) (snd (ev_sst_rng env p)))"

text \<open>What is opened from the disk under the name holds the entries.\<close>

definition on_disk_table :: "externals \<Rightarrow> kek option \<Rightarrow> disk \<Rightarrow> string \<Rightarrow> entry list \<Rightarrow> bool" where
  "on_disk_table X kek d p es \<longleftrightarrow> (\<exists>t. open_table X d kek p = Inr t \<and> tb_path t = p \<and> sst_holds X (tb_sst t) es)"

definition same_file :: "disk \<Rightarrow> disk \<Rightarrow> string \<Rightarrow> bool" where
  "same_file d d' p \<longleftrightarrow> dk_files d' p = dk_files d p \<and> dk_files d' (stamps_path p) = dk_files d (stamps_path p)"

lemma same_file_refl [simp]: "same_file d d p"
  by (simp add: same_file_def)

lemma same_file_trans: "same_file a b p \<Longrightarrow> same_file b c p \<Longrightarrow> same_file a c p"
  by (simp add: same_file_def)

lemma same_file_manifest [simp]: "same_file d (d'\<lparr>dk_manifest := m\<rparr>) p = same_file d d' p"
  by (simp add: same_file_def)

lemma on_disk_table_cong: "same_file d d' p \<Longrightarrow> on_disk_table X kek d' p es = on_disk_table X kek d p es"
  by (simp add: on_disk_table_def open_table_def same_file_def cong: option.case_cong)

lemma tables_on_disk_cong:
  assumes "list_all2 (on_disk_table X kek d) ps ess" "\<forall>p \<in> set ps. same_file d d' p"
  shows "list_all2 (on_disk_table X kek d') ps ess"
  by (rule list.rel_mono_strong [OF assms(1)]) (use assms(2) on_disk_table_cong in blast)

lemma sst_holds_unique: "sst_holds X t es \<Longrightarrow> sst_holds X t es' \<Longrightarrow> es = es'"
  by (metis sst_entries_holds sum.inject(2))

lemma on_disk_table_unique: "on_disk_table X kek d p es \<Longrightarrow> on_disk_table X kek d p es' \<Longrightarrow> es = es'"
  by (auto simp: on_disk_table_def dest: sst_holds_unique)

text \<open>A file that opens without a key is plain, and a key makes no difference to it.\<close>

lemma read_footer_unsealed: "read_footer X None f = Inr r \<Longrightarrow> read_footer X kek f = Inr r"
  by (auto simp: read_footer_def Let_def rbind_eq_Inr_iff split: if_splits)

lemma sst_open_plain:
  assumes "sst_open X None f sidecar = Inr t"
  shows "sst_open X kek f sidecar = Inr t"
proof (cases "read_footer X None f")
  case (Inr r)
  then show ?thesis using assms read_footer_unsealed [OF Inr, of kek] by (simp add: sst_open_def)
qed (use assms in \<open>simp add: sst_open_def\<close>)

lemma stamps_path_neq [simp]: "p \<noteq> stamps_path p" "stamps_path p \<noteq> p"
  by (simp_all add: stamps_path_def)

lemma write_table_holds:
  assumes "ext_ok X" "env_ok env" "bt_ok es" "\<forall>x \<in> set es. entry_ok x" "length es < 1073741824"
  shows "(\<exists>t d'. write_table X env p (map Inr es) n codec enc d = Some (Inr t, d') \<and> tb_path t = p \<and>
      sst_holds X (tb_sst t) es \<and> (\<forall>kek. (enc \<noteq> None \<longrightarrow> kek = enc) \<longrightarrow> on_disk_table X kek d' p es) \<and>
      (\<forall>q. q \<noteq> p \<longrightarrow> q \<noteq> stamps_path p \<longrightarrow> dk_files d' q = dk_files d q)) \<or>
    enc \<noteq> None \<and> (\<exists>err. write_table X env p (map Inr es) n codec enc d = Some (Inl (Crypto err), d))"
proof -
  obtain rk rn where r: "ev_sst_rng env p = (rk, rn)" by force
  have rng: "rng_ok rk rn" using assms(2) r by (metis env_ok_def fst_conv snd_conv)
  have ext: "codec_ok X" "aead_ok X" "sizing_ok X" using assms(1) by (simp_all add: ext_ok_def)
  consider (ok) t sidecar t' where "write_stream X rk rn (ev_sidecar env p) (map Inr es) n codec enc = Some (Inr (t, sidecar))"
      "sst_holds X t es" "sst_open X enc (st_file t) sidecar = Inr t'" "sst_holds X t' es"
    | (fail) err where "enc \<noteq> None" "write_stream X rk rn (ev_sidecar env p) (map Inr es) n codec enc = Some (Inl (Crypto err))"
    using write_stream_holds [OF ext assms(3-5) rng, of "ev_sidecar env p" n codec enc]
    by (auto simp: enc_error_def)
  then show ?thesis
  proof cases
    case ok
    let ?d = "d\<lparr>dk_files := (dk_files d)(p := Some (st_file t), stamps_path p := sidecar)\<rparr>"
    have "sst_open X kek (st_file t) sidecar = Inr t'" if k: "enc \<noteq> None \<longrightarrow> kek = enc" for kek
    proof (cases enc)
      case None
      then show ?thesis using sst_open_plain ok(3) by blast
    qed (use k ok(3) in simp)
    then have "on_disk_table X kek ?d p es" if "enc \<noteq> None \<longrightarrow> kek = enc" for kek
      using that ok(4) by (simp add: on_disk_table_def open_table_def)
    moreover have "write_table X env p (map Inr es) n codec enc d = Some (Inr \<lparr>tb_path = p, tb_sst = t\<rparr>, ?d)"
      using ok(1) by (simp add: write_table_def r)
    ultimately show ?thesis using ok(2) by (intro disjI1 exI conjI) auto
  qed (simp add: write_table_def r)
qed

subsection \<open>Names\<close>

lemma table_name_inj [simp]: "table_name a = table_name b \<longleftrightarrow> a = b"
  using table_seq_name by (metis option.inject)

lemma table_name_not_stamps [simp]: "table_name a \<noteq> stamps_path (table_name b)" "stamps_path (table_name b) \<noteq> table_name a"
proof -
  have "last (table_name a) = CHR ''t''" "last (stamps_path (table_name b)) = CHR ''s''"
    by (simp_all add: table_name_def stamps_path_def)
  then show "table_name a \<noteq> stamps_path (table_name b)" "stamps_path (table_name b) \<noteq> table_name a" by auto
qed

lemma stamps_path_inj [simp]: "stamps_path a = stamps_path b \<longleftrightarrow> a = b"
  by (simp add: stamps_path_def)

lemma same_file_written:
  assumes "\<forall>q. q \<noteq> table_name m \<longrightarrow> q \<noteq> stamps_path (table_name m) \<longrightarrow> dk_files d' q = dk_files d q" "n \<noteq> m"
  shows "same_file d d' (table_name n)"
  using assms by (simp add: same_file_def)

lemma remove_files_Cons: "remove_files (p # ps) d = remove_files ps (remove_file p d)"
  by (simp add: remove_files_def)

lemma remove_files_gone: "dk_files d p = None \<or> p \<in> set ps \<Longrightarrow> dk_files (remove_files ps d) p = None"
proof (induction ps arbitrary: d)
  case (Cons q ps)
  then have "dk_files (remove_file q d) p = None \<or> p \<in> set ps" by (auto simp: remove_file_def)
  then show ?case unfolding remove_files_Cons by (rule Cons.IH)
qed (simp add: remove_files_def)

lemma remove_files_same:
  assumes "table_name n \<notin> set ps" "\<forall>p \<in> set ps. \<exists>m. p = table_name m"
  shows "same_file d (remove_files ps d) (table_name n)"
  using assms
proof (induction ps arbitrary: d)
  case (Cons q ps)
  then obtain m where "q = table_name m" "m \<noteq> n" by auto
  then have "same_file d (remove_file q d) (table_name n)" by (simp add: same_file_def remove_file_def)
  then show ?case using Cons same_file_trans unfolding remove_files_Cons by (meson list.set_intros(2))
qed (simp add: remove_files_def)

lemma remove_files_manifest [simp]: "dk_manifest (remove_files ps d) = dk_manifest d"
  by (induction ps arbitrary: d) (simp_all add: remove_files_def remove_file_def)

section \<open>The disk of an engine\<close>

abbreviation live_paths :: "engine \<Rightarrow> string list" where
  "live_paths e \<equiv> map tb_path (sstables_newest_first e)"

definition disk_ok :: "externals \<Rightarrow> engine \<Rightarrow> entry list list \<Rightarrow> bool" where
  "disk_ok X e ess \<longleftrightarrow>
     list_all2 (on_disk_table X (op_kek (en_opts e)) (en_disk e)) (live_paths e) ess \<and> distinct (live_paths e) \<and>
     (\<forall>p \<in> set (live_paths e). \<exists>n < en_next_seq e. p = table_name n)"

lemma live_named: "disk_ok X e ess \<Longrightarrow> p \<in> set (live_paths e) \<Longrightarrow> \<exists>n < en_next_seq e. p = table_name n"
  by (simp only: disk_ok_def)

lemma live_same_file:
  assumes "disk_ok X e ess" "\<And>n. n < en_next_seq e \<Longrightarrow> same_file d d' (table_name n)"
  shows "\<forall>p \<in> set (live_paths e). same_file d d' p"
  using live_named [OF assms(1)] assms(2) by blast

lemma unused_name:
  assumes "disk_ok X e ess" "en_next_seq e \<le> n"
  shows "table_name n \<notin> set (live_paths e)"
proof
  assume "table_name n \<in> set (live_paths e)"
  from live_named [OF assms(1) this] show False using assms(2) by (simp add: leD)
qed

lemma disk_ok_cong:
  assumes "disk_ok X e ess" "en_opts e' = en_opts e" "live_paths e' = live_paths e" "en_next_seq e \<le> en_next_seq e'"
    "\<forall>p \<in> set (live_paths e). same_file (en_disk e) (en_disk e') p"
  shows "disk_ok X e' ess"
proof -
  have "\<forall>p \<in> set (live_paths e). \<exists>n < en_next_seq e'. p = table_name n"
    using assms(1,4) unfolding disk_ok_def by (meson order.strict_trans2)
  moreover have "list_all2 (on_disk_table X (op_kek (en_opts e)) (en_disk e')) (live_paths e) ess"
    by (rule tables_on_disk_cong) (use assms(1,5) disk_ok_def in blast)+
  ultimately show ?thesis using assms(1-3) by (simp add: disk_ok_def)
qed

text \<open>
  From one state to a later one: the counter does not go back, a name that is not live is not made
  live again, and a named file stays as it is or was retired and is gone.
\<close>

definition files_kept :: "engine \<Rightarrow> engine \<Rightarrow> bool" where
  "files_kept e e' \<longleftrightarrow> (\<forall>n < en_next_seq e. same_file (en_disk e) (en_disk e') (table_name n) \<or>
     table_name n \<in> set (live_paths e) \<and> table_name n \<notin> set (live_paths e') \<and> dk_files (en_disk e') (table_name n) = None)"

text \<open>With one level below level 0 at most, the tables are as before below new ones, or all new.\<close>

definition tables_kept :: "engine \<Rightarrow> engine \<Rightarrow> bool" where
  "tables_kept e e' \<longleftrightarrow> length (en_levels e) \<le> 1 \<longrightarrow> length (en_levels e') \<le> 1 \<and>
     ((\<exists>new. map tb_path (en_l0 e') = new @ map tb_path (en_l0 e)) \<and> map tb_path (en_levels e') = map tb_path (en_levels e) \<or>
      (\<forall>n < en_next_seq e. table_name n \<notin> set (live_paths e')))"

definition frame :: "engine \<Rightarrow> engine \<Rightarrow> bool" where
  "frame e e' \<longleftrightarrow> en_next_seq e \<le> en_next_seq e' \<and>
     (\<forall>n < en_next_seq e. table_name n \<notin> set (live_paths e) \<longrightarrow> table_name n \<notin> set (live_paths e')) \<and>
     files_kept e e' \<and> tables_kept e e'"

lemma frameD:
  assumes "frame e e'"
  shows "en_next_seq e \<le> en_next_seq e'" "files_kept e e'" "tables_kept e e'"
    "n < en_next_seq e \<Longrightarrow> table_name n \<notin> set (live_paths e) \<Longrightarrow> table_name n \<notin> set (live_paths e')"
  using assms by (simp_all add: frame_def)

lemma files_kept_trans:
  assumes "frame a b" "frame b c"
  shows "files_kept a c"
  unfolding files_kept_def
proof (intro allI impI)
  fix n assume n: "n < en_next_seq a"
  have m: "n < en_next_seq b" using n frameD(1) [OF assms(1)] by simp
  note live = frameD(4) [OF assms(1) n] frameD(4) [OF assms(2) m]
  show "same_file (en_disk a) (en_disk c) (table_name n) \<or>
    table_name n \<in> set (live_paths a) \<and> table_name n \<notin> set (live_paths c) \<and> dk_files (en_disk c) (table_name n) = None"
    using frameD(2) [OF assms(1), unfolded files_kept_def, rule_format, OF n]
      frameD(2) [OF assms(2), unfolded files_kept_def, rule_format, OF m]
  proof (elim disjE conjE)
    assume "same_file (en_disk b) (en_disk c) (table_name n)" "dk_files (en_disk b) (table_name n) = None"
      "table_name n \<in> set (live_paths a)" "table_name n \<notin> set (live_paths b)"
    then show ?thesis using live(2) by (simp add: same_file_def)
  qed (use live same_file_trans in blast)+
qed

lemma tables_kept_trans:
  assumes "frame a b" "frame b c"
  shows "tables_kept a c"
  unfolding tables_kept_def
proof
  assume "length (en_levels a) \<le> 1"
  then have b: "length (en_levels b) \<le> 1"
    "(\<exists>new. map tb_path (en_l0 b) = new @ map tb_path (en_l0 a)) \<and> map tb_path (en_levels b) = map tb_path (en_levels a) \<or>
      (\<forall>n < en_next_seq a. table_name n \<notin> set (live_paths b))"
    using frameD(3) [OF assms(1)] by (simp_all add: tables_kept_def)
  then have c: "length (en_levels c) \<le> 1"
    "(\<exists>new. map tb_path (en_l0 c) = new @ map tb_path (en_l0 b)) \<and> map tb_path (en_levels c) = map tb_path (en_levels b) \<or>
      (\<forall>n < en_next_seq b. table_name n \<notin> set (live_paths c))"
    using frameD(3) [OF assms(2)] by (simp_all add: tables_kept_def)
  have le: "\<And>n. n < en_next_seq a \<Longrightarrow> n < en_next_seq b" using frameD(1) [OF assms(1)] by simp
  show "length (en_levels c) \<le> 1 \<and>
     ((\<exists>new. map tb_path (en_l0 c) = new @ map tb_path (en_l0 a)) \<and> map tb_path (en_levels c) = map tb_path (en_levels a) \<or>
      (\<forall>n < en_next_seq a. table_name n \<notin> set (live_paths c)))"
    using c(1) b(2) c(2)
  proof (elim disjE conjE exE)
    assume "\<forall>n < en_next_seq a. table_name n \<notin> set (live_paths b)"
    then show ?thesis using c(1) le frameD(4) [OF assms(2)] by blast
  qed (use le in auto)
qed

lemma frame_trans: "frame a b \<Longrightarrow> frame b c \<Longrightarrow> frame a c"
  using files_kept_trans tables_kept_trans unfolding frame_def by (meson order.trans order.strict_trans2)

text \<open>A step that changes no table.\<close>

lemma frame_same_tables:
  assumes "map tb_path (en_l0 e') = map tb_path (en_l0 e)" "map tb_path (en_levels e') = map tb_path (en_levels e)"
    "en_next_seq e \<le> en_next_seq e'" "\<forall>n < en_next_seq e. same_file (en_disk e) (en_disk e') (table_name n)"
  shows "frame e e'"
proof -
  have "length (en_levels e') = length (en_levels e)" using assms(2) map_eq_imp_length_eq by blast
  then show ?thesis
    using assms by (auto simp: frame_def files_kept_def tables_kept_def sstables_newest_first_def simp flip: set_map)
qed

lemma frame_refl [simp]: "frame e e"
  by (simp add: frame_same_tables)

end
