(* ===== verification/Engine_Write.thy ===== *)
theory Engine_Write
  imports Engine_Files
begin

text \<open>
  Writes, flushes and compactions of the engine. The invariant \<open>rep\<close> adds to the one of the reads
  that the stamps of a key never increase from newer to older sources and that everything fits the
  file formats. Under it a write changes the answer for its key only, a flush moves a memtable into
  a table without changing any source, and a compaction changes no answer but that of tombstones
  and expired rows, which no reader sees.
\<close>

section \<open>Outcomes\<close>

text \<open>
  The operation does not panic, and whatever state it returns satisfies the predicate; with \<open>must\<close>
  it also succeeds.
\<close>

fun settles :: "bool \<Rightarrow> 'a outcome \<Rightarrow> (engine \<Rightarrow> bool) \<Rightarrow> bool" where
  "settles must (Done x e) P = P e"
| "settles must (Fail err e) P = (\<not> must \<and> P e)"
| "settles must (Untracked err) P = (\<not> must)"
| "settles must Panic P = False"

lemma settles_obind:
  assumes "settles must m P" "\<And>e. P e \<Longrightarrow> Q e" "\<And>x e. m = Done x e \<Longrightarrow> P e \<Longrightarrow> settles must (f x e) Q"
  shows "settles must (obind m f) Q"
  using assms by (cases m) auto

lemma settles_mono: "settles may m P \<Longrightarrow> (must \<longrightarrow> may) \<Longrightarrow> (\<And>e. P e \<Longrightarrow> Q e) \<Longrightarrow> settles must m Q"
  by (cases m) auto

text \<open>An engine that writes plain text only: no operation of its own can fail.\<close>

definition plain :: "engine \<Rightarrow> bool" where
  "plain e \<longleftrightarrow> \<not> op_at_rest_enabled (en_opts e) \<and> wal_crypto (en_wal e) = None \<and> \<not> ws_ephemeral (wal_sync (en_wal e))"

section \<open>The invariant\<close>

definition small :: "entry list list \<Rightarrow> bool" where
  "small ss \<longleftrightarrow> (\<forall>s \<in> set ss. \<forall>x \<in> set s. entry_ok x) \<and> sum_list (map length ss) < 1073741824"

definition rep :: "externals \<Rightarrow> u64 \<Rightarrow> engine \<Rightarrow> entry list list \<Rightarrow> bool" where
  "rep X g e ess \<longleftrightarrow> eng_ok X g e ess \<and> stamps_down (sources e ess) \<and> small (sources e ess) \<and> disk_ok X e ess"

lemma repD:
  assumes "rep X g e ess"
  shows "eng_ok X g e ess" "stamps_down (sources e ess)" "small (sources e ess)" "disk_ok X e ess"
  using assms by (simp_all add: rep_def)

text \<open>The answers of the second state are those of the first, up to versions no reader sees.\<close>

definition same_view :: "u64 \<Rightarrow> entry list list \<Rightarrow> entry list list \<Rightarrow> bool" where
  "same_view g ss ss' \<longleftrightarrow> (\<forall>k. answer_ok g (held ss k) (held ss' k))"

lemma same_view_refl [simp]: "same_view g ss ss"
  by (simp add: same_view_def)

lemma same_view_trans: "same_view g a b \<Longrightarrow> same_view g b c \<Longrightarrow> same_view g a c"
  unfolding same_view_def using answer_ok_trans by blast

lemma same_view_append:
  assumes "same_view g a b"
  shows "same_view g (p @ a) (p @ b)"
  using assms by (auto simp: same_view_def held_append split: option.splits)

lemma cache_ok_view:
  assumes "cache_ok g e ess" "en_read_cache e' = en_read_cache e"
    "\<And>k. held (mem_lists e) k = None \<Longrightarrow> held (mem_lists e') k = None \<and> answer_ok g (held ess k) (held ess' k)"
  shows "cache_ok g e' ess'"
  unfolding cache_ok_def
proof (intro conjI allI impI)
  show "rc_wf (en_read_cache e')" using assms(1,2) by (simp add: cache_ok_def)
  fix k v assume "rc_lookup (en_read_cache e') k = Some v"
  then have "held (mem_lists e) k = None" "answer_ok g (held ess k) v"
    using assms(1,2) by (auto simp: cache_ok_def)
  then show "held (mem_lists e') k = None" "answer_ok g (held ess' k) v"
    using assms(3) answer_ok_trans answer_ok_sym by blast+
qed

section \<open>One write\<close>

definition newest_for :: "entry list list \<Rightarrow> bytes \<Rightarrow> hlc \<Rightarrow> bool" where
  "newest_for ss k h \<longleftrightarrow> (\<forall>s \<in> set ss. \<forall>x. map_of s k = Some x \<longrightarrow> fst x \<le> h)"

definition mem_write :: "bytes \<Rightarrow> hlc \<Rightarrow> version_value \<Rightarrow> wal \<Rightarrow> engine \<Rightarrow> engine" where
  "mem_write key h v w e =
     e\<lparr>en_wal := w, en_mem := mt_insert key h v (en_mem e), en_write_seq := en_write_seq e + 1,
       en_read_cache := rc_invalidate key (en_read_cache e)\<rparr>"

lemma write_split:
  assumes "mt_inv (en_mem e)" "newest_for (sources e ess) key h"
  obtains m rest m' where "mem_lists e = m # rest" "mem_lists (mem_write key h v w e) = m' # rest"
    "\<forall>k. map_of m' k = (if k = key then Some (h, v) else map_of m k)" "bt_ok m" "bt_ok m'"
proof -
  let ?m = "mt_iter_latest_lazy (en_mem e)" and ?m' = "mt_iter_latest_lazy (mt_insert key h v (en_mem e))"
  let ?rest = "map mt_iter_latest_lazy (map fm_mem (rev (en_frozen e)))"
  have l: "mem_lists e = ?m # ?rest" "mem_lists (mem_write key h v w e) = ?m' # ?rest"
    by (simp_all add: mem_lists_def memtables_def mem_write_def)
  have old: "\<forall>x. map_of ?m key = Some x \<longrightarrow> fst x \<le> h" using assms(2) unfolding newest_for_def l by simp
  have "map_of ?m' k = (if k = key then Some (h, v) else map_of ?m k)" for k
    using assms(1) old by (auto simp: map_of_mt_iter_latest_lazy mt_get_entry_versioned_insert split: option.splits)
  then show thesis using that [OF l] assms(1) by (simp add: mt_iter_latest_lazy_ok)
qed

lemma held_write:
  assumes "mt_inv (en_mem e)" "newest_for (sources e ess) key h"
  shows "held (sources (mem_write key h v w e) ess) k = (if k = key then Some (h, v) else held (sources e ess) k)"
    "held (mem_lists (mem_write key h v w e)) k = (if k = key then Some (h, v) else held (mem_lists e) k)"
  by (rule write_split [OF assms, of v w]; simp)+

lemma stamps_down_write:
  assumes "mt_inv (en_mem e)" "newest_for (sources e ess) key h" "stamps_down (sources e ess)"
  shows "stamps_down (sources (mem_write key h v w e) ess)"
proof -
  obtain m rest m' where m: "mem_lists e = m # rest" "mem_lists (mem_write key h v w e) = m' # rest"
    "\<forall>k. map_of m' k = (if k = key then Some (h, v) else map_of m k)" "bt_ok m" "bt_ok m'"
    by (rule write_split [OF assms(1,2), of v w])
  have old: "\<forall>s' \<in> set (rest @ ess). \<forall>y. map_of s' key = Some y \<longrightarrow> fst y \<le> h"
    using assms(2) by (simp add: newest_for_def m(1))
  have down: "\<forall>s' \<in> set (rest @ ess). not_older m s'" "stamps_down (rest @ ess)"
    using assms(3) by (simp_all add: m(1) stamps_down_Cons)
  have "not_older m' s'" if "s' \<in> set (rest @ ess)" for s'
    unfolding not_older_def
  proof (intro allI impI)
    fix k x y assume a: "map_of m' k = Some x" "map_of s' k = Some y"
    show "fst y \<le> fst x"
    proof (cases "k = key")
      case True
      then have "fst y \<le> h" "fst x = h" using a old m(3) that by (blast, auto)
      then show ?thesis by simp
    next
      case False
      then have "map_of m k = Some x" using a(1) by (simp add: m(3))
      then show ?thesis using down(1) that a(2) not_olderD by blast
    qed
  qed
  then show ?thesis using down(2) by (simp add: m(2) stamps_down_Cons)
qed

lemma sources_write:
  assumes "mt_inv (en_mem e)" "newest_for (sources e ess) key h"
  shows "sum_list (map length (sources (mem_write key h v w e) ess)) \<le> Suc (sum_list (map length (sources e ess)))"
    "set (concat (sources (mem_write key h v w e) ess)) \<subseteq> insert (key, h, v) (set (concat (sources e ess)))"
proof -
  obtain m rest m' where m: "mem_lists e = m # rest" "mem_lists (mem_write key h v w e) = m' # rest"
    "\<forall>k. map_of m' k = (if k = key then Some (h, v) else map_of m k)" "bt_ok m" "bt_ok m'"
    by (rule write_split [OF assms(1,2), of v w])
  have sub: "set m' \<subseteq> insert (key, h, v) (set m)"
  proof
    fix x assume "x \<in> set m'"
    then have "map_of m' (fst x) = Some (snd x)" using m(5) by (simp add: bt_ok_map_of_iff)
    then show "x \<in> insert (key, h, v) (set m)"
      using m(4) by (cases x) (auto simp: m(3) bt_ok_map_of_iff [symmetric] split: if_splits)
  qed
  have "length m' = card (set m')" using bt_ok_distinct [OF m(5)] by (metis distinct_card distinct_map)
  also have "\<dots> \<le> card (set ((key, h, v) # m))" using sub by (intro card_mono) auto
  also have "\<dots> \<le> length ((key, h, v) # m)" by (rule card_length)
  finally show "sum_list (map length (sources (mem_write key h v w e) ess)) \<le> Suc (sum_list (map length (sources e ess)))"
    by (simp add: m(1,2))
  show "set (concat (sources (mem_write key h v w e) ess)) \<subseteq> insert (key, h, v) (set (concat (sources e ess)))"
    using sub by (auto simp: m(1,2))
qed

lemma small_write:
  assumes "mt_inv (en_mem e)" "newest_for (sources e ess) key h" "small (sources e ess)" "entry_ok (key, h, v)"
    "Suc (sum_list (map length (sources e ess))) < 1073741824"
  shows "small (sources (mem_write key h v w e) ess)"
proof -
  have "\<forall>x \<in> insert (key, h, v) (set (concat (sources e ess))). entry_ok x"
    using assms(3,4) by (auto simp: small_def)
  then have "\<forall>x \<in> set (concat (sources (mem_write key h v w e) ess)). entry_ok x"
    using sources_write(2) [OF assms(1,2)] by blast
  then show ?thesis using sources_write(1) [OF assms(1,2), of v w] assms(5) by (auto simp: small_def)
qed

lemma rep_write:
  assumes "rep X g e ess" "newest_for (sources e ess) key h" "entry_ok (key, h, v)"
    "Suc (sum_list (map length (sources e ess))) < 1073741824"
  shows "rep X g (mem_write key h v w e) ess"
proof -
  note r = repD [OF assms(1)] and ok = eng_okD [OF repD(1) [OF assms(1)]]
  have inv: "mt_inv (en_mem e)" using ok(1) by (simp add: memtables_def)
  have wf: "rc_wf (en_read_cache e)" using ok(3) by (simp add: cache_ok_def)
  have rc: "en_read_cache (mem_write key h v w e) = rc_invalidate key (en_read_cache e)" by (simp add: mem_write_def)
  have "cache_ok g (mem_write key h v w e) ess"
    using ok(3) wf held_write(2) [OF inv assms(2)] reads.look_forget [OF wf, of key]
    by (simp add: cache_ok_def rc)
  moreover have "sstables_newest_first (mem_write key h v w e) = sstables_newest_first e"
    by (simp add: sstables_newest_first_def mem_write_def)
  moreover have "\<forall>m \<in> set (memtables (mem_write key h v w e)). mt_inv m"
    using ok(1) by (simp add: memtables_def mem_write_def)
  moreover have "disk_ok X (mem_write key h v w e) ess"
    by (rule disk_ok_cong [OF r(4)]) (simp_all add: mem_write_def sstables_newest_first_def)
  ultimately show ?thesis
    using ok(2) stamps_down_write [OF inv assms(2) r(2)] small_write [OF inv assms(2) r(3) assms(3,4)]
    by (simp add: rep_def eng_ok_def)
qed

section \<open>Flush\<close>

lemma rep_freeze:
  assumes "rep X g e ess" "freeze X env e = Done () e'"
  shows "rep X g e' ess" "mem_lists e' = [] # mem_lists e"
proof -
  obtain w where e': "e' = e\<lparr>en_next_wal_seq := en_next_wal_seq e + 1, en_wal := w, en_mem := mt_new,
      en_frozen := en_frozen e @ [\<lparr>fm_mem = en_mem e, fm_wal_seq = en_next_wal_seq e,
        fm_max_hlc = mt_max_hlc (en_mem e), fm_building = False\<rparr>]\<rparr>"
    using assms(2) by (auto simp: freeze_def Let_def split: prod.splits sum.splits)
  have m: "memtables e' = mt_new # memtables e" by (simp add: e' memtables_def)
  show l: "mem_lists e' = [] # mem_lists e"
    by (simp add: mem_lists_def m mt_iter_latest_lazy_def mt_new_def)
  note r = repD [OF assms(1)] and ok = eng_okD [OF repD(1) [OF assms(1)]]
  have "en_read_cache e' = en_read_cache e" by (simp add: e')
  then have "cache_ok g e' ess" by (rule cache_ok_view [OF ok(3)]) (simp add: l)
  moreover have "sstables_newest_first e' = sstables_newest_first e" by (simp add: e' sstables_newest_first_def)
  moreover have "stamps_down (sources e' ess)" using r(2) by (simp add: l stamps_down_Cons not_older_def)
  moreover have "small (sources e' ess)" using r(3) by (simp add: l small_def)
  moreover have "disk_ok X e' ess" by (rule disk_ok_cong [OF r(4)]) (simp_all add: e' sstables_newest_first_def)
  ultimately show "rep X g e' ess" using ok(1,2) m by (simp add: rep_def eng_ok_def)
qed

lemma mem_lists_oldest:
  assumes "en_frozen e = f # fs"
  shows "mem_lists e = (mt_iter_latest_lazy (en_mem e) # map (mt_iter_latest_lazy \<circ> fm_mem) (rev fs)) @
    [mt_iter_latest_lazy (fm_mem f)]"
  using assms by (simp add: mem_lists_def memtables_def)

lemma install_flush_fields:
  assumes "en_frozen e = f # fs" "fm_wal_seq f = fj_wal_seq job"
  shows "en_mem (install_flush job t e) = en_mem e" "en_frozen (install_flush job t e) = fs"
    "en_read_cache (install_flush job t e) = en_read_cache e" "en_opts (install_flush job t e) = en_opts e"
    "en_l0 (install_flush job t e) = t # en_l0 e" "en_levels (install_flush job t e) = en_levels e"
    "en_next_seq (install_flush job t e) = en_next_seq e" "same_file (en_disk e) (en_disk (install_flush job t e)) p"
  using assms by (simp_all add: install_flush_def persist_manifest_def Let_def extract_Cons_code same_file_def)

lemma rep_install_flush:
  assumes "rep X g e ess" "en_frozen e = f # fs" "fm_wal_seq f = fj_wal_seq job"
    "sst_holds X (tb_sst t) (mt_iter_latest_lazy (fm_mem f))"
    "on_disk_table X (op_kek (en_opts e)) (en_disk e) (tb_path t) (mt_iter_latest_lazy (fm_mem f))"
    "tb_path t = table_name n" "n < en_next_seq e" "table_name n \<notin> set (live_paths e)"
  shows "rep X g (install_flush job t e) (mt_iter_latest_lazy (fm_mem f) # ess)"
    "sources (install_flush job t e) (mt_iter_latest_lazy (fm_mem f) # ess) = sources e ess"
proof -
  let ?e = "install_flush job t e" and ?es = "mt_iter_latest_lazy (fm_mem f)"
  let ?ms = "mt_iter_latest_lazy (en_mem e) # map (mt_iter_latest_lazy \<circ> fm_mem) (rev fs)"
  note fields = install_flush_fields [OF assms(2,3), of t]
  have snf: "sstables_newest_first ?e = t # sstables_newest_first e" by (simp add: sstables_newest_first_def fields)
  have l: "mem_lists e = ?ms @ [?es]" "mem_lists ?e = ?ms"
    using mem_lists_oldest [OF assms(2)] by (simp_all add: mem_lists_def memtables_def fields)
  then show src: "sources ?e (?es # ess) = sources e ess" by simp
  note r = repD [OF assms(1)] and ok = eng_okD [OF repD(1) [OF assms(1)]]
  have "cache_ok g ?e (?es # ess)"
    by (rule cache_ok_view [OF ok(3)]) (use fields(3) l in \<open>auto simp: held_append split: option.splits\<close>)
  moreover have "\<forall>m \<in> set (memtables ?e). mt_inv m" using ok(1) assms(2) by (auto simp: memtables_def fields)
  moreover have "on_disk_table X (op_kek (en_opts e)) (en_disk ?e) = on_disk_table X (op_kek (en_opts e)) (en_disk e)"
    by (intro ext on_disk_table_cong fields(8))
  then have "disk_ok X ?e (?es # ess)"
    using r(4) assms(5-8) by (auto simp: disk_ok_def snf fields)
  ultimately show "rep X g ?e (?es # ess)"
    unfolding rep_def src eng_ok_def snf using r(2,3) ok(2) assms(4) by simp
qed

text \<open>The frozen memtable that a background thread is writing out, if there is one.\<close>

definition in_flight :: "engine \<Rightarrow> frozen_mem option" where
  "in_flight e = (case en_frozen e of f # fs \<Rightarrow> if fm_building f then Some f else None | [] \<Rightarrow> None)"

text \<open>What a flush or a compaction leaves alone.\<close>

definition kept :: "engine \<Rightarrow> engine \<Rightarrow> bool" where
  "kept e e' \<longleftrightarrow> en_opts e' = en_opts e \<and> en_ttl_ms e' = en_ttl_ms e \<and> en_clock e' = en_clock e \<and>
     en_tombstone_retention_ms e' = en_tombstone_retention_ms e \<and> en_maint_watermark e' = en_maint_watermark e \<and>
     (plain e \<longrightarrow> plain e') \<and> (\<forall>f. in_flight e = Some f \<longrightarrow> in_flight e' = Some f)"

lemma kept_refl [simp]: "kept e e"
  by (simp add: kept_def)

lemma kept_trans: "kept a b \<Longrightarrow> kept b c \<Longrightarrow> kept a c"
  by (simp add: kept_def)

lemma rep_cong:
  assumes "rep X g e ess" "memtables e' = memtables e" "sstables_newest_first e' = sstables_newest_first e"
    "en_read_cache e' = en_read_cache e" "en_opts e' = en_opts e" "en_next_seq e \<le> en_next_seq e'"
    "\<forall>p \<in> set (live_paths e). same_file (en_disk e) (en_disk e') p"
  shows "rep X g e' ess"
proof -
  have "mem_lists e' = mem_lists e" using assms(2) by (rule mem_lists_cong)
  moreover have "disk_ok X e' ess" by (rule disk_ok_cong [OF repD(4) [OF assms(1)]]) (simp_all add: assms)
  ultimately show ?thesis using assms by (simp add: rep_def eng_ok_def cache_ok_def)
qed

lemma rep_table:
  assumes "rep X g e ess" "s \<in> set (sources e ess)"
  shows "bt_ok s" "\<forall>x \<in> set s. entry_ok x" "length s < 1073741824"
proof -
  show "bt_ok s" using sources_sorted [OF repD(1) [OF assms(1)]] assms(2) by blast
  have "length s \<le> sum_list (map length (sources e ess))"
    by (rule member_le_sum_list) (simp_all only: set_map imageI assms(2) zero_le)
  then show "\<forall>x \<in> set s. entry_ok x" "length s < 1073741824"
    using repD(3) [OF assms(1)] assms(2) by (auto simp: small_def)
qed

lemma take_flush_job_idle: "take_flush_job e = (Some job, e') \<Longrightarrow> in_flight e = None"
  by (auto simp: take_flush_job_def in_flight_def split: if_splits list.splits)

lemma take_flush_job_none: "take_flush_job e = (None, e') \<Longrightarrow> e' = e"
  by (auto simp: take_flush_job_def next_table_path_def split: if_splits list.splits)

lemma in_flight_cong: "en_frozen e' = en_frozen e \<Longrightarrow> in_flight e' = in_flight e"
  by (simp add: in_flight_def)

lemma take_flush_job_fields:
  assumes "take_flush_job e = (Some job, e')"
  obtains f fs where "en_frozen e = f # fs" "en_frozen e' = f\<lparr>fm_building := True\<rparr> # fs"
    "job = \<lparr>fj_mem = fm_mem f, fj_path = table_name (en_next_seq e), fj_codec = op_compression (en_opts e),
        fj_wal_seq = fm_wal_seq f, fj_kek = op_kek (en_opts e), fj_encrypt_new = op_at_rest_enabled (en_opts e)\<rparr>"
    "e' = e\<lparr>en_next_seq := en_next_seq e + 1, en_frozen := en_frozen e'\<rparr>"
  using assms that by (auto simp: take_flush_job_def next_table_path_def split: if_splits list.splits)

text \<open>The names an engine may use up before the sequence counter would wrap.\<close>

definition work :: "engine \<Rightarrow> nat" where
  "work e = unat (en_next_seq e) + length (en_frozen e)"

lemma next_seq_Suc:
  assumes "Suc (unat (en_next_seq e)) < 2 ^ 64"
  shows "unat (en_next_seq e + 1) = Suc (unat (en_next_seq e))" "en_next_seq e < en_next_seq e + 1"
proof -
  show u: "unat (en_next_seq e + 1) = Suc (unat (en_next_seq e))" using assms by (simp add: unat_word_ariths)
  show "en_next_seq e < en_next_seq e + 1" by (simp add: word_less_nat_alt u)
qed

text \<open>A step that adds a table under the next name.\<close>

lemma frame_new_table:
  assumes "Suc (unat (en_next_seq e)) < 2 ^ 64" "en_next_seq e' = en_next_seq e + 1"
    "map tb_path (en_l0 e') = table_name (en_next_seq e) # map tb_path (en_l0 e)"
    "map tb_path (en_levels e') = map tb_path (en_levels e)"
    "\<forall>n < en_next_seq e. same_file (en_disk e) (en_disk e') (table_name n)"
  shows "frame e e'"
proof -
  have "length (en_levels e') = length (en_levels e)" using assms(4) map_eq_imp_length_eq by blast
  then show ?thesis
    using assms next_seq_Suc(2) [OF assms(1)]
    by (auto simp: frame_def files_kept_def tables_kept_def sstables_newest_first_def simp flip: set_map)
qed

text \<open>A flush job, taken and built.\<close>

lemma take_flush_job_step:
  assumes "rep X g e ess" "take_flush_job e = (Some job, e1)" "work e < 2 ^ 64"
  obtains f fs where "en_frozen e = f # fs" "en_frozen e1 = f\<lparr>fm_building := True\<rparr> # fs"
    "job = \<lparr>fj_mem = fm_mem f, fj_path = table_name (en_next_seq e), fj_codec = op_compression (en_opts e),
        fj_wal_seq = fm_wal_seq f, fj_kek = op_kek (en_opts e), fj_encrypt_new = op_at_rest_enabled (en_opts e)\<rparr>"
    "e1 = e\<lparr>en_next_seq := en_next_seq e + 1, en_frozen := en_frozen e1\<rparr>"
    "rep X g e1 ess" "sources e1 ess = sources e ess" "kept e e1" "Suc (unat (en_next_seq e)) < 2 ^ 64" "work e1 = Suc (work e)"
proof -
  obtain f fs where f: "en_frozen e = f # fs" "en_frozen e1 = f\<lparr>fm_building := True\<rparr> # fs"
    and job: "job = \<lparr>fj_mem = fm_mem f, fj_path = table_name (en_next_seq e), fj_codec = op_compression (en_opts e),
      fj_wal_seq = fm_wal_seq f, fj_kek = op_kek (en_opts e), fj_encrypt_new = op_at_rest_enabled (en_opts e)\<rparr>"
    and e1: "e1 = e\<lparr>en_next_seq := en_next_seq e + 1, en_frozen := en_frozen e1\<rparr>"
    by (rule take_flush_job_fields [OF assms(2)])
  have s: "Suc (unat (en_next_seq e)) < 2 ^ 64" using assms(3) f(1) by (simp add: work_def)
  have m: "memtables e1 = memtables e" using f by (subst e1) (simp add: memtables_def)
  have fields: "sstables_newest_first e1 = sstables_newest_first e" "en_read_cache e1 = en_read_cache e"
    "en_opts e1 = en_opts e" "en_next_seq e1 = en_next_seq e + 1" "en_disk e1 = en_disk e" "en_levels e1 = en_levels e"
    "kept e e1"
    by (subst e1, simp add: sstables_newest_first_def kept_def plain_def take_flush_job_idle [OF assms(2)])+
  have "rep X g e1 ess" by (rule rep_cong [OF assms(1) m]) (use fields next_seq_Suc(2) [OF s] in simp_all)
  moreover have "sources e1 ess = sources e ess" using mem_lists_cong [OF m] by simp
  moreover have "work e1 = Suc (work e)" using f by (simp add: work_def fields next_seq_Suc [OF s])
  ultimately show thesis using that [OF f job e1] fields(7) s by blast
qed

lemma build_flush_holds:
  assumes "ext_ok X" "env_ok env" "bt_ok es" "\<forall>x \<in> set es. entry_ok x" "length es < 1073741824"
    "es = mt_iter_latest_lazy (fj_mem job)"
  shows "(\<exists>t d'. build_flush X env job d = Some (Inr t, d') \<and> tb_path t = fj_path job \<and> sst_holds X (tb_sst t) es \<and>
      on_disk_table X (fj_kek job) d' (fj_path job) es \<and>
      (\<forall>q. q \<noteq> fj_path job \<longrightarrow> q \<noteq> stamps_path (fj_path job) \<longrightarrow> dk_files d' q = dk_files d q)) \<or>
    fj_encrypt_new job \<and> (\<exists>err. build_flush X env job d = Some (Inl err, d))"
proof -
  let ?enc = "if fj_encrypt_new job then fj_kek job else None"
  have b: "build_flush X env job d =
      write_table X env (fj_path job) (map Inr es) (mt_version_count (fj_mem job)) (fj_codec job) ?enc d"
    by (simp add: build_flush_def assms(6))
  have "?enc \<noteq> None \<longrightarrow> fj_kek job = ?enc" "?enc \<noteq> None \<longrightarrow> fj_encrypt_new job" by simp_all
  then show ?thesis
    using write_table_holds [OF assms(1-5), of "fj_path job" "mt_version_count (fj_mem job)" "fj_codec job" ?enc d]
    unfolding b by blast
qed

text \<open>One round of the flush loop: the oldest frozen memtable becomes the newest table of level 0.\<close>

lemma install_flush_kept:
  "kept (e\<lparr>en_frozen := []\<rparr>) ((install_flush job t e)\<lparr>en_frozen := []\<rparr>)"
  by (simp add: kept_def plain_def install_flush_def persist_manifest_def Let_def drop_segments_through_def
      in_flight_def split: option.splits)

lemma flush_round:
  assumes "ext_ok X" "env_ok env" "rep X g e ess" "take_flush_job e = (Some job, e1)" "work e < 2 ^ 64"
  shows "(\<exists>t d ess'. build_flush X env job (en_disk e1) = Some (Inr t, d) \<and>
      (let e2 = install_flush job t (e1\<lparr>en_disk := d\<rparr>)
       in rep X g e2 ess' \<and> sources e2 ess' = sources e ess \<and> kept e e2 \<and> frame e e2 \<and> work e2 = work e \<and>
          length (en_frozen e2) < length (en_frozen e))) \<or>
    \<not> plain e \<and> (\<exists>err. build_flush X env job (en_disk e1) = Some (Inl err, en_disk e1)) \<and>
      rep X g e1 ess \<and> sources e1 ess = sources e ess \<and> kept e e1 \<and> frame e e1 \<and> work e1 = Suc (work e)"
proof -
  obtain f fs where f: "en_frozen e = f # fs" "en_frozen e1 = f\<lparr>fm_building := True\<rparr> # fs"
    and job: "job = \<lparr>fj_mem = fm_mem f, fj_path = table_name (en_next_seq e), fj_codec = op_compression (en_opts e),
      fj_wal_seq = fm_wal_seq f, fj_kek = op_kek (en_opts e), fj_encrypt_new = op_at_rest_enabled (en_opts e)\<rparr>"
    and e1: "e1 = e\<lparr>en_next_seq := en_next_seq e + 1, en_frozen := en_frozen e1\<rparr>"
    and r1: "rep X g e1 ess" "sources e1 ess = sources e ess" "kept e e1"
    and s: "Suc (unat (en_next_seq e)) < 2 ^ 64" "work e1 = Suc (work e)"
    by (rule take_flush_job_step [OF assms(3,4,5)])
  let ?es = "mt_iter_latest_lazy (fm_mem f)"
  have "?es \<in> set (sources e ess)" using mem_lists_oldest [OF f(1)] by simp
  note es = rep_table [OF assms(3) this]
  have fields: "en_next_seq e1 = en_next_seq e + 1" "en_disk e1 = en_disk e" "en_levels e1 = en_levels e" "en_l0 e1 = en_l0 e"
    "en_opts e1 = en_opts e"
    by (subst e1, simp)+
  have jm: "?es = mt_iter_latest_lazy (fj_mem job)" by (simp add: job)
  from build_flush_holds [OF assms(1,2) es jm, of "en_disk e1"] show ?thesis
  proof (elim disjE exE conjE)
    fix t d assume b: "build_flush X env job (en_disk e1) = Some (Inr t, d)" "tb_path t = fj_path job" "sst_holds X (tb_sst t) ?es"
      "on_disk_table X (fj_kek job) d (fj_path job) ?es"
      "\<forall>q. q \<noteq> fj_path job \<longrightarrow> q \<noteq> stamps_path (fj_path job) \<longrightarrow> dk_files d q = dk_files (en_disk e1) q"
    let ?e1 = "e1\<lparr>en_disk := d\<rparr>"
    let ?e2 = "install_flush job t ?e1"
    have p: "fj_path job = table_name (en_next_seq e)" "fj_kek job = op_kek (en_opts e)" "fm_wal_seq f = fj_wal_seq job"
      by (simp_all add: job)
    have "\<forall>q. q \<noteq> table_name (en_next_seq e) \<longrightarrow> q \<noteq> stamps_path (table_name (en_next_seq e)) \<longrightarrow> dk_files d q = dk_files (en_disk e) q"
      using b(5) unfolding p fields(2) .
    note same = same_file_written [OF this]
    have "\<forall>p \<in> set (live_paths e). same_file (en_disk e) d p"
      by (rule live_same_file [OF repD(4) [OF assms(3)] same]) simp
    moreover have "sstables_newest_first ?e1 = sstables_newest_first e" by (simp add: sstables_newest_first_def fields)
    ultimately have fresh: "table_name (en_next_seq e) \<notin> set (live_paths e)" "live_paths ?e1 = live_paths e"
      "\<forall>p \<in> set (live_paths e). same_file (en_disk e) d p"
      using unused_name [OF repD(4) [OF assms(3)]] by simp_all
    have r: "rep X g ?e1 ess"
      by (rule rep_cong [OF r1(1)]) (use fresh(3) fields in \<open>auto simp: memtables_def sstables_newest_first_def\<close>)
    note i = rep_install_flush [OF r, of "f\<lparr>fm_building := True\<rparr>" fs job t "en_next_seq e"]
    have ri: "rep X g ?e2 (?es # ess)" "sources ?e2 (?es # ess) = sources ?e1 ess"
      using i f(2) b(3,4) fresh p next_seq_Suc(2) [OF s(1)] by (simp_all add: fields b(2))
    have g: "en_frozen ?e1 = f\<lparr>fm_building := True\<rparr> # fs" "fm_wal_seq (f\<lparr>fm_building := True\<rparr>) = fj_wal_seq job"
      using f(2) p(3) by simp_all
    note ff = install_flush_fields [OF g, of t]
    have "kept e ?e2"
      using r1(3) install_flush_kept [of ?e1 job t] take_flush_job_idle [OF assms(4)]
      by (simp add: kept_def plain_def)
    moreover have "frame e ?e2"
    proof (rule frame_new_table [OF s(1)])
      have "same_file (en_disk e) (en_disk ?e2) (table_name n)" if n: "n < en_next_seq e" for n
      proof (rule same_file_trans)
        show "same_file (en_disk e) d (table_name n)" by (rule same) (use n in simp)
        show "same_file d (en_disk ?e2) (table_name n)" using ff(8) by simp
      qed
      then show "\<forall>n < en_next_seq e. same_file (en_disk e) (en_disk ?e2) (table_name n)" by blast
    qed (simp_all add: ff fields b(2) p)
    moreover have "work ?e2 = work e" using f next_seq_Suc(1) [OF s(1)] by (simp add: work_def ff fields)
    moreover have "sources ?e1 ess = sources e ess" using r1(2) by (simp add: mem_lists_def memtables_def)
    ultimately show ?thesis using b(1) ri f(1) ff(2) by (intro disjI1 exI [of _ t] exI [of _ d] exI [of _ "?es # ess"]) (simp add: Let_def)
  next
    fix err assume "fj_encrypt_new job" "build_flush X env job (en_disk e1) = Some (Inl err, en_disk e1)"
    moreover have "frame e e1" by (rule frame_same_tables) (use fields next_seq_Suc(2) [OF s(1)] in simp_all)
    ultimately show ?thesis using r1 s(2) by (simp add: job plain_def)
  qed
qed

lemma rep_flush_loop:
  assumes "ext_ok X" "env_ok env" "rep X g e ess" "work e + 1 < 2 ^ 64"
  shows "settles (plain e) (flush_loop X env e) (\<lambda>e'. kept e e' \<and> frame e e' \<and> work e' \<le> work e + (if plain e then 0 else 1) \<and>
    (\<exists>ess'. rep X g e' ess' \<and> sources e' ess' = sources e ess))"
  using assms(3,4)
proof (induction "length (en_frozen e)" arbitrary: e ess rule: less_induct)
  case less
  obtain j e1 where j: "take_flush_job e = (j, e1)" by force
  show ?case
  proof (cases j)
    case None
    then have "e1 = e" using j take_flush_job_none by blast
    then show ?thesis using less.prems j None by (subst flush_loop.simps) auto
  next
    case (Some job)
    have w: "work e < 2 ^ 64" using less.prems(2) by simp
    from flush_round [OF assms(1,2) less.prems(1) j [unfolded Some] w] show ?thesis
    proof (elim disjE exE conjE)
      fix t d ess' assume b: "build_flush X env job (en_disk e1) = Some (Inr t, d)"
        and l: "let e2 = install_flush job t (e1\<lparr>en_disk := d\<rparr>)
          in rep X g e2 ess' \<and> sources e2 ess' = sources e ess \<and> kept e e2 \<and> frame e e2 \<and> work e2 = work e \<and>
            length (en_frozen e2) < length (en_frozen e)"
      define e2 where "e2 = install_flush job t (e1\<lparr>en_disk := d\<rparr>)"
      have e2: "rep X g e2 ess'" "sources e2 ess' = sources e ess" "kept e e2" "frame e e2" "work e2 = work e"
        "length (en_frozen e2) < length (en_frozen e)"
        using l by (simp_all add: e2_def Let_def)
      have step: "flush_loop X env e = flush_loop X env e2" by (subst flush_loop.simps) (simp add: j Some b e2_def)
      have "plain e \<longrightarrow> plain e2" using e2(3) by (simp add: kept_def)
      moreover note less.hyps [OF e2(6,1)] e2(5) less.prems(2)
      ultimately show ?thesis unfolding step
        using kept_trans [OF e2(3)] frame_trans [OF e2(4)] by (auto simp: e2(2) elim!: settles_mono split: if_splits)
    next
      fix err assume "build_flush X env job (en_disk e1) = Some (Inl err, en_disk e1)" "\<not> plain e"
        "rep X g e1 ess" "sources e1 ess = sources e ess" "kept e e1" "frame e e1" "work e1 = Suc (work e)"
      moreover from this(1) have "flush_loop X env e = Fail err e1" by (subst flush_loop.simps) (simp add: j Some)
      ultimately show ?thesis by auto
    qed
  qed
qed

end
