(* ===== verification/Engine_Compact.thy ===== *)
theory Engine_Compact
  imports Engine_Write
begin

text \<open>
  Compaction, on lists and on the engine. A compacted run is the last-writer-wins merge of
  consecutive tables without the versions that may be reclaimed; putting it in their place changes
  no answer but that of versions no reader sees. The inline compaction and its cascade are sequences
  of such replacements.
\<close>

section \<open>The compacted run\<close>

definition survives :: "bool \<Rightarrow> u64 option \<Rightarrow> u64 \<Rightarrow> entry \<Rightarrow> bool" where
  "survives drop_tombstones expire keep_after x \<longleftrightarrow>
     \<not> (snd (snd x) = Delete \<and> drop_tombstones \<and> physical (fst (snd x)) < keep_after) \<and>
     \<not> (case expire of Some c \<Rightarrow> physical (fst (snd x)) < c | None \<Rightarrow> False)"

definition compacted :: "bool \<Rightarrow> u64 option \<Rightarrow> u64 \<Rightarrow> entry list list \<Rightarrow> entry list" where
  "compacted drop_tombstones expire keep_after ins = filter (survives drop_tombstones expire keep_after) (lww_merge ins)"

lemma merge_item_survives:
  "List.map_filter (merge_item dt ex ka) (map Inr es) = map Inr (filter (survives dt ex ka) es)"
proof (induction es)
  case (Cons x es)
  then show ?case by (cases x) (auto simp: List.map_filter_simps merge_item_def survives_def split: option.splits)
qed (simp add: List.map_filter_simps)

lemma map_of_filter_distinct:
  assumes "bt_ok es"
  shows "map_of (filter P es) k = (case map_of es k of Some v \<Rightarrow> if P (k, v) then Some v else None | None \<Rightarrow> None)"
  using assms
proof (induction es)
  case (Cons x es)
  have "fst x \<notin> fst ` set es" using bt_ok_Cons_less [OF Cons.prems] by force
  then have "map_of es (fst x) = None" by (simp add: map_of_eq_None_iff)
  then show ?case using Cons by (cases x) (auto split: option.splits)
qed simp

lemma held_SomeD: "held ss k = Some x \<Longrightarrow> \<exists>s \<in> set ss. map_of s k = Some x"
  by (induction ss) (auto split: option.splits)

text \<open>A compacted run has versions of its inputs only.\<close>

lemma compacted_version:
  assumes "\<forall>s \<in> set ins. bt_ok s" "map_of (compacted dt ex ka ins) k = Some x"
  shows "\<exists>s \<in> set ins. map_of s k = Some x"
proof -
  have "map_of (lww_merge ins) k = Some x"
    using assms(2) map_of_filter_distinct [OF merge_all_correct(2) [OF assms(1)]]
    by (auto simp: compacted_def split: option.splits if_splits)
  then have "lww (map (\<lambda>s. map_of s k) ins) = Some x" using merge_all_correct(3) [OF assms(1)] by metis
  from lww_SomeD [OF this] show ?thesis by auto
qed

lemma stamps_down_compacted:
  assumes "\<forall>s \<in> set ins. bt_ok s" "stamps_down (pre @ ins @ rest)"
  shows "stamps_down (pre @ compacted dt ex ka ins # rest)"
proof -
  note v = compacted_version [OF assms(1)]
  have d: "stamps_down pre" "stamps_down rest" "\<forall>a \<in> set pre. \<forall>b \<in> set (ins @ rest). not_older a b"
    "\<forall>a \<in> set ins. \<forall>b \<in> set rest. not_older a b"
    using assms(2) by (auto simp: stamps_down_append)
  have "not_older a (compacted dt ex ka ins)" if "a \<in> set pre" for a
    unfolding not_older_def using v d(3) that not_olderD by (metis Un_iff set_append)
  moreover have "not_older (compacted dt ex ka ins) b" if "b \<in> set rest" for b
    unfolding not_older_def using v d(4) that not_olderD by metis
  ultimately show ?thesis using d by (simp add: stamps_down_append stamps_down_Cons)
qed

lemma physical_mono: "h \<le> h' \<Longrightarrow> physical h \<le> physical h'"
  by (auto simp: less_eq_hlc_def)

lemma same_view_compacted:
  assumes sorted: "\<forall>s \<in> set ins. bt_ok s" and down: "stamps_down (ins @ rest)"
    and dt: "dt \<Longrightarrow> rest = []" and ex: "\<And>c. ex = Some c \<Longrightarrow> c \<le> g"
  shows "same_view g (ins @ rest) (compacted dt ex ka ins # rest)"
  unfolding same_view_def
proof
  fix k
  have held: "held ins k = map_of (lww_merge ins) k"
    using stamps_down_held [of ins k] down merge_all_correct(3) [OF sorted] by (simp add: stamps_down_append)
  have c: "map_of (compacted dt ex ka ins) k =
      (case held ins k of Some v \<Rightarrow> if survives dt ex ka (k, v) then Some v else None | None \<Rightarrow> None)"
    unfolding held compacted_def by (rule map_of_filter_distinct [OF merge_all_correct(2) [OF sorted]])
  show "answer_ok g (held (ins @ rest) k) (held (compacted dt ex ka ins # rest) k)"
  proof (cases "held ins k")
    case None
    then show ?thesis using c by (simp add: held_append)
  next
    case (Some x)
    show ?thesis
    proof (cases "survives dt ex ka (k, x)")
      case True
      then show ?thesis using c Some by (simp add: held_append)
    next
      case False
      have new: "held (compacted dt ex ka ins # rest) k = held rest k" using False c Some by simp
      obtain s where s: "s \<in> set ins" "map_of s k = Some x"
        using lww_SomeD [of "map (\<lambda>s. map_of s k) ins" x] Some stamps_down_held [of ins k] down by (auto simp: stamps_down_append)
      from False consider "snd x = Delete" "dt" | c where "ex = Some c" "physical (fst x) < c"
        by (auto simp: survives_def split: option.splits)
      then have "invisible g (Some x) \<and> invisible g (held rest k)"
      proof cases
        case 1
        then show ?thesis using dt by (simp add: invisible_def reclaimable_def)
      next
        case (2 c)
        have "reclaimable g y" if y: "held rest k = Some y" for y
        proof -
          obtain r where "r \<in> set rest" "map_of r k = Some y" using held_SomeD [OF y] by blast
          moreover have "\<forall>a \<in> set ins. \<forall>b \<in> set rest. not_older a b" using down by (simp add: stamps_down_append)
          ultimately have "fst y \<le> fst x" using s not_olderD by blast
          then have "physical (fst y) < g" using physical_mono [OF \<open>fst y \<le> fst x\<close>] 2(2) ex [OF 2(1)] by order
          then show ?thesis by (simp add: reclaimable_def)
        qed
        moreover have "physical (fst x) < g" using 2 ex by (auto intro: order.strict_trans2)
        ultimately show ?thesis by (auto simp: invisible_def reclaimable_def split: option.splits)
      qed
      then show ?thesis using new Some by (simp add: answer_ok_def held_append)
    qed
  qed
qed

text \<open>The second list of sources has entries of the first only, and not more of them.\<close>

definition shrinks :: "entry list list \<Rightarrow> entry list list \<Rightarrow> bool" where
  "shrinks ss ss' \<longleftrightarrow> sum_list (map length ss') \<le> sum_list (map length ss) \<and> set (concat ss') \<subseteq> set (concat ss)"

lemma shrinks_refl [simp]: "shrinks ss ss"
  by (simp add: shrinks_def)

lemma shrinks_trans: "shrinks a b \<Longrightarrow> shrinks b c \<Longrightarrow> shrinks a c"
  unfolding shrinks_def using le_trans subset_trans by blast

lemma small_shrinks: "small ss \<Longrightarrow> shrinks ss ss' \<Longrightarrow> small ss'"
proof -
  assume a: "small ss" "shrinks ss ss'"
  have "\<forall>x \<in> set (concat ss). entry_ok x" using a(1) by (auto simp: small_def)
  then have "\<forall>x \<in> set (concat ss'). entry_ok x" using a(2) by (auto simp: shrinks_def)
  then show ?thesis using a by (auto simp: small_def shrinks_def)
qed

lemma shrinks_compacted:
  assumes "\<forall>s \<in> set ins. bt_ok s"
  shows "shrinks (pre @ ins @ rest) (pre @ compacted dt ex ka ins # rest)"
proof -
  have "length (compacted dt ex ka ins) \<le> sum_list (map length ins)"
    using lww_merge_length [OF assms(1)] le_trans length_filter_le unfolding compacted_def by blast
  moreover have "x \<in> set (concat ins)" if "x \<in> set (compacted dt ex ka ins)" for x
  proof -
    have "bt_ok (compacted dt ex ka ins)" using merge_all_correct(2) [OF assms(1)] by (simp add: compacted_def)
    then have "map_of (compacted dt ex ka ins) (fst x) = Some (snd x)" using that by (simp add: bt_ok_map_of_iff)
    then obtain s where "s \<in> set ins" "map_of s (fst x) = Some (snd x)" using compacted_version [OF assms(1)] by blast
    then have "x \<in> set s" by (auto dest: map_of_SomeD)
    then show ?thesis using \<open>s \<in> set ins\<close> by auto
  qed
  ultimately show ?thesis by (auto simp: shrinks_def)
qed

lemma small_compacted:
  "\<forall>s \<in> set ins. bt_ok s \<Longrightarrow> small (pre @ ins @ rest) \<Longrightarrow> small (pre @ compacted dt ex ka ins # rest)"
  using small_shrinks shrinks_compacted by blast

lemma merge_write_holds:
  assumes "ext_ok X" "env_ok env" "list_all2 (\<lambda>t. sst_holds X (tb_sst t)) ts ins" "small ins"
  shows "(\<exists>t d'. merge_write X env enc p ts dt codec ex ka d = Some (Inr t, d') \<and> tb_path t = p \<and>
      sst_holds X (tb_sst t) (compacted dt ex ka ins) \<and>
      (\<forall>kek. (enc \<noteq> None \<longrightarrow> kek = enc) \<longrightarrow> on_disk_table X kek d' p (compacted dt ex ka ins)) \<and> (\<forall>q. q \<noteq> p \<longrightarrow> q \<noteq> stamps_path p \<longrightarrow> dk_files d' q = dk_files d q)) \<or>
    enc \<noteq> None \<and> (\<exists>err. merge_write X env enc p ts dt codec ex ka d = Some (Inl (Crypto err), d))"
proof -
  have sorted: "\<forall>s \<in> set ins. bt_ok s" using tables_sorted [OF assms(3)] .
  have "map (\<lambda>t. sst_iter X (tb_sst t)) ts = map (map Inr) (map id ins)"
    using assms(3) by (rule table_sources) (simp add: sst_iter_holds)
  then have iters: "map (\<lambda>t. sst_iter X (tb_sst t)) ts = map (map Inr) ins" by simp
  have "small [compacted dt ex ka ins]" using small_compacted [OF sorted, of "[]" "[]"] assms(4) by simp
  then have ok: "\<forall>x \<in> set (compacted dt ex ka ins). entry_ok x" "length (compacted dt ex ka ins) < 1073741824"
    by (simp_all add: small_def)
  have "bt_ok (compacted dt ex ka ins)" using merge_all_correct(2) [OF sorted] by (simp add: compacted_def)
  from write_table_holds [OF assms(1,2) this ok, of p "unat (sum_list (map (\<lambda>t. sst_len (tb_sst t)) ts))" codec enc d]
  show ?thesis
    by (simp only: merge_write_def Let_def iters merge_all_correct(1) [OF sorted] merge_item_survives compacted_def)
qed

text \<open>Replacing consecutive tables by their compacted run.\<close>

lemma rep_replace:
  assumes "rep X g e (pre @ ins @ rest)" "dt \<Longrightarrow> rest = []" "\<And>c. ex = Some c \<Longrightarrow> c \<le> g"
    and e': "memtables e' = memtables e" "en_read_cache e' = en_read_cache e"
    and t: "sstables_newest_first e' = tpre @ t # trest" "list_all2 (\<lambda>t. sst_holds X (tb_sst t)) tpre pre"
    "sst_holds X (tb_sst t) (compacted dt ex ka ins)" "list_all2 (\<lambda>t. sst_holds X (tb_sst t)) trest rest"
    and d: "disk_ok X e' (pre @ compacted dt ex ka ins # rest)"
  shows "rep X g e' (pre @ compacted dt ex ka ins # rest)"
    "same_view g (sources e (pre @ ins @ rest)) (sources e' (pre @ compacted dt ex ka ins # rest))"
    "shrinks (sources e (pre @ ins @ rest)) (sources e' (pre @ compacted dt ex ka ins # rest))"
proof -
  note r = repD [OF assms(1)] and ok = eng_okD [OF repD(1) [OF assms(1)]]
  have l: "mem_lists e' = mem_lists e" using e'(1) by (rule mem_lists_cong)
  have sorted: "\<forall>s \<in> set ins. bt_ok s" using tables_sorted [OF ok(2)] by simp
  show "shrinks (sources e (pre @ ins @ rest)) (sources e' (pre @ compacted dt ex ka ins # rest))"
    using shrinks_compacted [OF sorted, of "mem_lists e @ pre" rest] by (simp add: l)
  have "stamps_down (ins @ rest)" using r(2) by (simp add: stamps_down_append)
  then have sv: "same_view g (ins @ rest) (compacted dt ex ka ins # rest)"
    by (rule same_view_compacted [OF sorted _ assms(2,3)])
  then show "same_view g (sources e (pre @ ins @ rest)) (sources e' (pre @ compacted dt ex ka ins # rest))"
    using same_view_append [OF sv, of "mem_lists e @ pre"] by (simp add: l)
  have "same_view g (pre @ ins @ rest) (pre @ compacted dt ex ka ins # rest)" by (rule same_view_append [OF sv])
  then have "cache_ok g e' (pre @ compacted dt ex ka ins # rest)"
    by (intro cache_ok_view [OF ok(3) e'(2)]) (simp add: l same_view_def)
  moreover have "stamps_down (sources e' (pre @ compacted dt ex ka ins # rest))"
    using stamps_down_compacted [OF sorted, of "mem_lists e @ pre" rest] r(2) by (simp add: l)
  moreover have "small (sources e' (pre @ compacted dt ex ka ins # rest))"
    using small_compacted [OF sorted, of "mem_lists e @ pre" rest] r(3) by (simp add: l)
  ultimately show "rep X g e' (pre @ compacted dt ex ka ins # rest)"
    using ok(1) t d by (simp add: rep_def eng_ok_def e'(1) list_all2_appendI)
qed

lemma disk_ok_replace:
  assumes "disk_ok X e (pre @ ins @ rest)" "live_paths e = ppre @ pold @ prest" "length ppre = length pre" "length pold = length ins"
    and e': "live_paths e' = ppre @ table_name n # prest" "en_opts e' = en_opts e" "en_next_seq e \<le> en_next_seq e'"
    and n: "n < en_next_seq e'" "table_name n \<notin> set (live_paths e)"
    and d: "on_disk_table X (op_kek (en_opts e)) (en_disk e') (table_name n) es"
      "\<forall>p \<in> set (ppre @ prest). same_file (en_disk e) (en_disk e') p"
  shows "disk_ok X e' (pre @ es # rest)"
proof -
  let ?R = "on_disk_table X (op_kek (en_opts e)) (en_disk e)" and ?R' = "on_disk_table X (op_kek (en_opts e)) (en_disk e')"
  have l: "list_all2 ?R ppre pre" "list_all2 ?R prest rest"
    using assms(1-4) by (auto simp: disk_ok_def list_all2_append)
  have "list_all2 ?R' ppre pre" "list_all2 ?R' prest rest"
    using tables_on_disk_cong [OF l(1)] tables_on_disk_cong [OF l(2)] d(2) by simp_all
  then have "list_all2 ?R' (live_paths e') (pre @ es # rest)" using d(1) by (simp add: e'(1) list_all2_appendI)
  moreover have "distinct (live_paths e')"
    using assms(1) n(2) by (auto simp: disk_ok_def assms(2) e'(1))
  moreover have "\<exists>m < en_next_seq e'. p = table_name m" if p: "p \<in> set (live_paths e')" for p
  proof (cases "p = table_name n")
    case False
    then have "p \<in> set (live_paths e)" using p by (auto simp: assms(2) e'(1))
    from live_named [OF assms(1) this] show ?thesis using e'(3) by auto
  qed (use n(1) in blast)
  ultimately show ?thesis by (simp add: disk_ok_def e'(2))
qed

text \<open>The cutoffs in use never pass \<open>g\<close>.\<close>

definition cutoff_le :: "engine_env \<Rightarrow> engine \<Rightarrow> u64 \<Rightarrow> bool" where
  "cutoff_le env e g \<longleftrightarrow> (\<forall>c. expire_cutoff env e = Some c \<longrightarrow> c \<le> g)"

lemma cutoff_le_kept: "kept e e' \<Longrightarrow> cutoff_le env e' g = cutoff_le env e g"
  by (simp add: cutoff_le_def kept_def expire_cutoff_def)

text \<open>The second state answers as the first, with at most \<open>c\<close> more file names used up.\<close>

definition refines :: "externals \<Rightarrow> u64 \<Rightarrow> nat \<Rightarrow> engine \<Rightarrow> entry list list \<Rightarrow> engine \<Rightarrow> bool" where
  "refines X g c e ess e' \<longleftrightarrow> kept e e' \<and> frame e e' \<and> work e' \<le> work e + c \<and> (\<exists>ess'. rep X g e' ess' \<and>
     same_view g (sources e ess) (sources e' ess') \<and> shrinks (sources e ess) (sources e' ess'))"

lemma refines_refl: "rep X g e ess \<Longrightarrow> refines X g c e ess e"
  by (auto simp: refines_def)

lemma refinesI:
  assumes "kept e e'" "frame e e'" "work e' \<le> work e + c" "rep X g e' ess'"
    "same_view g (sources e ess) (sources e' ess')" "shrinks (sources e ess) (sources e' ess')"
  shows "refines X g c e ess e'"
  using assms unfolding refines_def by blast

lemma refinesE:
  assumes "refines X g c e ess e'"
  obtains ess' where "kept e e'" "frame e e'" "work e' \<le> work e + c" "rep X g e' ess'"
    "same_view g (sources e ess) (sources e' ess')" "shrinks (sources e ess) (sources e' ess')"
  using assms unfolding refines_def by blast

lemma refines_trans:
  assumes "kept a b" "frame a b" "work b \<le> work a + c" "same_view g (sources a sa) (sources b sb)"
    "shrinks (sources a sa) (sources b sb)" "refines X g c' b sb e"
  shows "refines X g (c + c') a sa e"
proof -
  obtain se where e: "kept b e" "frame b e" "work e \<le> work b + c'" "rep X g e se"
    "same_view g (sources b sb) (sources e se)" "shrinks (sources b sb) (sources e se)"
    using assms(6) by (rule refinesE)
  have "work e \<le> work a + (c + c')" using e(3) assms(3) by simp
  then show ?thesis
    using e(4) kept_trans [OF assms(1) e(1)] frame_trans [OF assms(2) e(2)] same_view_trans [OF assms(4) e(5)]
      shrinks_trans [OF assms(5) e(6)] by (intro refinesI)
qed

text \<open>A file name that is used up by a build that fails.\<close>

lemma refines_burn:
  assumes "rep X g e ess" "Suc (unat (en_next_seq e)) < 2 ^ 64" "0 < c"
  shows "refines X g c e ess (e\<lparr>en_next_seq := en_next_seq e + 1\<rparr>)"
proof (rule refinesI [where ess' = ess])
  let ?e = "e\<lparr>en_next_seq := en_next_seq e + 1\<rparr>"
  show "rep X g ?e ess"
    by (rule rep_cong [OF assms(1)]) (use next_seq_Suc(2) [OF assms(2)] in \<open>simp_all add: memtables_def sstables_newest_first_def\<close>)
  show "frame e ?e" by (rule frame_same_tables) (use next_seq_Suc(2) [OF assms(2)] in simp_all)
  show "work ?e \<le> work e + c" using assms(3) next_seq_Suc(1) [OF assms(2)] by (simp add: work_def)
qed (simp_all add: kept_def in_flight_def plain_def mem_lists_def memtables_def)

text \<open>One merge of consecutive tables into the next file, whatever else the caller changes in the engine.\<close>

lemma merge_round:
  assumes "ext_ok X" "env_ok env" "rep X g e ess" "sstables_newest_first e = tpre @ old @ trest"
    "dt \<longrightarrow> trest = []" "\<forall>c. ex = Some c \<longrightarrow> c \<le> g" "Suc (unat (en_next_seq e)) < 2 ^ 64"
    and m: "m = merge_write X env (enc_key e) (table_name (en_next_seq e)) old dt codec ex ka (en_disk e)"
  shows "enc_key e \<noteq> None \<and> (\<exists>err. m = Some (Inl err, en_disk e)) \<or>
    (\<exists>run d ess'. m = Some (Inr run, d) \<and> tb_path run = table_name (en_next_seq e) \<and>
      (\<forall>n < en_next_seq e. same_file (en_disk e) d (table_name n)) \<and>
      (\<forall>e'. memtables e' = memtables e \<longrightarrow> en_read_cache e' = en_read_cache e \<longrightarrow> en_opts e' = en_opts e \<longrightarrow>
        en_next_seq e' = en_next_seq e + 1 \<longrightarrow> en_disk e' = d \<longrightarrow> sstables_newest_first e' = tpre @ run # trest \<longrightarrow>
        rep X g e' ess' \<and> same_view g (sources e ess) (sources e' ess') \<and> shrinks (sources e ess) (sources e' ess')))"
proof -
  obtain pre ins rest where ess: "ess = pre @ ins @ rest" and l: "list_all2 (\<lambda>t. sst_holds X (tb_sst t)) tpre pre"
    "list_all2 (\<lambda>t. sst_holds X (tb_sst t)) old ins" "list_all2 (\<lambda>t. sst_holds X (tb_sst t)) trest rest"
    using eng_okD(2) [OF repD(1) [OF assms(3)]] by (auto simp: assms(4) list_all2_append1)
  have small: "small ins" using repD(3) [OF assms(3)] by (auto simp: small_def ess)
  have rest: "dt \<Longrightarrow> rest = []" using assms(5) l(3) by simp
  have ex: "\<And>c. ex = Some c \<Longrightarrow> c \<le> g" using assms(6) by blast
  let ?p = "table_name (en_next_seq e)" and ?es = "compacted dt ex ka ins"
  show ?thesis
    using merge_write_holds [OF assms(1,2) l(2) small, of "enc_key e" ?p dt codec ex ka "en_disk e", folded m]
  proof (elim disjE exE conjE)
    fix run d assume run: "m = Some (Inr run, d)" "sst_holds X (tb_sst run) ?es" "tb_path run = ?p"
      and disk: "\<forall>kek. (enc_key e \<noteq> None \<longrightarrow> kek = enc_key e) \<longrightarrow> on_disk_table X kek d ?p ?es"
        "\<forall>q. q \<noteq> ?p \<longrightarrow> q \<noteq> stamps_path ?p \<longrightarrow> dk_files d q = dk_files (en_disk e) q"
    have same: "\<And>n. n < en_next_seq e \<Longrightarrow> same_file (en_disk e) d (table_name n)"
      by (rule same_file_written [OF disk(2)]) simp
    have live: "\<forall>p \<in> set (live_paths e). same_file (en_disk e) d p"
      by (rule live_same_file [OF repD(4) [OF assms(3)] same])
    have od: "on_disk_table X (op_kek (en_opts e)) d ?p ?es"
      using disk(1) by (auto simp: enc_key_def split: if_splits)
    have "rep X g e' (pre @ ?es # rest) \<and> same_view g (sources e ess) (sources e' (pre @ ?es # rest)) \<and>
        shrinks (sources e ess) (sources e' (pre @ ?es # rest))"
      if e': "memtables e' = memtables e" "en_read_cache e' = en_read_cache e" "en_opts e' = en_opts e"
        "en_next_seq e' = en_next_seq e + 1" "en_disk e' = d" "sstables_newest_first e' = tpre @ run # trest" for e'
    proof -
      have "disk_ok X e' (pre @ ?es # rest)"
      proof (rule disk_ok_replace)
        show "disk_ok X e (pre @ ins @ rest)" using repD(4) [OF assms(3)] by (simp only: ess)
        show "live_paths e = map tb_path tpre @ map tb_path old @ map tb_path trest" by (simp add: assms(4))
        show "live_paths e' = map tb_path tpre @ ?p # map tb_path trest" by (simp add: e' run(3))
        show "en_next_seq e \<le> en_next_seq e'" "en_next_seq e < en_next_seq e'"
          using next_seq_Suc(2) [OF assms(7)] by (simp_all add: e')
        show "?p \<notin> set (live_paths e)" by (rule unused_name [OF repD(4) [OF assms(3)]]) simp
        show "\<forall>p \<in> set (map tb_path tpre @ map tb_path trest). same_file (en_disk e) (en_disk e') p"
          using live by (auto simp: e' assms(4))
      qed (use l od e' in \<open>auto dest: list_all2_lengthD\<close>)
      then show ?thesis using rep_replace [OF assms(3) [unfolded ess] rest ex e'(1,2,6) l(1) run(2) l(3)] by (simp only: ess)
    qed
    then show ?thesis using run(1,3) same by (intro disjI2 exI [of _ run] exI [of _ d] exI [of _ "pre @ ?es # rest"]) blast
  qed blast
qed

text \<open>One round of the cascade: the level and the one below it, if there is one, become one run.\<close>

definition cascade_width :: "engine \<Rightarrow> nat \<Rightarrow> nat" where
  "cascade_width e level = (if level + 1 < length (en_levels e) then 2 else 1)"

definition cascade_next :: "engine \<Rightarrow> nat \<Rightarrow> table \<Rightarrow> disk \<Rightarrow> engine" where
  "cascade_next e level run d =
     e\<lparr>en_next_seq := en_next_seq e + 1, en_disk := d, en_compactions := en_compactions e + 1,
       en_compaction_bytes := en_compaction_bytes e + sst_disk_len (tb_sst run),
       en_levels := take level (en_levels e) @ run # drop (level + cascade_width e level) (en_levels e)\<rparr>"

abbreviation cascade_merge :: "externals \<Rightarrow> engine_env \<Rightarrow> engine \<Rightarrow> nat \<Rightarrow> ((storage_error + table) \<times> disk) option" where
  "cascade_merge X env e level \<equiv>
     merge_write X env (enc_key e) (table_name (en_next_seq e)) (take (cascade_width e level) (drop level (en_levels e)))
       (cascade_width e level = 1) (codec_for e (cascade_width e level = 1)) (expire_cutoff env e) (tombstone_cutoff env e) (en_disk e)"

lemma cascade_step:
  assumes "level < length (en_levels e)" "\<not> sst_len (tb_sst (en_levels e ! level)) \<le> level_capacity e level"
  shows "cascade_loop X env level retired e =
    (case cascade_merge X env e level of
       None \<Rightarrow> Panic
     | Some (Inl err, d) \<Rightarrow> Fail err (e\<lparr>en_next_seq := en_next_seq e + 1, en_disk := d\<rparr>)
     | Some (Inr run, d) \<Rightarrow>
         cascade_loop X env (level + 1) (retired @ map tb_path (take (cascade_width e level) (drop level (en_levels e))))
           (cascade_next e level run d))"
proof -
  have e: "enc_key (e\<lparr>en_next_seq := n\<rparr>) = enc_key e" "expire_cutoff env (e\<lparr>en_next_seq := n\<rparr>) = expire_cutoff env e"
    "tombstone_cutoff env (e\<lparr>en_next_seq := n\<rparr>) = tombstone_cutoff env e" for n
    by (simp_all add: enc_key_def expire_cutoff_def tombstone_cutoff_def)
  show ?thesis
    using assms by (subst cascade_loop.simps)
      (simp add: next_table_path_def Let_def cascade_width_def cascade_next_def e
        split: option.split prod.split sum.split)
qed

lemma cascade_next_fields:
  assumes "level < length (en_levels e)"
  shows "memtables (cascade_next e level run d) = memtables e" "en_read_cache (cascade_next e level run d) = en_read_cache e"
    "en_opts (cascade_next e level run d) = en_opts e" "en_next_seq (cascade_next e level run d) = en_next_seq e + 1"
    "en_disk (cascade_next e level run d) = d"
    "sstables_newest_first (cascade_next e level run d) =
      (en_l0 e @ take level (en_levels e)) @ run # drop (level + cascade_width e level) (en_levels e)"
    "kept e (cascade_next e level run d)" "en_l0 (cascade_next e level run d) = en_l0 e"
    "length (en_levels (cascade_next e level run d)) \<le> length (en_levels e)"
    "length (en_levels (cascade_next e level run d)) - (level + 1) < length (en_levels e) - level"
    "en_frozen (cascade_next e level run d) = en_frozen e"
    "en_levels (cascade_next e level run d) = take level (en_levels e) @ run # drop (level + cascade_width e level) (en_levels e)"
  using assms by (auto simp: cascade_next_def memtables_def sstables_newest_first_def kept_def in_flight_def plain_def cascade_width_def)

lemma plain_enc_key: "plain e \<Longrightarrow> enc_key e = None"
  by (simp add: plain_def enc_key_def)

text \<open>A step that replaces tables by one under the next name, with nothing in level 0 afterwards.\<close>

lemma frame_replace:
  assumes "Suc (unat (en_next_seq e)) < 2 ^ 64" "en_next_seq e' = en_next_seq e + 1" "en_l0 e' = []"
    "map tb_path (en_levels e') = pre @ table_name (en_next_seq e) # rest" "set (pre @ rest) \<subseteq> set (live_paths e)"
    "length (en_levels e) \<le> 1 \<longrightarrow> pre = [] \<and> rest = []"
    "\<forall>n < en_next_seq e. same_file (en_disk e) (en_disk e') (table_name n)"
  shows "frame e e'"
proof -
  have live: "set (live_paths e') = insert (table_name (en_next_seq e)) (set (pre @ rest))"
    unfolding sstables_newest_first_def assms(3) append_Nil assms(4) by auto
  have "length (en_levels e') \<le> 1" if "length (en_levels e) \<le> 1"
    using assms(4,6) that map_eq_imp_length_eq [of tb_path "en_levels e'" id "[table_name (en_next_seq e)]"] by simp
  then show ?thesis
    using assms(2,5-7) next_seq_Suc(2) [OF assms(1)] unfolding frame_def files_kept_def tables_kept_def live
    by auto
qed

lemma rep_cascade_loop:
  assumes "ext_ok X" "env_ok env" "rep X g e ess" "cutoff_le env e g" "en_l0 e = []"
    "Suc (unat (en_next_seq e) + (length (en_levels e) - level)) < 2 ^ 64"
  shows "settles (plain e) (cascade_loop X env level retired e)
    (\<lambda>e'. refines X g (length (en_levels e) - level) e ess e' \<and> en_l0 e' = [])"
  using assms(3-6)
proof (induction "length (en_levels e) - level" arbitrary: level retired e ess rule: less_induct)
  case less
  show ?case
  proof (cases "level \<ge> length (en_levels e) \<or> sst_len (tb_sst (en_levels e ! level)) \<le> level_capacity e level")
    case True
    then show ?thesis using less.prems(1,3) by (subst cascade_loop.simps) (simp add: refines_refl)
  next
    case False
    then have lv: "level < length (en_levels e)" by simp
    let ?n = "cascade_width e level"
    have ts: "sstables_newest_first e =
        (en_l0 e @ take level (en_levels e)) @ take ?n (drop level (en_levels e)) @ drop (level + ?n) (en_levels e)"
      by (simp add: sstables_newest_first_def) (metis add.commute append_take_drop_id drop_drop)
    have dt: "?n = 1 \<longrightarrow> drop (level + ?n) (en_levels e) = []" using lv by (auto simp: cascade_width_def split: if_splits)
    have cut: "\<forall>c. expire_cutoff env e = Some c \<longrightarrow> c \<le> g" using less.prems(2) by (simp add: cutoff_le_def)
    have s: "Suc (unat (en_next_seq e)) < 2 ^ 64" using less.prems(4) by simp
    show ?thesis
      using merge_round [OF assms(1,2) less.prems(1) ts dt cut s refl, of "codec_for e (?n = 1)" "tombstone_cutoff env e"]
    proof (elim disjE exE conjE)
      fix err assume m: "cascade_merge X env e level = Some (Inl err, en_disk e)" and k: "enc_key e \<noteq> None"
      have "refines X g (length (en_levels e) - level) e ess (e\<lparr>en_next_seq := en_next_seq e + 1\<rparr>)"
        using lv by (intro refines_burn less.prems(1) s) simp
      then show ?thesis using cascade_step [of level e X env retired] False plain_enc_key [of e] k m less.prems(3) by auto
    next
      fix run d ess' assume run: "cascade_merge X env e level = Some (Inr run, d)" "tb_path run = table_name (en_next_seq e)"
          "\<forall>n < en_next_seq e. same_file (en_disk e) d (table_name n)"
        and view: "\<forall>e'. memtables e' = memtables e \<longrightarrow> en_read_cache e' = en_read_cache e \<longrightarrow> en_opts e' = en_opts e \<longrightarrow>
          en_next_seq e' = en_next_seq e + 1 \<longrightarrow> en_disk e' = d \<longrightarrow>
          sstables_newest_first e' = (en_l0 e @ take level (en_levels e)) @ run # drop (level + ?n) (en_levels e) \<longrightarrow>
          rep X g e' ess' \<and> same_view g (sources e ess) (sources e' ess') \<and> shrinks (sources e ess) (sources e' ess')"
      let ?e = "cascade_next e level run d"
      note f = cascade_next_fields [OF lv, of run d]
      have v: "rep X g ?e ess'" "same_view g (sources e ess) (sources ?e ess')" "shrinks (sources e ess) (sources ?e ess')"
        using view f(1-6) by blast+
      have fr: "frame e ?e"
        by (rule frame_replace [OF s f(4)]) (use run(2,3) less.prems(3) lv in \<open>auto simp: f sstables_newest_first_def
          cascade_width_def intro!: imageI dest: in_set_takeD in_set_dropD\<close>)
      have w: "work ?e \<le> work e + 1" using next_seq_Suc(1) [OF s] by (simp add: work_def f)
      have len: "Suc (length (en_levels ?e) - (level + 1)) \<le> length (en_levels e) - level" using f(10) by simp
      have "cutoff_le env ?e g" using less.prems(2) cutoff_le_kept [OF f(7)] by simp
      moreover have "Suc (unat (en_next_seq ?e) + (length (en_levels ?e) - (level + 1))) < 2 ^ 64"
        using less.prems(4) len next_seq_Suc(1) [OF s] by (simp add: f(4))
      ultimately have IH: "settles (plain ?e) (cascade_loop X env (level + 1) r ?e)
          (\<lambda>e'. refines X g (length (en_levels ?e) - (level + 1)) ?e ess' e' \<and> en_l0 e' = [])" for r
        using less.hyps [OF f(10) v(1)] f(8) less.prems(3) by simp
      have up: "refines X g (length (en_levels e) - level) e ess e'"
        if "refines X g (length (en_levels ?e) - (level + 1)) ?e ess' e'" for e'
        using refines_trans [OF f(7) fr w v(2,3) that] len by (auto simp: refines_def)
      have "settles (plain e) (cascade_loop X env (level + 1) r ?e)
          (\<lambda>e'. refines X g (length (en_levels e) - level) e ess e' \<and> en_l0 e' = [])" for r
        by (rule settles_mono [OF IH]) (use up f(7) kept_def in auto)
      then show ?thesis using cascade_step [of level e X env retired] False run by simp
    qed
  qed
qed

text \<open>The files retired by the cascade: none is live, and those with an older name were live before.\<close>

definition retired_ok :: "engine \<Rightarrow> string list \<Rightarrow> bool" where
  "retired_ok e ps \<longleftrightarrow> (\<forall>p \<in> set ps. (\<exists>n < en_next_seq e. p = table_name n) \<and> p \<notin> set (live_paths e))"

lemma merge_path:
  assumes "merge_write X env enc p ts dt codec ex ka d = Some (Inr run, d')"
  shows "tb_path run = p"
  using assms by (auto simp: merge_write_def write_table_def Let_def split: prod.splits option.splits sum.splits)

lemma not_in_rest: "distinct (l @ q @ r) \<Longrightarrow> n \<notin> set (l @ q @ r) \<Longrightarrow> p \<in> set q \<Longrightarrow> p \<notin> set (l @ n # r)"
  by auto

lemma cascade_retired:
  assumes "cascade_loop X env level retired e = Done r e'" "retired_ok e retired" "distinct (live_paths e)"
    "\<forall>p \<in> set (live_paths e). \<exists>n < en_next_seq e. p = table_name n"
    "Suc (unat (en_next_seq e) + (length (en_levels e) - level)) < 2 ^ 64"
  shows "retired_ok e' r \<and> set r \<subseteq> set retired \<union> set (live_paths e) \<union> table_name ` {en_next_seq e..}"
  using assms
proof (induction "length (en_levels e) - level" arbitrary: level retired e rule: less_induct)
  case less
  show ?case
  proof (cases "level \<ge> length (en_levels e) \<or> sst_len (tb_sst (en_levels e ! level)) \<le> level_capacity e level")
    case True
    then have "r = retired" "e' = e" using less.prems(1) by (subst (asm) cascade_loop.simps, simp)+
    then show ?thesis using less.prems(2) by auto
  next
    case False
    let ?n = "cascade_width e level"
    let ?old = "map tb_path (take ?n (drop level (en_levels e)))"
    from False have lv: "level < length (en_levels e)" by simp
    have s: "Suc (unat (en_next_seq e)) < 2 ^ 64" using less.prems(5) by simp
    obtain run d where run: "cascade_merge X env e level = Some (Inr run, d)"
        "cascade_loop X env (level + 1) (retired @ ?old) (cascade_next e level run d) = Done r e'"
      using less.prems(1) cascade_step [of level e X env retired] False by (auto split: option.splits sum.splits)
    let ?e = "cascade_next e level run d"
    note f = cascade_next_fields [OF lv, of run d] and p = merge_path [OF run(1)]
    let ?l = "map tb_path (en_l0 e @ take level (en_levels e))" and ?r = "map tb_path (drop (level + ?n) (en_levels e))"
    have "en_levels e = take level (en_levels e) @ take ?n (drop level (en_levels e)) @ drop (level + ?n) (en_levels e)"
      by (metis add.commute append_take_drop_id drop_drop)
    then have live: "live_paths e = ?l @ ?old @ ?r" "live_paths ?e = ?l @ table_name (en_next_seq e) # ?r"
      by (metis append.assoc map_append sstables_newest_first_def) (simp add: f p)
    have fresh: "table_name (en_next_seq e) \<notin> set (live_paths e)" using less.prems(4) by auto
    have lt: "en_next_seq e < en_next_seq ?e" using next_seq_Suc(2) [OF s] by (simp add: f)
    have 1: "distinct (live_paths ?e)" using less.prems(3) fresh by (auto simp: live)
    have up: "\<exists>n < en_next_seq ?e. p = table_name n" if "\<exists>n < en_next_seq e. p = table_name n" for p
      using that lt by auto
    have "set (live_paths ?e) \<subseteq> insert (table_name (en_next_seq e)) (set (live_paths e))" unfolding live by auto
    then have 2: "\<forall>p \<in> set (live_paths ?e). \<exists>n < en_next_seq ?e. p = table_name n"
      using less.prems(4) up lt by blast
    have "p \<notin> set (live_paths ?e)" if p: "p \<in> set ?old" for p
      using not_in_rest [OF less.prems(3) [unfolded live(1)] fresh [unfolded live(1)] p] unfolding live(2) .
    moreover have "p \<notin> set (live_paths ?e)" if p: "\<exists>n < en_next_seq e. p = table_name n" "p \<notin> set (live_paths e)" for p
      using p unfolding live by auto
    ultimately have 3: "retired_ok ?e (retired @ ?old)"
      using less.prems(2,4) up unfolding retired_ok_def live(1) set_append by blast
    have 4: "Suc (unat (en_next_seq ?e) + (length (en_levels ?e) - (level + 1))) < 2 ^ 64"
      using less.prems(5) f(10) next_seq_Suc(1) [OF s] by (simp add: f(4))
    have "retired_ok e' r \<and> set r \<subseteq> set (retired @ ?old) \<union> set (live_paths ?e) \<union> table_name ` {en_next_seq ?e..}"
      by (rule less.hyps [OF f(10) run(2) 3 1 2 4])
    moreover have "set (retired @ ?old) \<union> set (live_paths ?e) \<union> table_name ` {en_next_seq ?e..} \<subseteq>
        set retired \<union> set (live_paths e) \<union> table_name ` {en_next_seq e..}"
      using lt unfolding live by auto
    ultimately show ?thesis by blast
  qed
qed

lemma memtables_cong2 [simp]:
  "memtables (e\<lparr>en_disk := d\<rparr>) = memtables e" "memtables (e\<lparr>en_next_seq := n\<rparr>) = memtables e"
  "memtables (persist_manifest e) = memtables e"
  by (simp_all add: memtables_def persist_manifest_def)

lemma sstables_cong2 [simp]:
  "sstables_newest_first (e\<lparr>en_disk := d\<rparr>) = sstables_newest_first e"
  "sstables_newest_first (e\<lparr>en_next_seq := n\<rparr>) = sstables_newest_first e"
  "sstables_newest_first (persist_manifest e) = sstables_newest_first e"
  by (simp_all add: sstables_newest_first_def persist_manifest_def)

lemma kept_cong2 [simp]:
  "kept e (e\<lparr>en_disk := d\<rparr>)" "kept e (e\<lparr>en_next_seq := n\<rparr>)" "kept e (persist_manifest e)"
  by (simp_all add: kept_def in_flight_def plain_def persist_manifest_def)

lemma persist_manifest_fields [simp]:
  "en_read_cache (persist_manifest e) = en_read_cache e" "en_l0 (persist_manifest e) = en_l0 e"
  "en_levels (persist_manifest e) = en_levels e" "en_frozen (persist_manifest e) = en_frozen e"
  by (simp_all add: persist_manifest_def)

definition compact_next :: "engine \<Rightarrow> table \<Rightarrow> disk \<Rightarrow> engine" where
  "compact_next e run d =
     e\<lparr>en_next_seq := en_next_seq e + 1, en_disk := d, en_compactions := en_compactions e + 1,
       en_compaction_bytes := en_compaction_bytes e + sst_disk_len (tb_sst run),
       en_l0 := [], en_levels := run # drop 1 (en_levels e)\<rparr>"

abbreviation compact_merge :: "externals \<Rightarrow> engine_env \<Rightarrow> engine \<Rightarrow> ((storage_error + table) \<times> disk) option" where
  "compact_merge X env e \<equiv>
     merge_write X env (enc_key e) (table_name (en_next_seq e)) (en_l0 e @ take 1 (en_levels e))
       (length (en_levels e) \<le> 1) (codec_for e (length (en_levels e) \<le> 1)) (expire_cutoff env e)
       (tombstone_cutoff env e) (en_disk e)"

lemma compact_step:
  assumes "\<not> length (en_l0 e) < op_l0_compaction_trigger (en_opts e)"
  shows "maybe_compact X env e =
    (case compact_merge X env e of
       None \<Rightarrow> Panic
     | Some (Inl err, d) \<Rightarrow> Fail err (e\<lparr>en_next_seq := en_next_seq e + 1, en_disk := d\<rparr>)
     | Some (Inr run, d) \<Rightarrow>
         obind (cascade_loop X env 0 (map tb_path (en_l0 e @ take 1 (en_levels e))) (compact_next e run d)) (\<lambda>retired e.
         Done () ((persist_manifest e)\<lparr>en_disk := remove_files retired (en_disk (persist_manifest e))\<rparr>)))"
proof -
  have e: "enc_key (e\<lparr>en_next_seq := n\<rparr>) = enc_key e" "expire_cutoff env (e\<lparr>en_next_seq := n\<rparr>) = expire_cutoff env e"
    "tombstone_cutoff env (e\<lparr>en_next_seq := n\<rparr>) = tombstone_cutoff env e" for n
    by (simp_all add: enc_key_def expire_cutoff_def tombstone_cutoff_def)
  show ?thesis
    using assms by (simp add: maybe_compact_def next_table_path_def Let_def compact_next_def e split: option.split prod.split sum.split)
qed

text \<open>The retired files are removed after the manifest is written.\<close>

lemma refines_remove:
  assumes "refines X g c e ess e'" "retired_ok e' r" "\<forall>n < en_next_seq e. table_name n \<in> set r \<longrightarrow> table_name n \<in> set (live_paths e)"
  shows "refines X g c e ess ((persist_manifest e')\<lparr>en_disk := remove_files r (en_disk (persist_manifest e'))\<rparr>)"
    (is "refines X g c e ess ?e")
proof -
  obtain ess' where r: "kept e e'" "frame e e'" "work e' \<le> work e + c" "rep X g e' ess'"
    "same_view g (sources e ess) (sources e' ess')" "shrinks (sources e ess) (sources e' ess')"
    using assms(1) by (rule refinesE)
  have named: "\<forall>p \<in> set r. \<exists>m. p = table_name m" using assms(2) by (auto simp: retired_ok_def)
  have tables: "sstables_newest_first ?e = sstables_newest_first e'" "en_l0 ?e = en_l0 e'" "en_levels ?e = en_levels e'"
    "en_next_seq ?e = en_next_seq e'" "memtables ?e = memtables e'" "kept e' ?e" "work ?e = work e'" "en_opts ?e = en_opts e'"
    "en_read_cache ?e = en_read_cache e'"
    by (simp_all add: persist_manifest_def sstables_newest_first_def memtables_def kept_def in_flight_def plain_def work_def)
  have same: "same_file (en_disk e') (en_disk ?e) (table_name n)" if "table_name n \<notin> set r" for n
    using remove_files_same [OF that named, of "en_disk (persist_manifest e')"]
    by (simp add: same_file_def persist_manifest_def)
  have "\<forall>p \<in> set (live_paths e'). same_file (en_disk e') (en_disk ?e) p"
    using live_named [OF repD(4) [OF r(4)]] same assms(2) unfolding retired_ok_def by metis
  then have rep: "rep X g ?e ess'" by (intro rep_cong [OF r(4)]) (simp_all only: tables order.refl)
  have "files_kept e ?e"
    unfolding files_kept_def tables
  proof (intro allI impI)
    fix n assume n: "n < en_next_seq e"
    show "same_file (en_disk e) (en_disk ?e) (table_name n) \<or>
      table_name n \<in> set (live_paths e) \<and> table_name n \<notin> set (live_paths e') \<and> dk_files (en_disk ?e) (table_name n) = None"
    proof (cases "table_name n \<in> set r")
      case True
      then have "dk_files (en_disk ?e) (table_name n) = None" by (simp add: remove_files_gone)
      then show ?thesis using True assms(2,3) n by (simp add: retired_ok_def)
    next
      case False
      from frameD(2) [OF r(2), unfolded files_kept_def, rule_format, OF n] show ?thesis
        using same [OF False] same_file_trans by (auto simp: same_file_def)
    qed
  qed
  then have "frame e ?e" using r(2) unfolding frame_def tables tables_kept_def by blast
  moreover have "mem_lists ?e = mem_lists e'" using tables(5) by (rule mem_lists_cong)
  ultimately show ?thesis using r tables rep kept_trans [OF r(1) tables(6)] by (intro refinesI [where ess' = ess']) simp_all
qed

lemma rep_maybe_compact:
  assumes "ext_ok X" "env_ok env" "rep X g e ess" "cutoff_le env e g" "length (en_levels e) \<le> 1"
    "unat (en_next_seq e) + 3 < 2 ^ 64"
  shows "settles (plain e) (maybe_compact X env e) (refines X g 2 e ess)"
proof (cases "length (en_l0 e) < op_l0_compaction_trigger (en_opts e)")
  case True
  then show ?thesis using assms(3) by (simp add: maybe_compact_def refines_refl)
next
  case False
  let ?old = "map tb_path (en_l0 e @ take 1 (en_levels e))"
  have rest: "drop 1 (en_levels e) = []" using assms(5) by simp
  have ts: "sstables_newest_first e = [] @ (en_l0 e @ take 1 (en_levels e)) @ drop 1 (en_levels e)"
    by (simp add: sstables_newest_first_def)
  have cut: "\<forall>c. expire_cutoff env e = Some c \<longrightarrow> c \<le> g" using assms(4) by (simp add: cutoff_le_def)
  have s: "Suc (unat (en_next_seq e)) < 2 ^ 64" using assms(6) by simp
  have dt: "length (en_levels e) \<le> 1 \<longrightarrow> drop 1 (en_levels e) = []" by simp
  show ?thesis
    using merge_round [OF assms(1-3) ts dt cut s refl, of "codec_for e (length (en_levels e) \<le> 1)" "tombstone_cutoff env e"]
  proof (elim disjE exE conjE)
    fix err assume "compact_merge X env e = Some (Inl err, en_disk e)" "enc_key e \<noteq> None"
    then show ?thesis using plain_enc_key refines_burn [OF assms(3) s, of 2] by (auto simp: compact_step [OF False])
  next
    fix run d ess' assume run: "compact_merge X env e = Some (Inr run, d)" "tb_path run = table_name (en_next_seq e)"
        "\<forall>n < en_next_seq e. same_file (en_disk e) d (table_name n)"
      and view: "\<forall>e'. memtables e' = memtables e \<longrightarrow> en_read_cache e' = en_read_cache e \<longrightarrow> en_opts e' = en_opts e \<longrightarrow>
        en_next_seq e' = en_next_seq e + 1 \<longrightarrow> en_disk e' = d \<longrightarrow> sstables_newest_first e' = [] @ run # drop 1 (en_levels e) \<longrightarrow>
        rep X g e' ess' \<and> same_view g (sources e ess) (sources e' ess') \<and> shrinks (sources e ess) (sources e' ess')"
    let ?e = "compact_next e run d"
    have f: "memtables ?e = memtables e" "en_read_cache ?e = en_read_cache e" "en_opts ?e = en_opts e"
      "en_next_seq ?e = en_next_seq e + 1" "en_disk ?e = d" "sstables_newest_first ?e = [] @ run # drop 1 (en_levels e)"
      "kept e ?e" "en_l0 ?e = []" "en_levels ?e = [run]" "en_frozen ?e = en_frozen e"
      using assms(5) by (simp_all add: compact_next_def memtables_def sstables_newest_first_def kept_def in_flight_def plain_def)
    have v: "rep X g ?e ess'" "same_view g (sources e ess) (sources ?e ess')" "shrinks (sources e ess) (sources ?e ess')"
      using view f(1-6) by blast+
    have cl: "cutoff_le env ?e g" using assms(4) cutoff_le_kept [OF f(7)] by simp
    have fr: "frame e ?e" by (rule frame_replace [OF s f(4), where pre = "[]" and rest = "[]"]) (use run assms(5) in \<open>simp_all add: f\<close>)
    have w: "work ?e \<le> work e + 1" using next_seq_Suc(1) [OF s] by (simp add: work_def f)
    have room: "Suc (unat (en_next_seq ?e) + (length (en_levels ?e) - 0)) < 2 ^ 64"
      using assms(6) next_seq_Suc(1) [OF s] by (simp add: f)
    note loop = rep_cascade_loop [OF assms(1,2) v(1) cl f(8) room, of ?old]
    have "settles (plain e) (cascade_loop X env 0 ?old ?e) (refines X g 2 e ess)"
      using loop by (rule settles_mono) (use refines_trans [OF f(7) fr w v(2,3)] f(7) in \<open>auto simp: kept_def f numeral_2_eq_2\<close>)
    then show ?thesis unfolding compact_step [OF False] run(1) option.case prod.case sum.case
    proof (rule settles_obind, goal_cases)
      case (2 r e')
      have new: "table_name (en_next_seq e) \<notin> set (live_paths e)" by (rule unused_name [OF repD(4) [OF assms(3)]]) simp
      have lives: "set ?old = set (live_paths e)" using assms(5) by (simp add: sstables_newest_first_def)
      have live': "live_paths ?e = [table_name (en_next_seq e)]"
        unfolding f(6) rest append_Nil by (simp add: run(2))
      have "\<exists>n < en_next_seq e + 1. p = table_name n" if "p \<in> set (live_paths e)" for p
        using live_named [OF repD(4) [OF assms(3)] that] next_seq_Suc(2) [OF s] by auto
      then have "retired_ok ?e ?old" using new unfolding retired_ok_def lives f(4) live' list.set by blast
      from cascade_retired [OF 2(1) this _ _ room]
      have ret: "retired_ok e' r" "set r \<subseteq> set ?old \<union> set (live_paths ?e) \<union> table_name ` {en_next_seq ?e..}"
        using repD(4) [OF v(1)] by (simp_all add: disk_ok_def)
      have "table_name n \<in> set (live_paths e)" if n: "n < en_next_seq e" "table_name n \<in> set r" for n
        using ret(2) n next_seq_Suc(2) [OF s] unfolding lives live' by (auto simp: f)
      then show ?case using refines_remove [OF 2(2) ret(1)] by simp
    qed simp
  qed
qed

end
