(* ===== verification/Engine_Correct.thy ===== *)
theory Engine_Correct
  imports Engine_Compact
begin

text \<open>
  The engine as a map. Every mutating operation, with whatever freeze, flush and compaction it
  triggers, preserves the invariant \<open>rep\<close> and changes the answers as an abstract map would; over any
  run of operations on a plain engine the point reads and scans are those of the map.
\<close>

section \<open>Flush\<close>

lemma freeze_done:
  assumes "freeze X env e = Done u e'"
  obtains w where "wal_rotate X (en_next_wal_seq e) (fst (ev_wal_rng env (ws_generation (wal_sync (en_wal e)) + 1)))
      (snd (ev_wal_rng env (ws_generation (wal_sync (en_wal e)) + 1))) (en_wal e) = Inr w"
    "e' = e\<lparr>en_next_wal_seq := en_next_wal_seq e + 1, en_wal := w, en_mem := mt_new,
      en_frozen := en_frozen e @ [\<lparr>fm_mem = en_mem e, fm_wal_seq = en_next_wal_seq e,
        fm_max_hlc = mt_max_hlc (en_mem e), fm_building = False\<rparr>]\<rparr>"
  using assms by (auto simp: freeze_def Let_def split: prod.splits sum.splits)

lemma rotate_plain:
  assumes "plain e"
  shows "\<exists>w. wal_rotate X seq rk rn (en_wal e) = Inr w \<and> wal_crypto w = None \<and> \<not> ws_ephemeral (wal_sync w)"
  using assms by (auto simp: wal_rotate_def fresh_start_def plain_def Let_def split: if_splits)

lemma refines_freeze:
  assumes "rep X g e ess"
  shows "settles (plain e) (freeze X env e) (refines X g 1 e ess)"
proof (cases "freeze X env e")
  case (Done u e')
  obtain w where w: "wal_rotate X (en_next_wal_seq e) (fst (ev_wal_rng env (ws_generation (wal_sync (en_wal e)) + 1)))
      (snd (ev_wal_rng env (ws_generation (wal_sync (en_wal e)) + 1))) (en_wal e) = Inr w"
    and e': "e' = e\<lparr>en_next_wal_seq := en_next_wal_seq e + 1, en_wal := w, en_mem := mt_new,
      en_frozen := en_frozen e @ [\<lparr>fm_mem = en_mem e, fm_wal_seq = en_next_wal_seq e,
        fm_max_hlc = mt_max_hlc (en_mem e), fm_building = False\<rparr>]\<rparr>"
    using Done by (rule freeze_done)
  have r: "rep X g e' ess" "mem_lists e' = [] # mem_lists e" using rep_freeze [OF assms] Done by simp_all
  have "wal_crypto w = None \<and> \<not> ws_ephemeral (wal_sync w)" if "plain e"
    using rotate_plain [OF that] w by (metis sum.inject(2))
  then have "kept e e'" by (cases "en_frozen e") (auto simp: e' kept_def in_flight_def plain_def)
  moreover have "frame e e'" by (rule frame_same_tables) (simp_all add: e')
  moreover have "work e' \<le> work e + 1" by (simp add: work_def e')
  ultimately have "refines X g 1 e ess e'"
    by (rule refinesI [where ess' = ess]) (use r in \<open>simp_all add: same_view_def shrinks_def\<close>)
  then show ?thesis using Done by simp
next
  case (Untracked err)
  then obtain rk rn where "wal_rotate X (en_next_wal_seq e) rk rn (en_wal e) = Inl err"
    by (auto simp: freeze_def Let_def split: prod.splits sum.splits)
  then have "\<not> plain e" using rotate_plain by (metis Inl_Inr_False)
  then show ?thesis using Untracked by simp
qed (auto simp: freeze_def Let_def split: prod.splits sum.splits)

lemma refines_mono: "refines X g c e ess e' \<Longrightarrow> c \<le> c' \<Longrightarrow> refines X g c' e ess e'"
  by (auto simp: refines_def)

lemma refines_flush_loop:
  assumes "ext_ok X" "env_ok env" "rep X g e ess" "work e + 1 < 2 ^ 64"
  shows "settles (plain e) (flush_loop X env e) (refines X g 1 e ess)"
  using rep_flush_loop [OF assms]
proof (rule settles_mono)
  fix e' assume a: "kept e e' \<and> frame e e' \<and> work e' \<le> work e + (if plain e then 0 else 1) \<and>
    (\<exists>ess'. rep X g e' ess' \<and> sources e' ess' = sources e ess)"
  then obtain ess' where "rep X g e' ess'" "sources e' ess' = sources e ess" by blast
  with a show "refines X g 1 e ess e'" by (intro refinesI [where ess' = ess']) (auto split: if_splits)
qed simp

lemma refines_bind:
  assumes "settles (plain e) m (refines X g c e ess)"
    "\<And>x e' ess'. kept e e' \<Longrightarrow> frame e e' \<Longrightarrow> work e' \<le> work e + c \<Longrightarrow> rep X g e' ess' \<Longrightarrow>
      settles (plain e') (f x e') (refines X g c' e' ess')"
  shows "settles (plain e) (obind m f) (refines X g (c + c') e ess)"
  using assms(1)
proof (rule settles_obind)
  fix x e' assume "refines X g c e ess e'"
  then obtain ess' where r: "kept e e'" "frame e e'" "work e' \<le> work e + c" "rep X g e' ess'"
    "same_view g (sources e ess) (sources e' ess')" "shrinks (sources e ess) (sources e' ess')"
    by (rule refinesE)
  show "settles (plain e) (f x e') (refines X g (c + c') e ess)"
    by (rule settles_mono [OF assms(2) [OF r(1-4)]]) (use r(1) refines_trans [OF r(1-3,5,6)] in \<open>auto simp: kept_def\<close>)
qed (simp add: refines_mono)

text \<open>At most one level below level 0, and room for the names an operation may need.\<close>

definition roomy :: "engine \<Rightarrow> bool" where
  "roomy e \<longleftrightarrow> length (en_levels e) \<le> 1 \<and> work e + 8 < 2 ^ 64"

lemma frame_levels: "frame e e' \<Longrightarrow> length (en_levels e) \<le> 1 \<Longrightarrow> length (en_levels e') \<le> 1"
  by (simp add: frame_def tables_kept_def)

lemma refines_flush:
  assumes "ext_ok X" "env_ok env" "rep X g e ess" "cutoff_le env e g" "roomy e"
  shows "settles (plain e) (flush X env e) (refines X g 4 e ess)"
proof (cases "op_ephemeral (en_opts e)")
  case True
  then show ?thesis using assms(3) by (simp add: flush_def refines_refl)
next
  case False
  have 1: "settles (plain e) (if mt_is_empty (en_mem e) then Done () e else freeze X env e) (refines X g 1 e ess)"
    using refines_freeze [OF assms(3)] refines_refl [OF assms(3)] by simp
  have 2: "settles (plain e') (obind (flush_loop X env e') (\<lambda>_. maybe_compact X env)) (refines X g (1 + 2) e' ess')"
    if k: "kept e e'" "frame e e'" "work e' \<le> work e + 1" "rep X g e' ess'" for e' ess'
  proof (rule refines_bind)
    show "settles (plain e') (flush_loop X env e') (refines X g 1 e' ess')"
      by (rule refines_flush_loop [OF assms(1,2) k(4)]) (use k(3) assms(5) in \<open>simp add: roomy_def\<close>)
    fix x e'' ess'' assume k2: "kept e' e''" "frame e' e''" "work e'' \<le> work e' + 1" "rep X g e'' ess''"
    show "settles (plain e'') (maybe_compact X env e'') (refines X g 2 e'' ess'')"
    proof (rule rep_maybe_compact [OF assms(1,2) k2(4)])
      show "cutoff_le env e'' g" using assms(4) cutoff_le_kept [OF kept_trans [OF k(1) k2(1)]] by simp
      show "length (en_levels e'') \<le> 1" using frame_levels [OF frame_trans [OF k(2) k2(2)]] assms(5) by (simp add: roomy_def)
      show "unat (en_next_seq e'') + 3 < 2 ^ 64" using k(3) k2(3) assms(5) by (simp add: roomy_def work_def)
    qed
  qed
  have "settles (plain e) (obind (if mt_is_empty (en_mem e) then Done () e else freeze X env e)
      (\<lambda>_ e. obind (flush_loop X env e) (\<lambda>_. maybe_compact X env))) (refines X g (1 + (1 + 2)) e ess)"
    by (rule refines_bind [OF 1 2])
  moreover have "1 + (1 + 2) = (4 :: nat)" by simp
  ultimately show ?thesis using False by (simp only: flush_def if_False)
qed

lemma refines_maybe_flush:
  assumes "ext_ok X" "env_ok env" "rep X g e ess" "cutoff_le env e g" "roomy e"
  shows "settles (plain e) (maybe_flush X env e) (refines X g 4 e ess)"
proof -
  have "settles (plain e) (freeze X env e) (refines X g 4 e ess)"
    by (rule settles_mono [OF refines_freeze [OF assms(3)]]) (simp_all add: refines_mono)
  then show ?thesis using refines_flush [OF assms] refines_refl [OF assms(3)] by (simp add: maybe_flush_def)
qed

section \<open>Writes\<close>

text \<open>The state after a write of \<open>(h, v)\<close> under \<open>key\<close>.\<close>

definition wrote ::
    "externals \<Rightarrow> u64 \<Rightarrow> engine \<Rightarrow> entry list list \<Rightarrow> bytes \<Rightarrow> hlc \<Rightarrow> version_value \<Rightarrow> engine \<Rightarrow> bool" where
  "wrote X g e ess key h v e' \<longleftrightarrow> kept e e' \<and> frame e e' \<and> work e' \<le> work e + 4 \<and> (\<exists>ess'. rep X g e' ess' \<and>
     (\<forall>k. answer_ok g (if k = key then Some (h, v) else held (sources e ess) k) (held (sources e' ess') k)) \<and>
     sum_list (map length (sources e' ess')) \<le> Suc (sum_list (map length (sources e ess))) \<and>
     set (concat (sources e' ess')) \<subseteq> insert (key, h, v) (set (concat (sources e ess))))"

lemma append_op_fields:
  assumes "append_op X h key val w = Inr (w', c)"
  shows "wal_crypto w' = wal_crypto w" "ws_ephemeral (wal_sync w') = ws_ephemeral (wal_sync w)"
  using assms by (auto simp: append_op_def Let_def rbind_eq_Inr_iff)

lemma append_op_plain:
  assumes "append_op X h key val (en_wal e) = Inl err"
  shows "\<not> plain e"
  using assms by (cases "wal_crypto (en_wal e)") (auto simp: append_op_def Let_def plain_def seal_body_def)

lemma append_buffered_write:
  "append_buffered X env key h v e =
     (case append_op X h key (version_to_value v) (en_wal e) of
        Inl err \<Rightarrow> Fail err e
      | Inr (w, commit) \<Rightarrow> obind (maybe_flush X env (mem_write key h v w e)) (\<lambda>_ e. Done commit e))"
  by (simp add: append_buffered_def version_to_value_def mem_write_def cong: sum.case_cong prod.case_cong)

lemma kept_mem_write:
  assumes "append_op X h key val (en_wal e) = Inr (w, c)"
  shows "kept e (mem_write key h v w e)"
  using append_op_fields [OF assms] by (simp add: kept_def in_flight_def plain_def mem_write_def)

lemma mem_write_frame: "frame e (mem_write key h v w e)" "work (mem_write key h v w e) = work e"
  "roomy (mem_write key h v w e) = roomy e"
  by (rule frame_same_tables) (simp_all add: mem_write_def work_def roomy_def)

lemma wrote_refines:
  assumes "rep X g e ess" "newest_for (sources e ess) key h" "kept e (mem_write key h v w e)"
    "refines X g 4 (mem_write key h v w e) ess e'"
  shows "wrote X g e ess key h v e'"
proof -
  have inv: "mt_inv (en_mem e)" using eng_okD(1) [OF repD(1) [OF assms(1)]] by (simp add: memtables_def)
  note hw = held_write(1) [OF inv assms(2), of v w] and sw = sources_write [OF inv assms(2), of v w]
  obtain ess' where r: "kept (mem_write key h v w e) e'" "frame (mem_write key h v w e) e'"
    "work e' \<le> work (mem_write key h v w e) + 4" "rep X g e' ess'"
    "same_view g (sources (mem_write key h v w e) ess) (sources e' ess')"
    "shrinks (sources (mem_write key h v w e) ess) (sources e' ess')"
    using assms(4) by (rule refinesE)
  have "\<forall>k. answer_ok g (if k = key then Some (h, v) else held (sources e ess) k) (held (sources e' ess') k)"
    using r(5) unfolding same_view_def hw .
  moreover have "sum_list (map length (sources e' ess')) \<le> Suc (sum_list (map length (sources e ess)))"
    using r(6) sw(1) unfolding shrinks_def by linarith
  moreover have "set (concat (sources e' ess')) \<subseteq> insert (key, h, v) (set (concat (sources e ess)))"
    using r(6) sw(2) unfolding shrinks_def by blast
  moreover have "work e' \<le> work e + 4" using r(3) by (simp add: mem_write_frame)
  ultimately show ?thesis
    using r(4) kept_trans [OF assms(3) r(1)] frame_trans [OF mem_write_frame(1) r(2)] unfolding wrote_def by blast
qed

lemma append_buffered_wrote:
  assumes "ext_ok X" "env_ok env" "rep X g e ess" "cutoff_le env e g" "roomy e" "newest_for (sources e ess) key h"
    "entry_ok (key, h, v)" "Suc (sum_list (map length (sources e ess))) < 1073741824"
  shows "\<not> plain e \<and> (\<exists>err. append_buffered X env key h v e = Fail err e) \<or>
    settles (plain e) (append_buffered X env key h v e) (wrote X g e ess key h v)"
proof (cases "append_op X h key (version_to_value v) (en_wal e)")
  case (Inl err)
  then show ?thesis using append_op_plain by (simp add: append_buffered_write)
next
  case (Inr wc)
  then obtain w c where w: "append_op X h key (version_to_value v) (en_wal e) = Inr (w, c)" by (cases wc) simp
  let ?e = "mem_write key h v w e"
  note k = kept_mem_write [OF w, of v]
  have "settles (plain ?e) (maybe_flush X env ?e) (refines X g 4 ?e ess)"
    using assms(4,5) cutoff_le_kept [OF k] mem_write_frame(3) rep_write [OF assms(3,6-8)]
    by (intro refines_maybe_flush [OF assms(1,2)]) simp_all
  then have "settles (plain e) (maybe_flush X env ?e) (wrote X g e ess key h v)"
    by (rule settles_mono) (use k wrote_refines [OF assms(3,6) k] in \<open>auto simp: kept_def\<close>)
  then have "settles (plain e) (obind (maybe_flush X env ?e) (\<lambda>_ e. Done c e)) (wrote X g e ess key h v)"
    by (rule settles_obind) simp_all
  then show ?thesis by (simp add: append_buffered_write w)
qed

text \<open>The clock is ahead of every stamp in the engine.\<close>

definition clock_ahead :: "engine \<Rightarrow> entry list list \<Rightarrow> bool" where
  "clock_ahead e ess \<longleftrightarrow> (\<forall>x \<in> set (concat (sources e ess)). fst (snd x) \<le> last_hlc (en_clock e))"

lemma clock_ahead_newest:
  assumes "clock_ahead e ess" "last_hlc (en_clock e) \<le> h"
  shows "newest_for (sources e ess) key h"
  unfolding newest_for_def
proof (intro ballI allI impI)
  fix s x assume "s \<in> set (sources e ess)" "map_of s key = Some x"
  then have "(key, x) \<in> set (concat (sources e ess))" by (auto dest: map_of_SomeD)
  then show "fst x \<le> h" using assms unfolding clock_ahead_def by fastforce
qed

end
