(* ===== verification/Engine_Log.thy ===== *)
theory Engine_Log
  imports Engine_Correct
begin

text \<open>
  The log of an engine. Under local writes the records of the segments and of the active file are a
  suffix of the history: the active memtable and every frozen memtable is the replay of its own part,
  and the last record of a key is the version the engine answers with. Writes, freezes, flushes and
  compactions keep this, so replaying the log over the tables gives the same answers.
\<close>

section \<open>The log as a map\<close>

definition record_of :: "bytes \<Rightarrow> hlc \<Rightarrow> version_value \<Rightarrow> wal_record" where
  "record_of key h v =
     \<lparr>wr_hlc = h, wr_key = key, wr_op = (case v of Put b \<Rightarrow> WalPut b | Delete \<Rightarrow> WalDelete)\<rparr>"

definition log_entry :: "wal_record \<Rightarrow> entry" where
  "log_entry r = (wr_key r, wr_hlc r, version_of_op (wr_op r))"

lemma log_entry_record_of [simp]: "log_entry (record_of key h v) = (key, h, v)"
  by (cases v) (simp_all add: log_entry_def record_of_def version_of_op_def)

lemma wal_append_record_of: "wal_append X (record_of key h v) w = append_op X h key (version_to_value v) w"
  by (cases v) (simp_all add: wal_append_def record_of_def version_to_value_def)

lemma entry_ok_record:
  assumes "entry_ok (key, h, v)"
  shows "rec_ok (record_of key h v)" "record_cost (record_of key h v) \<le> 2147483648"
  using assms by (cases v; simp add: entry_ok_def encode_entry_def rec_ok_def record_cost_def rec_payload_def op_payload_def
      record_of_def op_value_def)+

text \<open>The last record of the key.\<close>

definition log_map :: "wal_record list \<Rightarrow> bytes \<Rightarrow> (hlc \<times> version_value) option" where
  "log_map rs k = map_of (rev (map log_entry rs)) k"

lemma log_map_Nil [simp]: "log_map [] k = None"
  by (simp add: log_map_def)

lemma log_map_append: "log_map (a @ b) k = (case log_map b k of Some x \<Rightarrow> Some x | None \<Rightarrow> log_map a k)"
  by (auto simp: log_map_def map_add_def split: option.splits)

lemma log_map_snoc [simp]: "log_map (rs @ [record_of key h v]) k = (if k = key then Some (h, v) else log_map rs k)"
  by (simp add: log_map_def)

lemma log_map_SomeD: "log_map rs k = Some x \<Longrightarrow> \<exists>r \<in> set rs. log_entry r = (k, x)"
  unfolding log_map_def by (drule map_of_SomeD) (metis image_iff set_map set_rev)

text \<open>Replaying records with increasing stamps.\<close>

lemma replay_records_append:
  "replay_records (a @ b) m h = (case replay_records a m h of (m', h') \<Rightarrow> replay_records b m' h')"
  by (induction a arbitrary: m h) simp_all

lemma replay_log:
  assumes "sorted (map wr_hlc rs)"
  shows "mt_inv (fst (replay_records rs mt_new h0)) \<and>
    (\<forall>k. map_of (mt_iter_latest_lazy (fst (replay_records rs mt_new h0))) k = log_map rs k)"
  using assms
proof (induction rs rule: rev_induct)
  case Nil
  then show ?case using mt_inv_new by (simp add: mt_iter_latest_lazy_def mt_new_def)
next
  case (snoc r rs)
  let ?m = "fst (replay_records rs mt_new h0)"
  have IH: "mt_inv ?m" "\<And>k. mt_get_entry_versioned ?m k = log_map rs k"
    using snoc by (auto simp: sorted_append map_of_mt_iter_latest_lazy)
  have le: "fst x \<le> wr_hlc r" if "log_map rs (wr_key r) = Some x" for x
    using log_map_SomeD [OF that] snoc.prems by (auto simp: log_entry_def sorted_append)
  have "fst (replay_records (rs @ [r]) mt_new h0) = mt_insert (wr_key r) (wr_hlc r) (version_of_op (wr_op r)) ?m"
    by (simp add: replay_records_append split: prod.splits)
  moreover have "mt_get_entry_versioned (mt_insert (wr_key r) (wr_hlc r) (version_of_op (wr_op r)) ?m) k = log_map (rs @ [r]) k" for k
    using le by (auto simp: mt_get_entry_versioned_insert [OF IH(1)] IH(2) log_map_def log_entry_def leD split: option.splits)
  ultimately show ?case using IH(1) by (simp add: map_of_mt_iter_latest_lazy)
qed

section \<open>The invariant\<close>

definition covers :: "u64 \<Rightarrow> wal_record list \<Rightarrow> entry list list \<Rightarrow> bool" where
  "covers g rs ss \<longleftrightarrow> (\<forall>k x. log_map rs k = Some x \<longrightarrow> answer_ok g (held ss k) (Some x) \<and>
     (\<forall>y. (k, y) \<in> set (concat ss) \<longrightarrow> fst y \<le> fst x))"

text \<open>Segments \<open>old\<close> of flushed memtables that are still there, one segment per frozen memtable, the active file.\<close>

definition log_parts ::
    "externals \<Rightarrow> engine \<Rightarrow> (u64, wal_record list) btree \<Rightarrow> (u64, wal_record list) btree \<Rightarrow> wal_record list \<Rightarrow> bool" where
  "log_parts X e old cur rs \<longleftrightarrow>
     wal_rel X (op_kek (en_opts e)) (en_wal e) rs \<and>
     segs_rel X (op_kek (en_opts e)) (wal_segs (en_wal e)) (old @ cur) \<and>
     (\<forall>k. map_of (mt_iter_latest_lazy (en_mem e)) k = log_map rs k) \<and>
     list_all2 (\<lambda>f s. fst s = fm_wal_seq f \<and> (\<forall>k. map_of (mt_iter_latest_lazy (fm_mem f)) k = log_map (snd s) k)) (en_frozen e) cur \<and>
     (\<forall>s \<in> set (old @ cur). fst s < en_next_wal_seq e)"

definition log_ok :: "externals \<Rightarrow> u64 \<Rightarrow> engine \<Rightarrow> entry list list \<Rightarrow> bool" where
  "log_ok X g e ess \<longleftrightarrow> (\<exists>old cur rs. log_parts X e old cur rs \<and>
     sorted (map wr_hlc (log_contents (old @ cur, rs))) \<and>
     (\<forall>r \<in> set (log_contents (old @ cur, rs)). wr_hlc r \<le> last_hlc (en_clock e)) \<and>
     covers g (log_contents (old @ cur, rs)) (sources e ess))"

lemma covers_view:
  assumes "covers g rs ss" "same_view g ss ss'" "set (concat ss') \<subseteq> set (concat ss)"
  shows "covers g rs ss'"
  using assms answer_ok_trans answer_ok_sym unfolding covers_def same_view_def by blast

lemma frozen_parts:
  assumes "map (\<lambda>f. (fm_mem f, fm_wal_seq f)) fs' = map (\<lambda>f. (fm_mem f, fm_wal_seq f)) fs"
  shows "list_all2 (\<lambda>f s. R s (fm_wal_seq f) (fm_mem f)) fs' cur = list_all2 (\<lambda>f s. R s (fm_wal_seq f) (fm_mem f)) fs cur"
proof -
  have "list_all2 (\<lambda>f s. R s (fm_wal_seq f) (fm_mem f)) gs cur =
      list_all2 (\<lambda>x s. R s (snd x) (fst x)) (map (\<lambda>f. (fm_mem f, fm_wal_seq f)) gs) cur" for gs
    by (simp add: list_all2_map1)
  from this [of fs'] this [of fs] show ?thesis unfolding assms by simp
qed

lemma log_ok_view:
  assumes "log_ok X g e ess" "same_view g (sources e ess) (sources e' ess')" "shrinks (sources e ess) (sources e' ess')"
    "en_opts e' = en_opts e" "en_wal e' = en_wal e" "en_mem e' = en_mem e"
    "map (\<lambda>f. (fm_mem f, fm_wal_seq f)) (en_frozen e') = map (\<lambda>f. (fm_mem f, fm_wal_seq f)) (en_frozen e)"
    "en_next_wal_seq e' = en_next_wal_seq e" "en_clock e' = en_clock e"
  shows "log_ok X g e' ess'"
proof -
  obtain old cur rs where l: "log_parts X e old cur rs" "sorted (map wr_hlc (log_contents (old @ cur, rs)))"
    "\<forall>r \<in> set (log_contents (old @ cur, rs)). wr_hlc r \<le> last_hlc (en_clock e)"
    "covers g (log_contents (old @ cur, rs)) (sources e ess)"
    using assms(1) unfolding log_ok_def by blast
  have "covers g (log_contents (old @ cur, rs)) (sources e' ess')"
    using covers_view [OF l(4) assms(2)] assms(3) by (simp add: shrinks_def)
  moreover have "log_parts X e' old cur rs" using l(1) frozen_parts [OF assms(7), of "\<lambda>s seq m. fst s = seq \<and> (\<forall>k. map_of (mt_iter_latest_lazy m) k = log_map (snd s) k)" cur]
    by (simp add: log_parts_def assms(4-6,8))
  ultimately show ?thesis using l(2,3) unfolding log_ok_def assms(9) by blast
qed

section \<open>Every step keeps the log\<close>

text \<open>The bytes the log may still take.\<close>

definition log_size :: "engine \<Rightarrow> nat" where
  "log_size e = max (unat (ws_write_offset (wal_sync (en_wal e)))) 70"

definition log_room :: "engine \<Rightarrow> bool" where
  "log_room e \<longleftrightarrow> log_size e + 2147483648 + unat (wal_prealloc_chunk (en_wal e)) < 2 ^ 64 \<and>
     Suc (unat (en_next_wal_seq e)) < 2 ^ 64"

lemma covers_write:
  assumes "covers g rs ss" "\<forall>k. held ss' k = (if k = key then Some (h, v) else held ss k)"
    "set (concat ss') \<subseteq> insert (key, h, v) (set (concat ss))" "\<forall>x \<in> set (concat ss). fst (snd x) \<le> h"
  shows "covers g (rs @ [record_of key h v]) ss'"
  unfolding covers_def log_map_snoc
proof (intro allI impI)
  fix k x assume x: "(if k = key then Some (h, v) else log_map rs k) = Some x"
  show "answer_ok g (held ss' k) (Some x) \<and> (\<forall>y. (k, y) \<in> set (concat ss') \<longrightarrow> fst y \<le> fst x)"
  proof (cases "k = key")
    case True
    then have h: "fst x = h" "held ss' k = Some x" using x assms(2) by auto
    have "fst y \<le> h" if y: "(k, y) \<in> set (concat ss')" for y
    proof (cases "(k, y) = (key, h, v)")
      case False
      then have "(k, y) \<in> set (concat ss)" using y assms(3) by blast
      then show ?thesis using bspec [OF assms(4)] by fastforce
    qed simp
    then show ?thesis using h by simp
  next
    case False
    then have l: "log_map rs k = Some x" "held ss' k = held ss k" using x assms(2) by auto
    have "(k, y) \<in> set (concat ss)" if "(k, y) \<in> set (concat ss')" for y using that False assms(3) by blast
    then show ?thesis using assms(1) l(1) unfolding covers_def l(2) by blast
  qed
qed

lemma log_write:
  assumes X: "aead_ok X" and l: "log_ok X g e ess" and m: "mt_inv (en_mem e)" "newest_for (sources e ess) key h"
    and h: "last_hlc (en_clock e) \<le> h" "clock_ahead e ess" "entry_ok (key, h, v)"
    and app: "append_op X h key (version_to_value v) (en_wal e) = Inr (w, c)" and room: "log_room e"
  shows "log_ok X g ((mem_write key h v w e)\<lparr>en_clock := \<lparr>last_hlc = h\<rparr>\<rparr>) ess"
    "log_size (mem_write key h v w e) \<le> log_size e + 2147483648"
    "wal_prealloc_chunk (en_wal (mem_write key h v w e)) = wal_prealloc_chunk (en_wal e)"
proof -
  let ?e = "mem_write key h v w e" and ?r = "record_of key h v"
  obtain old cur rs where p: "log_parts X e old cur rs" "sorted (map wr_hlc (log_contents (old @ cur, rs)))"
    "\<forall>r \<in> set (log_contents (old @ cur, rs)). wr_hlc r \<le> last_hlc (en_clock e)"
    "covers g (log_contents (old @ cur, rs)) (sources e ess)"
    using l unfolding log_ok_def by blast
  have step: "wal_step X (EvAppend ?r) (en_wal e) = Inr w" using app by (simp add: wal_append_record_of)
  have fits: "max (unat (ws_write_offset (wal_sync (en_wal e)))) 70 + event_cost (EvAppend ?r) +
      unat (wal_prealloc_chunk (en_wal e)) < 2 ^ 64"
    using room entry_ok_record(2) [OF h(3)] by (simp add: log_room_def log_size_def)
  have rel: "wal_rel X (op_kek (en_opts e)) (en_wal e) rs" "segs_rel X (op_kek (en_opts e)) (wal_segs (en_wal e)) (old @ cur)"
    using p(1) by (simp_all add: log_parts_def)
  note st = wal_step_refines [OF X rel _ step fits]
  have w: "wal_rel X (op_kek (en_opts e)) w (rs @ [?r])" "segs_rel X (op_kek (en_opts e)) (wal_segs w) (old @ cur)"
    "max (unat (ws_write_offset (wal_sync w))) 70 \<le> log_size e + record_cost ?r" "wal_prealloc_chunk w = wal_prealloc_chunk (en_wal e)"
    using st entry_ok_record(1) [OF h(3)] by (simp_all add: log_size_def)
  have fields: "en_wal ?e = w" "en_opts ?e = en_opts e" "en_frozen ?e = en_frozen e" "en_next_wal_seq ?e = en_next_wal_seq e"
    by (simp_all add: mem_write_def)
  show "log_size ?e \<le> log_size e + 2147483648" "wal_prealloc_chunk (en_wal ?e) = wal_prealloc_chunk (en_wal e)"
    using w(3,4) entry_ok_record(2) [OF h(3)] by (simp_all add: log_size_def fields)
  have "map_of (mt_iter_latest_lazy (en_mem ?e)) k = log_map (rs @ [?r]) k" for k
    by (rule write_split [OF m, of v w]) (use p(1) in \<open>simp add: log_parts_def mem_lists_def memtables_def\<close>)
  then have "log_parts X (?e\<lparr>en_clock := \<lparr>last_hlc = h\<rparr>\<rparr>) old cur (rs @ [?r])"
    using p(1) w(1,2) by (simp add: log_parts_def fields)
  moreover have c: "log_contents (old @ cur, rs @ [?r]) = log_contents (old @ cur, rs) @ [?r]" by (simp add: log_contents_def)
  moreover have ht: "wr_hlc ?r = h" by (simp add: record_of_def)
  have "sorted (map wr_hlc (log_contents (old @ cur, rs) @ [?r]))" "\<forall>r \<in> set (log_contents (old @ cur, rs) @ [?r]). wr_hlc r \<le> h"
    using p(2,3) h(1) by (auto simp: sorted_append ht)
  moreover have "covers g (log_contents (old @ cur, rs) @ [?r]) (sources (?e\<lparr>en_clock := \<lparr>last_hlc = h\<rparr>\<rparr>) ess)"
  proof (rule covers_write [OF p(4)])
    have s: "sources (?e\<lparr>en_clock := \<lparr>last_hlc = h\<rparr>\<rparr>) ess = sources ?e ess" by (simp add: mem_lists_def memtables_def)
    show "\<forall>k. held (sources (?e\<lparr>en_clock := \<lparr>last_hlc = h\<rparr>\<rparr>) ess) k = (if k = key then Some (h, v) else held (sources e ess) k)"
      unfolding s using held_write(1) [OF m] by blast
    show "set (concat (sources (?e\<lparr>en_clock := \<lparr>last_hlc = h\<rparr>\<rparr>) ess)) \<subseteq> insert (key, h, v) (set (concat (sources e ess)))"
      unfolding s by (rule sources_write(2) [OF m])
    show "\<forall>x \<in> set (concat (sources e ess)). fst (snd x) \<le> h" using h(1,2) unfolding clock_ahead_def by (meson order.trans)
  qed
  ultimately show "log_ok X g (?e\<lparr>en_clock := \<lparr>last_hlc = h\<rparr>\<rparr>) ess"
    unfolding log_ok_def by (intro exI [of _ old] exI [of _ cur] exI [of _ "rs @ [?r]"]) simp
qed

lemma bt_insert_last: "\<forall>x \<in> set xs. fst x < k \<Longrightarrow> bt_insert k v xs = xs @ [(k, v)]"
  by (induction xs) auto

lemma log_freeze:
  assumes X: "aead_ok X" "env_ok env" and l: "log_ok X g e ess" and fr: "freeze X env e = Done u e'" and room: "log_room e"
  shows "log_ok X g e' ess" "log_size e' \<le> log_size e" "wal_prealloc_chunk (en_wal e') = wal_prealloc_chunk (en_wal e)"
    "en_next_wal_seq e' = en_next_wal_seq e + 1"
proof -
  let ?rk = "fst (ev_wal_rng env (ws_generation (wal_sync (en_wal e)) + 1))"
  let ?rn = "snd (ev_wal_rng env (ws_generation (wal_sync (en_wal e)) + 1))"
  let ?f = "\<lparr>fm_mem = en_mem e, fm_wal_seq = en_next_wal_seq e, fm_max_hlc = mt_max_hlc (en_mem e), fm_building = False\<rparr>"
  obtain w where w: "wal_rotate X (en_next_wal_seq e) ?rk ?rn (en_wal e) = Inr w"
    and e': "e' = e\<lparr>en_next_wal_seq := en_next_wal_seq e + 1, en_wal := w, en_mem := mt_new, en_frozen := en_frozen e @ [?f]\<rparr>"
    using fr by (rule freeze_done)
  obtain old cur rs where p: "log_parts X e old cur rs" "sorted (map wr_hlc (log_contents (old @ cur, rs)))"
    "\<forall>r \<in> set (log_contents (old @ cur, rs)). wr_hlc r \<le> last_hlc (en_clock e)"
    "covers g (log_contents (old @ cur, rs)) (sources e ess)"
    using l unfolding log_ok_def by blast
  have rel: "wal_rel X (op_kek (en_opts e)) (en_wal e) rs" "segs_rel X (op_kek (en_opts e)) (wal_segs (en_wal e)) (old @ cur)"
    "\<forall>s \<in> set (old @ cur). fst s < en_next_wal_seq e"
    using p(1) by (simp_all add: log_parts_def)
  have step: "wal_step X (EvRotate (en_next_wal_seq e) ?rk ?rn) (en_wal e) = Inr w" using w by simp
  have fits: "max (unat (ws_write_offset (wal_sync (en_wal e)))) 70 + event_cost (EvRotate (en_next_wal_seq e) ?rk ?rn) +
      unat (wal_prealloc_chunk (en_wal e)) < 2 ^ 64"
    using room by (simp add: log_room_def log_size_def)
  note st = wal_step_refines [OF X(1) rel(1,2) _ step fits]
  have ok: "event_ok (EvRotate (en_next_wal_seq e) ?rk ?rn)" using X(2) by (simp add: env_ok_def)
  have w': "wal_rel X (op_kek (en_opts e)) w []" "segs_rel X (op_kek (en_opts e)) (wal_segs w) (old @ cur @ [(en_next_wal_seq e, rs)])"
    using st(1,2) [OF ok] bt_insert_last [OF rel(3), of rs] by simp_all
  show "log_size e' \<le> log_size e" "wal_prealloc_chunk (en_wal e') = wal_prealloc_chunk (en_wal e)"
    "en_next_wal_seq e' = en_next_wal_seq e + 1"
    using st(3,4) [OF ok] by (simp_all add: e' log_size_def)
  have lt: "en_next_wal_seq e < en_next_wal_seq e + 1"
    using room by (simp add: log_room_def word_less_nat_alt unat_word_ariths)
  have "\<forall>s \<in> set (old @ cur @ [(en_next_wal_seq e, rs)]). fst s < en_next_wal_seq e + 1"
    using rel(3) lt by (auto intro: order.strict_trans)
  moreover have "list_all2 (\<lambda>f s. fst s = fm_wal_seq f \<and> (\<forall>k. map_of (mt_iter_latest_lazy (fm_mem f)) k = log_map (snd s) k))
      (en_frozen e @ [?f]) (cur @ [(en_next_wal_seq e, rs)])"
    using p(1) by (intro list_all2_appendI) (simp_all add: log_parts_def)
  ultimately have "log_parts X e' old (cur @ [(en_next_wal_seq e, rs)]) []"
    using w' by (simp add: log_parts_def e' mt_iter_latest_lazy_def mt_new_def)
  moreover have "log_contents (old @ cur @ [(en_next_wal_seq e, rs)], []) = log_contents (old @ cur, rs)" by (simp add: log_contents_def)
  moreover have "covers g (log_contents (old @ cur, rs)) (sources e' ess)"
    by (rule covers_view [OF p(4)]) (simp_all add: same_view_def e' mem_lists_def memtables_def mt_iter_latest_lazy_def mt_new_def)
  moreover have "en_clock e' = en_clock e" by (simp add: e')
  ultimately show "log_ok X g e' ess"
    using p(2,3) unfolding log_ok_def by (intro exI [of _ old] exI [of _ "cur @ [(en_next_wal_seq e, rs)]"] exI [of _ "[]"]) simp
qed

text \<open>Dropping a prefix of the log leaves the last record of every key it still has.\<close>

lemma covers_suffix: "covers g (a @ b) ss \<Longrightarrow> covers g b ss"
proof -
  assume c: "covers g (a @ b) ss"
  have "log_map (a @ b) k = Some x" if "log_map b k = Some x" for k x using that by (simp add: log_map_append)
  then show ?thesis using c unfolding covers_def by blast
qed

lemma drop_older_segments:
  assumes "bt_ok (old @ s # cur)"
  shows "filter (\<lambda>x. \<not> fst x \<le> fst s) (old @ s # cur) = cur"
proof -
  have "filter (\<lambda>x. \<not> fst x \<le> fst s) old = []" "filter (\<lambda>x. \<not> fst x \<le> fst s) cur = cur"
    using assms by (auto simp: sorted_wrt_append filter_empty_conv filter_id_conv not_le)
  then show ?thesis by simp
qed

lemma segs_rel_keys: "segs_rel X ko segs asegs \<Longrightarrow> map fst asegs = map fst segs"
  unfolding segs_rel_def by (auto simp: list_all2_conv_all_nth intro!: nth_equalityI)

lemma log_install_flush:
  assumes X: "aead_ok X" and l: "log_ok X g e ess" and fz: "en_frozen e = f # fs" "fm_wal_seq f = fj_wal_seq job"
    and src: "sources (install_flush job t e) ess' = sources e ess"
  shows "log_ok X g (install_flush job t e) ess'" "log_size (install_flush job t e) = log_size e"
    "wal_prealloc_chunk (en_wal (install_flush job t e)) = wal_prealloc_chunk (en_wal e)"
    "en_next_wal_seq (install_flush job t e) = en_next_wal_seq e"
proof -
  let ?e = "install_flush job t e"
  obtain old cur rs where p: "log_parts X e old cur rs" "sorted (map wr_hlc (log_contents (old @ cur, rs)))"
    "\<forall>r \<in> set (log_contents (old @ cur, rs)). wr_hlc r \<le> last_hlc (en_clock e)"
    "covers g (log_contents (old @ cur, rs)) (sources e ess)"
    using l unfolding log_ok_def by blast
  obtain s cur' where cur: "cur = s # cur'" "fst s = fm_wal_seq f"
    using p(1) by (auto simp: log_parts_def fz list_all2_Cons1)
  have segs: "segs_rel X (op_kek (en_opts e)) (wal_segs (en_wal e)) (old @ s # cur')"
    using p(1) by (simp add: log_parts_def cur)
  let ?keep = "(case fm_max_hlc f of Some h \<Rightarrow> h \<le> en_maint_watermark e | None \<Rightarrow> True)"
  let ?w = "if ?keep then drop_segments_through (fm_wal_seq f) (en_wal e) else en_wal e"
  have fields: "en_wal ?e = ?w" "en_clock ?e = en_clock e" "en_next_wal_seq ?e = en_next_wal_seq e"
    using fz by (auto simp: install_flush_def persist_manifest_def Let_def extract_Cons_code split: option.splits)
  note ff = install_flush_fields [OF fz, of t]
  have d: "wal_rel X ko (drop_segments_through q w) rs' = wal_rel X ko w rs'" "wal_sync (drop_segments_through q w) = wal_sync w"
    "wal_prealloc_chunk (drop_segments_through q w) = wal_prealloc_chunk w" for ko q w rs'
    by (simp_all add: drop_segments_through_def wal_rel_def)
  show "log_size ?e = log_size e" "wal_prealloc_chunk (en_wal ?e) = wal_prealloc_chunk (en_wal e)"
    "en_next_wal_seq ?e = en_next_wal_seq e"
    by (simp_all add: log_size_def fields d)
  let ?old = "if ?keep then [] else old @ [s]"
  have "segs_rel X (op_kek (en_opts e)) (wal_segs ?w) (?old @ cur')"
  proof (cases ?keep)
    case True
    have "bt_ok (old @ s # cur')" using segs segs_rel_keys [OF segs] by (simp add: segs_rel_def)
    then show ?thesis
      using segs_rel_filter [OF segs, of "\<lambda>q. \<not> q \<le> fm_wal_seq f"] drop_older_segments [of old s cur'] True
      by (simp add: drop_segments_through_def cur(2))
  qed (use segs in simp)
  moreover have "set (?old @ cur') \<subseteq> set (old @ cur)" by (auto simp: cur)
  ultimately have parts: "log_parts X ?e ?old cur' rs"
    using p(1) fz(1) cur by (auto simp: log_parts_def fields ff d)
  obtain pre where pre: "log_contents (old @ cur, rs) = pre @ log_contents (?old @ cur', rs)"
    by (cases ?keep) (auto simp: log_contents_def cur)
  have "covers g (log_contents (?old @ cur', rs)) (sources ?e ess')" unfolding src by (rule covers_suffix [OF p(4) [unfolded pre]])
  moreover have "sorted (map wr_hlc (log_contents (?old @ cur', rs)))"
    "\<forall>r \<in> set (log_contents (?old @ cur', rs)). wr_hlc r \<le> last_hlc (en_clock ?e)"
    using p(2,3) unfolding pre by (simp_all add: sorted_append fields)
  ultimately show "log_ok X g ?e ess'" using parts unfolding log_ok_def by blast
qed

section \<open>Flushes and compactions\<close>

lemma obind_DoneE:
  assumes "obind m f = Done y e'"
  obtains x e where "m = Done x e" "f x e = Done y e'"
  using assms by (cases m) auto

lemma rep_unique: "rep X g e ess \<Longrightarrow> rep X g e ess' \<Longrightarrow> ess = ess'"
proof -
  assume "rep X g e ess" "rep X g e ess'"
  then have "list_all2 (\<lambda>t. sst_holds X (tb_sst t)) (sstables_newest_first e) ess"
    "list_all2 (\<lambda>t. sst_holds X (tb_sst t)) (sstables_newest_first e) ess'"
    using eng_okD(2) repD(1) by blast+
  then show "ess = ess'"
  proof (intro nth_equalityI [of ess ess'])
    fix i assume "i < length ess"
    with \<open>list_all2 _ _ ess\<close> \<open>list_all2 _ _ ess'\<close> show "ess ! i = ess' ! i"
      using sst_holds_unique unfolding list_all2_conv_all_nth by metis
  qed (metis list_all2_lengthD)
qed

text \<open>The manifest on disk names the live tables.\<close>

definition manifest_ok :: "engine \<Rightarrow> bool" where
  "manifest_ok e \<longleftrightarrow> (case dk_manifest (en_disk e) of
     Some text \<Rightarrow> text = manifest_text (map tb_path (en_l0 e)) (map tb_path (en_levels e))
   | None \<Rightarrow> en_l0 e = [] \<and> en_levels e = [])"

lemma manifest_ok_cong:
  "dk_manifest (en_disk e') = dk_manifest (en_disk e) \<Longrightarrow> map tb_path (en_l0 e') = map tb_path (en_l0 e) \<Longrightarrow>
    map tb_path (en_levels e') = map tb_path (en_levels e) \<Longrightarrow> manifest_ok e' = manifest_ok e"
  by (auto simp: manifest_ok_def split: option.splits)

definition log_grows :: "nat \<Rightarrow> engine \<Rightarrow> engine \<Rightarrow> bool" where
  "log_grows n e e' \<longleftrightarrow> log_size e' \<le> log_size e \<and> wal_prealloc_chunk (en_wal e') = wal_prealloc_chunk (en_wal e) \<and>
     unat (en_next_wal_seq e') \<le> unat (en_next_wal_seq e) + n"

lemma log_grows_trans: "log_grows m a b \<Longrightarrow> log_grows n b c \<Longrightarrow> log_grows (m + n) a c"
  by (simp add: log_grows_def)

lemma install_flush_manifest: "manifest_ok (install_flush job t e)"
  by (auto simp: manifest_ok_def install_flush_def persist_manifest_def Let_def split: option.splits)

lemma log_flush_loop:
  assumes "ext_ok X" "env_ok env" "rep X g e ess" "log_ok X g e ess" "manifest_ok e" "work e + 1 < 2 ^ 64"
    "flush_loop X env e = Done u e'" "rep X g e' ess'"
  shows "log_ok X g e' ess' \<and> manifest_ok e' \<and> log_grows 0 e e'"
  using assms(3-)
proof (induction "length (en_frozen e)" arbitrary: e ess rule: less_induct)
  case less
  obtain j e1 where j: "take_flush_job e = (j, e1)" by force
  show ?case
  proof (cases j)
    case None
    then have "e1 = e" using j take_flush_job_none by blast
    then have "e' = e" using less.prems(5) j None by (subst (asm) flush_loop.simps) auto
    then have "ess' = ess" using less.prems(1,6) rep_unique by blast
    then show ?thesis using less.prems \<open>e' = e\<close> by (simp add: log_grows_def)
  next
    case (Some job)
    note jS = j [unfolded Some]
    have w: "work e < 2 ^ 64" using less.prems(4) by simp
    obtain f fs where f: "en_frozen e = f # fs" "en_frozen e1 = f\<lparr>fm_building := True\<rparr> # fs"
      and job: "job = \<lparr>fj_mem = fm_mem f, fj_path = table_name (en_next_seq e), fj_codec = op_compression (en_opts e),
        fj_wal_seq = fm_wal_seq f, fj_kek = op_kek (en_opts e), fj_encrypt_new = op_at_rest_enabled (en_opts e)\<rparr>"
      and e1: "e1 = e\<lparr>en_next_seq := en_next_seq e + 1, en_frozen := en_frozen e1\<rparr>"
      by (rule take_flush_job_fields [OF jS])
    from flush_round [OF assms(1,2) less.prems(1) jS w] show ?thesis
    proof (elim disjE exE conjE)
      fix t d ess2 assume b: "build_flush X env job (en_disk e1) = Some (Inr t, d)"
        and l: "let e2 = install_flush job t (e1\<lparr>en_disk := d\<rparr>)
          in rep X g e2 ess2 \<and> sources e2 ess2 = sources e ess \<and> kept e e2 \<and> frame e e2 \<and> work e2 = work e \<and>
            length (en_frozen e2) < length (en_frozen e)"
      let ?e1 = "e1\<lparr>en_disk := d\<rparr>"
      define e2 where "e2 = install_flush job t ?e1"
      have e2: "rep X g e2 ess2" "sources e2 ess2 = sources e ess" "work e2 = work e"
        "length (en_frozen e2) < length (en_frozen e)"
        using l by (simp_all add: e2_def Let_def)
      have same: "en_opts ?e1 = en_opts e" "en_wal ?e1 = en_wal e" "en_mem ?e1 = en_mem e" "en_next_wal_seq ?e1 = en_next_wal_seq e"
        "en_clock ?e1 = en_clock e"
        by (subst e1, simp)+
      have src: "sources ?e1 ess = sources e ess" using f by (simp add: mem_lists_def memtables_def same(3) [simplified])
      have l1: "log_ok X g ?e1 ess"
        by (rule log_ok_view [OF less.prems(2)]) (use f src same in simp_all)
      have fz: "en_frozen ?e1 = f\<lparr>fm_building := True\<rparr> # fs" "fm_wal_seq (f\<lparr>fm_building := True\<rparr>) = fj_wal_seq job"
        using f by (simp_all add: job)
      have aead: "aead_ok X" using assms(1) by (simp add: ext_ok_def)
      note li = log_install_flush [OF aead l1 fz, of t ess2, folded e2_def, unfolded src, OF e2(2)]
      have "log_grows 0 e e2" using li(2-4) same by (simp add: log_grows_def log_size_def)
      moreover have "flush_loop X env e = flush_loop X env e2" by (subst flush_loop.simps) (simp add: j Some b e2_def)
      moreover have "manifest_ok e2" by (simp add: e2_def install_flush_manifest)
      ultimately show ?thesis
        using less.hyps [OF e2(4,1) li(1)] less.prems(4-) e2(3) log_grows_trans [of 0 e e2 0 e'] by simp
    next
      fix err assume "build_flush X env job (en_disk e1) = Some (Inl err, en_disk e1)"
      then have "flush_loop X env e = Fail err e1" by (subst flush_loop.simps) (simp add: j Some)
      then show ?thesis using less.prems(5) by simp
    qed
  qed
qed

text \<open>A compaction touches neither the log nor the memtables.\<close>

definition same_log :: "engine \<Rightarrow> engine \<Rightarrow> bool" where
  "same_log e e' \<longleftrightarrow> en_opts e' = en_opts e \<and> en_wal e' = en_wal e \<and> en_mem e' = en_mem e \<and> en_frozen e' = en_frozen e \<and>
     en_next_wal_seq e' = en_next_wal_seq e \<and> en_clock e' = en_clock e"

lemma cascade_same_log:
  assumes "cascade_loop X env level retired e = Done r e'"
  shows "same_log e e'"
  using assms
proof (induction "length (en_levels e) - level" arbitrary: level retired e rule: less_induct)
  case less
  show ?case
  proof (cases "level \<ge> length (en_levels e) \<or> sst_len (tb_sst (en_levels e ! level)) \<le> level_capacity e level")
    case True
    then show ?thesis using less.prems by (subst (asm) cascade_loop.simps) (simp add: same_log_def)
  next
    case False
    then have lv: "level < length (en_levels e)" by simp
    obtain run d r' where run: "cascade_loop X env (level + 1) r' (cascade_next e level run d) = Done r e'"
      using less.prems cascade_step [of level e X env retired] False by (auto split: option.splits sum.splits)
    have "same_log e (cascade_next e level run d)" by (simp add: same_log_def cascade_next_def)
    then show ?thesis using less.hyps [OF cascade_next_fields(10) [OF lv] run] by (simp add: same_log_def)
  qed
qed

lemma compact_done:
  assumes "maybe_compact X env e = Done u e'"
  shows "same_log e e' \<and> (manifest_ok e \<longrightarrow> manifest_ok e')"
proof (cases "length (en_l0 e) < op_l0_compaction_trigger (en_opts e)")
  case True
  then show ?thesis using assms by (simp add: maybe_compact_def same_log_def)
next
  case False
  obtain run d r e1 where c: "cascade_loop X env 0 (map tb_path (en_l0 e @ take 1 (en_levels e))) (compact_next e run d) = Done r e1"
    and e': "e' = (persist_manifest e1)\<lparr>en_disk := remove_files r (en_disk (persist_manifest e1))\<rparr>"
  proof -
    assume th: "\<And>run d r e1. cascade_loop X env 0 (map tb_path (en_l0 e @ take 1 (en_levels e))) (compact_next e run d) = Done r e1 \<Longrightarrow>
      e' = (persist_manifest e1)\<lparr>en_disk := remove_files r (en_disk (persist_manifest e1))\<rparr> \<Longrightarrow> thesis"
    obtain run d where "obind (cascade_loop X env 0 (map tb_path (en_l0 e @ take 1 (en_levels e))) (compact_next e run d)) (\<lambda>retired e.
        Done () ((persist_manifest e)\<lparr>en_disk := remove_files retired (en_disk (persist_manifest e))\<rparr>)) = Done u e'"
      using assms unfolding compact_step [OF False] by (auto split: option.splits sum.splits)
    then show thesis
      by (cases "cascade_loop X env 0 (map tb_path (en_l0 e @ take 1 (en_levels e))) (compact_next e run d)") (auto intro: th)
  qed
  have "same_log e (compact_next e run d)" by (simp add: same_log_def compact_next_def)
  moreover have "same_log e1 e'" by (simp add: e' same_log_def persist_manifest_def)
  moreover have "manifest_ok e'" by (simp add: e' manifest_ok_def persist_manifest_def)
  ultimately show ?thesis using cascade_same_log [OF c] by (simp add: same_log_def)
qed

lemma same_log_grows: "same_log e e' \<Longrightarrow> log_grows 0 e e'"
  by (simp add: same_log_def log_grows_def log_size_def)

lemma log_grows_mono: "log_grows m e e' \<Longrightarrow> m \<le> n \<Longrightarrow> log_grows n e e'"
  by (simp add: log_grows_def)

text \<open>What an operation must find, and what it leaves, for its log and files.\<close>

definition durable :: "externals \<Rightarrow> u64 \<Rightarrow> engine \<Rightarrow> entry list list \<Rightarrow> bool" where
  "durable X g e ess \<longleftrightarrow> rep X g e ess \<and> log_ok X g e ess \<and> manifest_ok e"

lemma durable_refl:
  assumes "durable X g e ess" "rep X g e ess'"
  shows "durable X g e ess' \<and> log_grows n e e"
proof -
  have "rep X g e ess" using assms(1) by (simp add: durable_def)
  from rep_unique [OF this assms(2)] show ?thesis using assms(1) by (simp add: log_grows_def)
qed

lemma durable_freeze:
  assumes "ext_ok X" "env_ok env" "durable X g e ess" "log_room e" "freeze X env e = Done u e'"
  shows "durable X g e' ess \<and> log_grows 1 e e'"
proof -
  have d: "rep X g e ess" "log_ok X g e ess" "manifest_ok e" "aead_ok X" using assms(1,3) by (simp_all add: durable_def ext_ok_def)
  have "manifest_ok e' = manifest_ok e" using assms(5) by (elim freeze_done) (rule manifest_ok_cong, simp_all)
  moreover have "unat (en_next_wal_seq e + 1) = Suc (unat (en_next_wal_seq e))"
    using assms(4) by (simp add: log_room_def unat_word_ariths)
  ultimately show ?thesis
    using rep_freeze(1) [OF d(1)] log_freeze [OF d(4) assms(2) d(2) assms(5,4)] assms(5) d(3) by (simp add: durable_def log_grows_def)
qed

lemma durable_flush_loop:
  assumes "ext_ok X" "env_ok env" "durable X g e ess" "work e + 1 < 2 ^ 64" "flush_loop X env e = Done u e'" "rep X g e' ess'"
  shows "durable X g e' ess' \<and> log_grows 0 e e'"
  using log_flush_loop [OF assms(1,2) _ _ _ assms(4-6), of ess] assms(3,6) by (simp add: durable_def)

lemma durable_compact:
  assumes "durable X g e ess" "maybe_compact X env e = Done u e'" "refines X g c e ess e'" "rep X g e' ess'"
  shows "durable X g e' ess' \<and> log_grows 0 e e'"
proof -
  have c: "same_log e e'" "manifest_ok e'" using compact_done [OF assms(2)] assms(1) by (simp_all add: durable_def)
  obtain ess2 where "rep X g e' ess2" "same_view g (sources e ess) (sources e' ess2)" "shrinks (sources e ess) (sources e' ess2)"
    using assms(3) by (rule refinesE)
  then have v: "same_view g (sources e ess) (sources e' ess')" "shrinks (sources e ess) (sources e' ess')"
    using rep_unique [OF assms(4)] by blast+
  have "log_ok X g e ess" using assms(1) by (simp add: durable_def)
  then have "log_ok X g e' ess'" by (rule log_ok_view [OF _ v]) (use c(1) in \<open>simp_all add: same_log_def\<close>)
  then show ?thesis using c assms(4) same_log_grows by (simp add: durable_def)
qed

lemma durable_flush:
  assumes "ext_ok X" "env_ok env" "durable X g e ess" "cutoff_le env e g" "roomy e" "log_room e"
    "flush X env e = Done u e'" "rep X g e' ess'"
  shows "durable X g e' ess' \<and> log_grows 1 e e'"
proof (cases "op_ephemeral (en_opts e)")
  case True
  then have "e' = e" using assms(7) by (simp add: flush_def)
  then show ?thesis using durable_refl assms(3,8) by blast
next
  case False
  obtain e1 e2 where e1: "(if mt_is_empty (en_mem e) then Done () e else freeze X env e) = Done () e1"
    and e2: "flush_loop X env e1 = Done () e2" and e3: "maybe_compact X env e2 = Done u e'"
    using assms(7) False by (auto simp: flush_def elim!: obind_DoneE)
  have d1: "durable X g e1 ess" "log_grows 1 e e1" "rep X g e ess"
    using durable_freeze [OF assms(1-3,6)] e1 assms(3) by (auto simp: durable_def log_grows_def split: if_splits)
  have r1: "refines X g 1 e ess e1"
    using refines_freeze [OF d1(3), of env] e1 refines_refl [OF d1(3)] by (auto split: if_splits)
  have rep1: "rep X g e1 ess" using d1(1) by (simp add: durable_def)
  have room: "length (en_levels e) \<le> 1" "work e + 8 < 2 ^ 64" using assms(5) by (simp_all add: roomy_def)
  have w1: "work e1 + 1 < 2 ^ 64" "work e1 \<le> work e + 1" "frame e e1" "kept e e1" using r1 room by (auto simp: refines_def)
  have r2: "refines X g 1 e1 ess e2" using refines_flush_loop [OF assms(1,2) rep1 w1(1)] e2 by simp
  then obtain ess2 where ess2: "rep X g e2 ess2" "frame e1 e2" "work e2 \<le> work e1 + 1" "kept e1 e2" by (rule refinesE)
  have d2: "durable X g e2 ess2" "log_grows 0 e1 e2"
    using durable_flush_loop [OF assms(1,2) d1(1) w1(1) e2 ess2(1)] by blast+
  have "settles (plain e2) (maybe_compact X env e2) (refines X g 2 e2 ess2)"
  proof (rule rep_maybe_compact [OF assms(1,2) ess2(1)])
    show "cutoff_le env e2 g" using assms(4) cutoff_le_kept [OF kept_trans [OF w1(4) ess2(4)]] by simp
    show "length (en_levels e2) \<le> 1" using frame_levels [OF frame_trans [OF w1(3) ess2(2)] room(1)] .
    show "unat (en_next_seq e2) + 3 < 2 ^ 64" using w1(2) ess2(3) room(2) by (simp add: work_def)
  qed
  then have r3: "refines X g 2 e2 ess2 e'" using e3 by simp
  have d3: "durable X g e' ess'" "log_grows 0 e2 e'" using durable_compact [OF d2(1) e3 r3 assms(8)] by blast+
  show ?thesis using d3(1) log_grows_trans [OF log_grows_trans [OF d1(2) d2(2)] d3(2)] by simp
qed

lemma durable_maybe_flush:
  assumes "ext_ok X" "env_ok env" "durable X g e ess" "cutoff_le env e g" "roomy e" "log_room e"
    "maybe_flush X env e = Done u e'" "rep X g e' ess'"
  shows "durable X g e' ess' \<and> log_grows 1 e e'"
proof -
  have "e' = e \<or> flush X env e = Done u e' \<or> freeze X env e = Done u e'" using assms(7) by (auto simp: maybe_flush_def split: if_splits)
  then show ?thesis
  proof (elim disjE)
    assume "e' = e"
    then show ?thesis using durable_refl assms(3,8) by blast
  next
    assume f: "freeze X env e = Done u e'"
    have "rep X g e' ess" using rep_freeze(1) [of X g e ess env e'] f assms(3) by (simp add: durable_def)
    then show ?thesis using durable_freeze [OF assms(1-3,6) f] rep_unique [OF assms(8)] by simp
  qed (rule durable_flush [OF assms(1-6) _ assms(8)])
qed

end
