(* ===== verification/Engine_Run.thy ===== *)
theory Engine_Run
  imports Engine_Log
begin

text \<open>
  Runs of an engine. Local writes, reads and flushes, interleaved in any way with the background
  thread that builds flushed and compacted tables outside the engine's lock, behave as a map from
  keys to values; at any point of the run the files suffice to reopen an engine with that map.
\<close>

section \<open>The value of a key\<close>

definition content :: "(hlc \<times> version_value) option \<Rightarrow> bytes option" where
  "content r = (case r of Some (h, v) \<Rightarrow> version_to_value v | None \<Rightarrow> None)"

lemma content_simps [simp]: "content None = None" "content (Some (h, v)) = version_to_value v"
  by (simp_all add: content_def)

lemma content_invisible: "invisible 0 r \<Longrightarrow> content r = None"
  by (auto simp: invisible_def reclaimable_def content_def version_to_value_def split: option.splits)

lemma content_answer: "answer_ok 0 a b \<Longrightarrow> content b = content a"
  by (auto simp: answer_ok_def content_invisible)

lemma content_live: "en_ttl_ms e = None \<Longrightarrow> live_value env e r = content r"
  by (auto simp: live_value_def content_def is_expired_def row_expired_def split: option.splits)

section \<open>The state of a run\<close>

text \<open>
  After \<open>n\<close> operations the engine holds the map \<open>m\<close>; the counters have taken a bounded number of
  steps each.
\<close>

definition counters :: "engine \<Rightarrow> nat \<Rightarrow> bool" where
  "counters e n \<longleftrightarrow> work e \<le> 4 * n \<and> log_size e \<le> 70 + n * 2147483648 \<and> unat (en_next_wal_seq e) \<le> Suc n \<and>
     unat (logical (last_hlc (en_clock e))) \<le> n \<and> unat (wal_prealloc_chunk (en_wal e)) \<le> 1048576"

definition settings :: "engine \<Rightarrow> bool" where
  "settings e \<longleftrightarrow> plain e \<and> \<not> op_ephemeral (en_opts e) \<and> en_ttl_ms e = None \<and> length (en_levels e) \<le> 1 \<and>
     0 < op_l0_compaction_trigger (en_opts e)"

definition run_ok :: "externals \<Rightarrow> engine \<Rightarrow> entry list list \<Rightarrow> (bytes \<Rightarrow> bytes option) \<Rightarrow> nat \<Rightarrow> bool" where
  "run_ok X e ess m n \<longleftrightarrow> settings e \<and> counters e n \<and> durable X 0 e ess \<and> clock_ahead e ess \<and>
     sum_list (map length (sources e ess)) \<le> n \<and> (\<forall>k. content (held (sources e ess) k) = m k)"

lemma counters_room:
  assumes "counters e n" "n < 536870912" "length (en_levels e) \<le> 1"
  shows "roomy e" "log_room e" "logical (last_hlc (en_clock e)) \<noteq> - 1"
proof -
  show "roomy e" using assms by (simp add: counters_def roomy_def)
  show "log_room e" using assms by (simp add: counters_def log_room_def)
  show "logical (last_hlc (en_clock e)) \<noteq> - 1"
  proof
    assume "logical (last_hlc (en_clock e)) = - 1"
    then have "unat (logical (last_hlc (en_clock e))) = 4294967295" by (simp add: unsigned_minus_1_eq_mask mask_eq_exp_minus_1)
    then show False using assms by (simp add: counters_def)
  qed
qed

lemma cutoff_le_settings: "settings e \<Longrightarrow> cutoff_le env e g"
  by (simp add: settings_def cutoff_le_def expire_cutoff_def)

lemma settings_kept: "settings e \<Longrightarrow> kept e e' \<Longrightarrow> frame e e' \<Longrightarrow> settings e'"
  using frame_levels by (auto simp: settings_def kept_def)

subsection \<open>Reads\<close>

lemma run_get:
  assumes "run_ok X e ess m n"
  shows "\<exists>e'. engine_get X env k e = Done (m k) e' \<and> same_data e e' \<and> run_ok X e' ess m n"
proof -
  have r: "settings e" "counters e n" "rep X 0 e ess" "log_ok X 0 e ess" "manifest_ok e" "clock_ahead e ess"
    using assms by (simp_all add: run_ok_def durable_def)
  have "cutoff_ok 0 env e" by (simp add: cutoff_ok_def)
  then obtain e' where e': "engine_get X env k e = Done (live_value env e (held (sources e ess) k)) e'"
    "eng_ok X 0 e' ess" "same_data e e'"
    using engine_get_holds [OF repD(1) [OF r(3)]] by blast
  have v: "live_value env e (held (sources e ess) k) = m k"
    using assms by (simp add: run_ok_def settings_def content_live)
  have l: "mem_lists e' = mem_lists e" by (rule mem_lists_cong [OF same_data_memtables [OF e'(3)]])
  note d = e'(3) [unfolded same_data_def]
  have live: "live_paths e' = live_paths e" using d by (simp add: sstables_newest_first_def)
  have "disk_ok X e' ess" by (rule disk_ok_cong [OF repD(4) [OF r(3)] _ live]) (use d in simp_all)
  then have "rep X 0 e' ess" using e'(2) repD [OF r(3)] by (simp add: rep_def l)
  moreover have "log_ok X 0 e' ess" by (rule log_ok_view [OF r(4)]) (use d l in simp_all)
  moreover have "manifest_ok e'" using r(5) manifest_ok_cong [of e' e] d by simp
  moreover have "length (en_levels e') = length (en_levels e)" using d map_eq_imp_length_eq by blast
  moreover from this have "settings e'" using r(1) d by (simp add: settings_def plain_def)
  moreover have "counters e' n" using r(2) d by (simp add: counters_def work_def log_size_def)
  moreover have "clock_ahead e' ess" using r(6) d by (simp add: clock_ahead_def l)
  ultimately have "run_ok X e' ess m n" using assms by (simp add: run_ok_def durable_def l)
  then show ?thesis using e' v by auto
qed

lemma view_scan:
  assumes r: "eng_ok X 0 e ess" "stamps_down (sources e ess)" "en_ttl_ms e = None"
    and m: "\<And>k. content (held (sources e ess) k) = m k"
  shows "\<exists>rows. scan X env e = Inr rows \<and> bt_ok rows \<and> map_of rows = m"
proof -
  note mg = merge_all_correct(2,3) [OF sources_sorted [OF r(1)]]
  have "map_of (live_rows env e (lww_merge (sources e ess))) k = m k" for k
    using map_of_live_rows [OF mg(1)] mg(2) stamps_down_held [OF r(2)] m content_live [OF r(3)] by metis
  then show ?thesis using scan_holds [OF r(1)] live_rows_sorted [OF mg(1)] by (intro exI conjI ext) simp_all
qed

lemma run_scan:
  assumes "run_ok X e ess m n"
  shows "\<exists>rows. scan X env e = Inr rows \<and> bt_ok rows \<and> map_of rows = m"
  using assms repD by (intro view_scan) (auto simp: run_ok_def durable_def settings_def)

subsection \<open>Writes\<close>

lemma entry_ok_hlc: "entry_ok (k, h, v) = entry_ok (k, h', v)"
  by (simp add: entry_ok_def encode_entry_def)

text \<open>What the background thread relies on when another operation runs.\<close>

definition leaves :: "engine \<Rightarrow> engine \<Rightarrow> bool" where
  "leaves e e' \<longleftrightarrow> en_opts e' = en_opts e \<and> frame e e' \<and> (\<forall>f. in_flight e = Some f \<longrightarrow> in_flight e' = Some f)"

lemma tick:
  assumes "run_ok X e ess m n" "n < 536870912" "h = advance (last_hlc (en_clock e)) wall"
  shows "durable X 0 (e\<lparr>en_clock := \<lparr>last_hlc = h\<rparr>\<rparr>) ess" "clock_ahead (e\<lparr>en_clock := \<lparr>last_hlc = h\<rparr>\<rparr>) ess"
    "last_hlc (en_clock e) < h" "unat (logical h) \<le> Suc n"
proof -
  let ?e = "e\<lparr>en_clock := \<lparr>last_hlc = h\<rparr>\<rparr>"
  have r: "rep X 0 e ess" "log_ok X 0 e ess" "manifest_ok e" "clock_ahead e ess" "counters e n" "length (en_levels e) \<le> 1"
    using assms(1) by (simp_all add: run_ok_def durable_def settings_def)
  show lt: "last_hlc (en_clock e) < h" using advance_greater [OF counters_room(3) [OF r(5) assms(2) r(6)]] by (simp add: assms(3))
  show "unat (logical h) \<le> Suc n"
    using advance_logical [of "last_hlc (en_clock e)" wall] r(5) by (simp add: assms(3) counters_def)
  have l: "mem_lists ?e = mem_lists e" by (simp add: mem_lists_def memtables_def)
  show "clock_ahead ?e ess" using r(4) lt unfolding clock_ahead_def l by (auto intro: order.trans less_imp_le)
  have "rep X 0 ?e ess" by (rule rep_cong [OF r(1)]) (simp_all add: memtables_def sstables_newest_first_def)
  moreover have "log_ok X 0 ?e ess"
  proof -
    obtain old cur rs where p: "log_parts X e old cur rs" "sorted (map wr_hlc (log_contents (old @ cur, rs)))"
      "\<forall>r \<in> set (log_contents (old @ cur, rs)). wr_hlc r \<le> last_hlc (en_clock e)"
      "covers 0 (log_contents (old @ cur, rs)) (sources e ess)"
      using r(2) unfolding log_ok_def by blast
    have "\<forall>r \<in> set (log_contents (old @ cur, rs)). wr_hlc r \<le> h" using p(3) lt by (meson less_imp_le order.trans)
    moreover have "log_parts X ?e old cur rs" using p(1) by (simp add: log_parts_def)
    ultimately show ?thesis using p(2,4) unfolding log_ok_def l by (intro exI [of _ old] exI [of _ cur] exI [of _ rs]) simp
  qed
  moreover have "manifest_ok ?e" using r(3) manifest_ok_cong [of ?e e] by simp
  ultimately show "durable X 0 ?e ess" by (simp add: durable_def)
qed

lemma append_done:
  assumes X: "ext_ok X" "env_ok env" and e: "durable X 0 e ess" "clock_ahead e ess" "settings e" "roomy e"
    and room: "log_size e + 4294967296 + unat (wal_prealloc_chunk (en_wal e)) < 2 ^ 64" "Suc (unat (en_next_wal_seq e)) < 2 ^ 64"
    and h: "h = last_hlc (en_clock e)" and k: "entry_ok (key, h, v)" "Suc (sum_list (map length (sources e ess))) < 1073741824"
  shows "\<exists>c e' ess'. append_buffered X env key h v e = Done c e' \<and> durable X 0 e' ess' \<and> wrote X 0 e ess key h v e' \<and>
    log_size e' \<le> log_size e + 2147483648 \<and> wal_prealloc_chunk (en_wal e') = wal_prealloc_chunk (en_wal e) \<and>
    unat (en_next_wal_seq e') \<le> Suc (unat (en_next_wal_seq e))"
proof -
  have r: "rep X 0 e ess" "log_ok X 0 e ess" "manifest_ok e" "aead_ok X" "plain e"
    using X(1) e(1,3) by (simp_all add: durable_def ext_ok_def settings_def)
  have new: "newest_for (sources e ess) key h" by (rule clock_ahead_newest [OF e(2)]) (simp add: h)
  obtain c e' where c: "append_buffered X env key h v e = Done c e'" and wr: "wrote X 0 e ess key h v e'"
    using append_buffered_wrote [OF X r(1) cutoff_le_settings [OF e(3)] e(4) new k] r(5)
    by (cases "append_buffered X env key h v e") auto
  obtain w c' where w: "append_op X h key (version_to_value v) (en_wal e) = Inr (w, c')"
    and mf: "maybe_flush X env (mem_write key h v w e) = Done () e'"
    using c by (auto simp: append_buffered_write split: sum.splits elim!: obind_DoneE)
  let ?e = "mem_write key h v w e"
  have inv: "mt_inv (en_mem e)" using eng_okD(1) [OF repD(1) [OF r(1)]] by (simp add: memtables_def)
  have le: "last_hlc (en_clock e) \<le> h" by (simp add: h)
  have "log_room e" using room by (simp add: log_room_def)
  note lw = log_write [OF r(4,2) inv new le e(2) k(1) w this]
  have "?e\<lparr>en_clock := \<lparr>last_hlc = h\<rparr>\<rparr> = ?e" by (simp add: h mem_write_def)
  then have "log_ok X 0 ?e ess" using lw(1) by simp
  moreover have "manifest_ok ?e" using r(3) manifest_ok_cong [of ?e e] by (simp add: mem_write_def)
  ultimately have d: "durable X 0 ?e ess" using rep_write [OF r(1) new k] by (simp add: durable_def)
  have "en_next_wal_seq ?e = en_next_wal_seq e" by (simp add: mem_write_def)
  then have lr: "log_room ?e" using room lw(2,3) by (simp add: log_room_def)
  have cut: "cutoff_le env ?e 0" using cutoff_le_settings [OF e(3)] cutoff_le_kept [OF kept_mem_write [OF w]] by simp
  have ro: "roomy ?e" using e(4) by (simp add: mem_write_frame)
  obtain ess' where "rep X 0 e' ess'" using wr unfolding wrote_def by blast
  from durable_maybe_flush [OF X d cut ro lr mf this] have "durable X 0 e' ess'" "log_grows 1 ?e e'" by blast+
  then show ?thesis
    using c wr lw(2,3) \<open>en_next_wal_seq ?e = en_next_wal_seq e\<close>
    by (intro exI [of _ c] exI [of _ e'] exI [of _ ess']) (simp add: log_grows_def)
qed

lemma sync_commit_run: "run_ok X (sync_commit c e) ess m n = run_ok X e ess m n" "leaves e (sync_commit c e)"
proof -
  let ?e = "sync_commit c e"
  have f: "memtables ?e = memtables e" "sstables_newest_first ?e = sstables_newest_first e" "mem_lists ?e = mem_lists e"
    by (simp_all add: sync_commit_def memtables_def sstables_newest_first_def mem_lists_def)
  have p: "plain ?e = plain e"
    by (simp add: sync_commit_def plain_def commit_sync_def)
  have "rep X 0 ?e ess = rep X 0 e ess"
    by (simp add: rep_def eng_ok_def cache_ok_def disk_ok_def f) (simp add: sync_commit_def)
  moreover have "log_ok X 0 ?e ess = log_ok X 0 e ess"
    by (simp add: log_ok_def log_parts_def f) (simp add: sync_commit_def)
  moreover have "manifest_ok ?e = manifest_ok e" by (rule manifest_ok_cong) (simp_all add: sync_commit_def)
  moreover have "counters ?e n = counters e n" by (simp add: counters_def work_def log_size_def sync_commit_def)
  moreover have "settings ?e = settings e" using p by (simp add: settings_def) (simp add: sync_commit_def)
  moreover have "clock_ahead ?e ess = clock_ahead e ess" by (simp add: clock_ahead_def f) (simp add: sync_commit_def)
  ultimately show "run_ok X ?e ess m n = run_ok X e ess m n" by (simp add: run_ok_def durable_def f)
  have "frame e ?e" by (rule frame_same_tables) (simp_all add: sync_commit_def)
  then show "leaves e ?e" by (simp add: leaves_def in_flight_def sync_commit_def)
qed

lemma run_write:
  assumes X: "ext_ok X" "env_ok env" and r: "run_ok X e ess m n" "n < 536870912" and k: "entry_ok (key, hlc_MIN, v)"
  shows "\<exists>h c e' ess'. write_deferred X env key v e = Done (h, c) e' \<and> leaves e e' \<and>
    run_ok X e' ess' (m(key := version_to_value v)) (Suc n)"
proof -
  define h where "h = advance (last_hlc (en_clock e)) (ev_wall env)"
  let ?e = "e\<lparr>en_clock := \<lparr>last_hlc = h\<rparr>\<rparr>"
  note t = tick [OF r h_def]
  have s: "settings e" "counters e n" "sum_list (map length (sources e ess)) \<le> n" "length (en_levels e) \<le> 1"
    "\<forall>k. content (held (sources e ess) k) = m k"
    using r(1) by (simp_all add: run_ok_def settings_def)
  have fe: "mem_lists ?e = mem_lists e" "frame e ?e" "in_flight ?e = in_flight e" "work ?e = work e" "log_size ?e = log_size e"
    using frame_same_tables [of ?e e] by (simp_all add: mem_lists_def memtables_def in_flight_def work_def log_size_def)
  have se: "settings ?e" using s(1) by (simp add: settings_def plain_def)
  have ro: "roomy ?e" using counters_room(1) [OF s(2) r(2) s(4)] by (simp add: roomy_def fe)
  have room: "log_size ?e + 4294967296 + unat (wal_prealloc_chunk (en_wal ?e)) < 2 ^ 64" "Suc (unat (en_next_wal_seq ?e)) < 2 ^ 64"
    using s(2) r(2) by (simp_all add: counters_def fe)
  have h: "h = last_hlc (en_clock ?e)" by simp
  have ok: "entry_ok (key, h, v)" "Suc (sum_list (map length (sources ?e ess))) < 1073741824"
    using k entry_ok_hlc s(3) r(2) by (blast, simp add: fe)
  from append_done [OF X t(1,2) se ro room h ok]
  obtain c e' ess' where a: "append_buffered X env key h v ?e = Done c e'" "durable X 0 e' ess'" "wrote X 0 ?e ess key h v e'"
    "log_size e' \<le> log_size e + 2147483648" "wal_prealloc_chunk (en_wal e') = wal_prealloc_chunk (en_wal e)"
    "unat (en_next_wal_seq e') \<le> Suc (unat (en_next_wal_seq e))"
    by (auto simp: fe)
  have wr: "kept ?e e'" "frame ?e e'" "work e' \<le> work e + 4"
    using a(3) by (simp_all add: wrote_def fe)
  obtain ess2 where "rep X 0 e' ess2" and w2: "\<forall>k. answer_ok 0 (if k = key then Some (h, v) else held (sources ?e ess) k) (held (sources e' ess2) k)"
      "sum_list (map length (sources e' ess2)) \<le> Suc (sum_list (map length (sources ?e ess)))"
      "set (concat (sources e' ess2)) \<subseteq> insert (key, h, v) (set (concat (sources ?e ess)))"
    using a(3) unfolding wrote_def by blast
  then have "ess2 = ess'" using a(2) rep_unique unfolding durable_def by blast
  note w = w2 [unfolded this]
  have clk: "last_hlc (en_clock e') = h" using wr(1) by (simp add: kept_def)
  have "content (held (sources e' ess') k) = (m(key := version_to_value v)) k" for k
    using content_answer [OF spec [OF w(1), of k]] s(5) by (auto simp: fe)
  moreover have "counters e' (Suc n)"
    using s(2) a(4-6) wr(3) t(4) by (simp add: counters_def clk)
  moreover have "\<forall>x \<in> insert (key, h, v) (set (concat (sources ?e ess))). fst (snd x) \<le> h"
    using t(2) unfolding clock_ahead_def h [symmetric] ball_simps by simp
  then have "clock_ahead e' ess'" using w(3) unfolding clock_ahead_def clk by blast
  ultimately have "run_ok X e' ess' (m(key := version_to_value v)) (Suc n)"
    using a(2) settings_kept [OF se wr(1,2)] w(2) s(3) by (simp add: run_ok_def fe)
  moreover have "leaves e e'"
    using wr(1) frame_trans [OF fe(2) wr(2)] by (simp add: leaves_def kept_def fe)
  moreover have "clock_now (ev_wall env) (en_clock e) = (\<lparr>last_hlc = h\<rparr>, h)" by (simp add: clock_now_def h_def Let_def)
  then have "write_deferred X env key v e = Done (h, c) e'" using a(1) by (simp add: write_deferred_def)
  ultimately show ?thesis by blast
qed

lemma leaves_trans: "leaves a b \<Longrightarrow> leaves b c \<Longrightarrow> leaves a c"
  using frame_trans by (auto simp: leaves_def)

lemma run_put:
  assumes "ext_ok X" "env_ok env" "run_ok X e ess m n" "n < 536870912" "entry_ok (key, hlc_MIN, Put val)"
  shows "\<exists>h e' ess'. put X env key val e = Done h e' \<and> leaves e e' \<and> run_ok X e' ess' (m(key := Some val)) (Suc n)"
proof -
  obtain h c e' ess' where "write_deferred X env key (Put val) e = Done (h, c) e'" "leaves e e'"
      "run_ok X e' ess' (m(key := Some val)) (Suc n)"
    using run_write [OF assms] by (auto simp: version_to_value_def)
  then show ?thesis
    using leaves_trans [of e e' "sync_commit c e'"] sync_commit_run by (auto simp: put_def)
qed

lemma run_delete:
  assumes "ext_ok X" "env_ok env" "run_ok X e ess m n" "n < 536870912" "entry_ok (key, hlc_MIN, Delete)"
  shows "\<exists>h e' ess'. delete X env key e = Done h e' \<and> leaves e e' \<and> run_ok X e' ess' (m(key := None)) (Suc n)"
proof -
  obtain h c e' ess' where "write_deferred X env key Delete e = Done (h, c) e'" "leaves e e'"
      "run_ok X e' ess' (m(key := None)) (Suc n)"
    using run_write [OF assms] by (auto simp: version_to_value_def)
  then show ?thesis
    using leaves_trans [of e e' "sync_commit c e'"] sync_commit_run by (auto simp: delete_def)
qed

lemma run_flush:
  assumes X: "ext_ok X" "env_ok env" and r: "run_ok X e ess m n" "n < 536870912"
  shows "\<exists>e' ess'. flush X env e = Done () e' \<and> leaves e e' \<and> run_ok X e' ess' m (Suc n)"
proof -
  have s: "settings e" "counters e n" "durable X 0 e ess" "length (en_levels e) \<le> 1" "rep X 0 e ess" "plain e" "clock_ahead e ess"
    using r(1) by (simp_all add: run_ok_def settings_def durable_def)
  note room = counters_room [OF s(2) r(2) s(4)]
  obtain e' where f: "flush X env e = Done () e'" "refines X 0 4 e ess e'"
    using refines_flush [OF X s(5) cutoff_le_settings [OF s(1)] room(1)] s(6) by (cases "flush X env e") auto
  from f(2) obtain ess' where e': "kept e e'" "frame e e'" "work e' \<le> work e + 4" "rep X 0 e' ess'"
    "same_view 0 (sources e ess) (sources e' ess')" "shrinks (sources e ess) (sources e' ess')" by (rule refinesE)
  have d: "durable X 0 e' ess'" "log_grows 1 e e'"
    using durable_flush [OF X s(3) cutoff_le_settings [OF s(1)] room(1,2) f(1) e'(4)] by blast+
  have "content (held (sources e' ess') k) = m k" for k
    using content_answer [OF e'(5) [unfolded same_view_def, rule_format, of k]] r(1) by (simp add: run_ok_def)
  moreover have clk: "en_clock e' = en_clock e" using e'(1) by (simp add: kept_def)
  then have "counters e' (Suc n)" using s(2) d(2) e'(3) by (simp add: counters_def log_grows_def)
  moreover have "clock_ahead e' ess'" using e'(6) s(7) unfolding clock_ahead_def shrinks_def clk by blast
  moreover have "sum_list (map length (sources e' ess')) \<le> Suc n" using e'(6) r(1) by (simp add: shrinks_def run_ok_def)
  ultimately have "run_ok X e' ess' m (Suc n)" using d(1) settings_kept [OF s(1) e'(1,2)] by (simp add: run_ok_def)
  moreover have "leaves e e'" using e'(1,2) by (simp add: leaves_def kept_def)
  ultimately show ?thesis using f(1) by blast
qed

section \<open>The background thread\<close>

text \<open>
  The background thread of a node, for one of its engines: it takes a flush job, or a compaction job
  when there is none, under the engine's lock, builds the table without the lock, and installs it
  under the lock. Between these steps other operations run.
\<close>

datatype background =
    Idle
  | FlushTaken flush_job
  | FlushBuilt flush_job "storage_error + table"
  | CompactTaken compact_job
  | CompactBuilt compact_job table

definition finish_flush_job :: "flush_job \<Rightarrow> storage_error + table \<Rightarrow> engine \<Rightarrow> engine" where
  "finish_flush_job job sst e = (case sst of Inr t \<Rightarrow> install_flush job t e | Inl _ \<Rightarrow> abort_flush job e)"

definition finish_compact_job :: "compact_job \<Rightarrow> table \<Rightarrow> engine \<Rightarrow> engine" where
  "finish_compact_job job new_run e = snd (install_compact job new_run e)"

definition take_flush :: "background \<Rightarrow> engine \<Rightarrow> background \<times> engine" where
  "take_flush b e =
     (if b = Idle then case take_flush_job e of (Some job, e) \<Rightarrow> (FlushTaken job, e) | (None, e) \<Rightarrow> (Idle, e) else (b, e))"

definition take_compact :: "engine_env \<Rightarrow> background \<Rightarrow> engine \<Rightarrow> background \<times> engine" where
  "take_compact env b e =
     (if b = Idle then case take_compact_job env e of (Some job, e) \<Rightarrow> (CompactTaken job, e) | (None, e) \<Rightarrow> (Idle, e) else (b, e))"

definition build_job :: "externals \<Rightarrow> engine_env \<Rightarrow> background \<Rightarrow> engine \<Rightarrow> background outcome" where
  "build_job X env b e =
     (case b of
        FlushTaken job \<Rightarrow>
          (case build_flush X env job (en_disk e) of
             None \<Rightarrow> Panic
           | Some (built, d) \<Rightarrow> Done (FlushBuilt job built) (e\<lparr>en_disk := d\<rparr>))
      | CompactTaken job \<Rightarrow>
          (case build_compact X env job (en_disk e) of
             None \<Rightarrow> Panic
           | Some (Inr new_run, d) \<Rightarrow> Done (CompactBuilt job new_run) (e\<lparr>en_disk := d\<rparr>)
           | Some (Inl err, d) \<Rightarrow> Done Idle (e\<lparr>en_disk := d\<rparr>))
      | _ \<Rightarrow> Done b e)"

definition finish_job :: "background \<Rightarrow> engine \<Rightarrow> background \<times> engine" where
  "finish_job b e =
     (case b of
        FlushBuilt job built \<Rightarrow> (Idle, finish_flush_job job built e)
      | CompactBuilt job new_run \<Rightarrow> (Idle, finish_compact_job job new_run e)
      | _ \<Rightarrow> (b, e))"

text \<open>The steps of a run, and what each does to the map.\<close>

datatype engine_op =
    OpPut bytes bytes
  | OpDelete bytes
  | OpGet bytes
  | OpFlush
  | OpTakeFlush
  | OpTakeCompact
  | OpBuild
  | OpFinish

fun engine_step :: "externals \<Rightarrow> engine_env \<Rightarrow> engine_op \<Rightarrow> background \<Rightarrow> engine \<Rightarrow> background outcome" where
  "engine_step X env (OpPut key val) b e = obind (put X env key val e) (\<lambda>_. Done b)"
| "engine_step X env (OpDelete key) b e = obind (delete X env key e) (\<lambda>_. Done b)"
| "engine_step X env (OpGet key) b e = obind (engine_get X env key e) (\<lambda>_. Done b)"
| "engine_step X env OpFlush b e = obind (flush X env e) (\<lambda>_. Done b)"
| "engine_step X env OpTakeFlush b e = (case take_flush b e of (b, e) \<Rightarrow> Done b e)"
| "engine_step X env OpTakeCompact b e = (case take_compact env b e of (b, e) \<Rightarrow> Done b e)"
| "engine_step X env OpBuild b e = build_job X env b e"
| "engine_step X env OpFinish b e = (case finish_job b e of (b, e) \<Rightarrow> Done b e)"

fun engine_run :: "externals \<Rightarrow> (engine_env \<times> engine_op) list \<Rightarrow> background \<Rightarrow> engine \<Rightarrow> background outcome" where
  "engine_run X [] b e = Done b e"
| "engine_run X ((env, op) # ops) b e = obind (engine_step X env op b e) (engine_run X ops)"

fun map_step :: "engine_op \<Rightarrow> (bytes \<Rightarrow> bytes option) \<Rightarrow> bytes \<Rightarrow> bytes option" where
  "map_step (OpPut key val) m = m(key := Some val)"
| "map_step (OpDelete key) m = m(key := None)"
| "map_step _ m = m"

fun op_ok :: "engine_op \<Rightarrow> bool" where
  "op_ok (OpPut key val) = entry_ok (key, hlc_MIN, Put val)"
| "op_ok (OpDelete key) = entry_ok (key, hlc_MIN, Delete)"
| "op_ok _ = True"

subsection \<open>What a job in flight relies on\<close>

definition reserved :: "engine \<Rightarrow> string \<Rightarrow> bool" where
  "reserved e p \<longleftrightarrow> (\<exists>n < en_next_seq e. p = table_name n) \<and> p \<notin> set (live_paths e)"

definition flush_in_flight :: "engine \<Rightarrow> flush_job \<Rightarrow> bool" where
  "flush_in_flight e job \<longleftrightarrow> reserved e (fj_path job) \<and> fj_kek job = op_kek (en_opts e) \<and> \<not> fj_encrypt_new job \<and>
     (\<exists>f. in_flight e = Some f \<and> fj_mem job = fm_mem f \<and> fj_wal_seq job = fm_wal_seq f)"

text \<open>
  The inputs of a compaction, level 0 and the deeper level, have the contents \<open>ins\<close> as long as their
  files exist; they are the oldest tables of the engine, or none of them is live any more.
\<close>

definition compact_in_flight :: "externals \<Rightarrow> engine \<Rightarrow> compact_job \<Rightarrow> entry list list \<Rightarrow> bool" where
  "compact_in_flight X e job ins \<longleftrightarrow> reserved e (cj_output job) \<and> cj_kek job = op_kek (en_opts e) \<and> \<not> cj_encrypt_new job \<and>
     cj_expire_before job = None \<and> small ins \<and> cj_output job \<notin> set (cj_inputs job) \<and> (\<forall>p \<in> set (cj_inputs job). \<exists>n < en_next_seq e. p = table_name n) \<and>
     list_all2 (\<lambda>p es. on_disk_table X (op_kek (en_opts e)) (en_disk e) p es \<or> dk_files (en_disk e) p = None) (cj_inputs job) ins \<and>
     (\<exists>ps qs. cj_inputs job = ps @ qs \<and> ps \<noteq> [] \<and>
       ((\<exists>new. map tb_path (en_l0 e) = new @ ps) \<and> map tb_path (en_levels e) = qs \<or> set (cj_inputs job) \<inter> set (live_paths e) = {}))"

fun job_ok :: "externals \<Rightarrow> engine \<Rightarrow> background \<Rightarrow> bool" where
  "job_ok X e Idle \<longleftrightarrow> True"
| "job_ok X e (FlushTaken job) \<longleftrightarrow> flush_in_flight e job"
| "job_ok X e (FlushBuilt job built) \<longleftrightarrow> flush_in_flight e job \<and> (\<exists>t. built = Inr t \<and> tb_path t = fj_path job \<and>
     sst_holds X (tb_sst t) (mt_iter_latest_lazy (fj_mem job)) \<and>
     on_disk_table X (op_kek (en_opts e)) (en_disk e) (fj_path job) (mt_iter_latest_lazy (fj_mem job)))"
| "job_ok X e (CompactTaken job) \<longleftrightarrow> (\<exists>ins. compact_in_flight X e job ins)"
| "job_ok X e (CompactBuilt job new_run) \<longleftrightarrow> (\<exists>ins. compact_in_flight X e job ins \<and> tb_path new_run = cj_output job \<and>
     (let es = compacted (cj_deepest job) None (cj_tombstone_keep_after job) ins
      in sst_holds X (tb_sst new_run) es \<and> on_disk_table X (op_kek (en_opts e)) (en_disk e) (cj_output job) es))"

lemma reserved_leaves:
  assumes "leaves e e'" "reserved e p"
  shows "reserved e' p" "same_file (en_disk e) (en_disk e') p"
proof -
  obtain n where n: "n < en_next_seq e" "p = table_name n" "p \<notin> set (live_paths e)" using assms(2) by (auto simp: reserved_def)
  have fr: "frame e e'" using assms(1) by (simp add: leaves_def)
  have "n < en_next_seq e'" using n(1) frameD(1) [OF fr] by simp
  then show "reserved e' p" using n frameD(4) [OF fr n(1)] by (auto simp: reserved_def simp del: set_map)
  show "same_file (en_disk e) (en_disk e') p"
    using frameD(2) [OF fr, unfolded files_kept_def, rule_format, OF n(1)] n(2,3) by blast
qed

lemma flush_leaves: "leaves e e' \<Longrightarrow> flush_in_flight e job \<Longrightarrow> flush_in_flight e' job"
  using reserved_leaves(1) by (auto simp: flush_in_flight_def leaves_def)

lemma input_leaves:
  assumes "leaves e e'" "\<exists>n < en_next_seq e. p = table_name n"
    "on_disk_table X kek (en_disk e) p es \<or> dk_files (en_disk e) p = None"
  shows "on_disk_table X kek (en_disk e') p es \<or> dk_files (en_disk e') p = None"
proof -
  obtain n where n: "n < en_next_seq e" "p = table_name n" using assms(2) by blast
  have "files_kept e e'" using assms(1) by (simp add: leaves_def frame_def)
  from this [unfolded files_kept_def, rule_format, OF n(1), folded n(2)] show ?thesis
  proof (elim disjE conjE)
    assume s: "same_file (en_disk e) (en_disk e') p"
    show ?thesis using assms(3) unfolding on_disk_table_cong [OF s] using s by (auto simp: same_file_def)
  qed simp
qed

lemma compact_leaves:
  assumes "leaves e e'" "length (en_levels e) \<le> 1" "compact_in_flight X e job ins"
  shows "compact_in_flight X e' job ins"
proof -
  have c: "reserved e (cj_output job)" "cj_kek job = op_kek (en_opts e)" "\<not> cj_encrypt_new job" "cj_expire_before job = None" "small ins"
      "cj_output job \<notin> set (cj_inputs job)"
    and named: "\<forall>p \<in> set (cj_inputs job). \<exists>n < en_next_seq e. p = table_name n"
    and disk: "list_all2 (\<lambda>p es. on_disk_table X (op_kek (en_opts e)) (en_disk e) p es \<or> dk_files (en_disk e) p = None) (cj_inputs job) ins"
    using assms(3) by (simp_all add: compact_in_flight_def)
  have fr: "frame e e'" "en_opts e' = en_opts e" "en_next_seq e \<le> en_next_seq e'"
    using assms(1) by (simp_all add: leaves_def frame_def)
  have up: "n < en_next_seq e'" if "n < en_next_seq e" for n using that fr(3) by simp
  have "list_all2 (\<lambda>p es. on_disk_table X (op_kek (en_opts e)) (en_disk e') p es \<or> dk_files (en_disk e') p = None) (cj_inputs job) ins"
    by (rule list.rel_mono_strong [OF disk], rule input_leaves [OF assms(1)]) (use named in blast)+
  moreover obtain ps qs where ps: "cj_inputs job = ps @ qs" "ps \<noteq> []"
    "(\<exists>new. map tb_path (en_l0 e) = new @ ps) \<and> map tb_path (en_levels e) = qs \<or> set (cj_inputs job) \<inter> set (live_paths e) = {}"
    using assms(3) unfolding compact_in_flight_def by blast
  have gone: "set (cj_inputs job) \<inter> set (live_paths e') = {}" if "\<And>n. n < en_next_seq e \<Longrightarrow> table_name n \<in> set (cj_inputs job) \<Longrightarrow> table_name n \<notin> set (live_paths e')"
    unfolding disjoint_iff using that bspec [OF named] by metis
  have "(\<exists>new. map tb_path (en_l0 e') = new @ ps) \<and> map tb_path (en_levels e') = qs \<or> set (cj_inputs job) \<inter> set (live_paths e') = {}"
    using ps(3)
  proof
    assume "set (cj_inputs job) \<inter> set (live_paths e) = {}"
    then show ?thesis using gone frameD(4) [OF fr(1)] by blast
  next
    assume l: "(\<exists>new. map tb_path (en_l0 e) = new @ ps) \<and> map tb_path (en_levels e) = qs"
    have "(\<exists>new. map tb_path (en_l0 e') = new @ map tb_path (en_l0 e)) \<and> map tb_path (en_levels e') = map tb_path (en_levels e) \<or>
        (\<forall>n < en_next_seq e. table_name n \<notin> set (live_paths e'))"
      using frameD(3) [OF fr(1)] assms(2) by (simp add: tables_kept_def)
    then show ?thesis using gone l by (metis append.assoc)
  qed
  ultimately show ?thesis
    using c named up ps(1,2) reserved_leaves(1) [OF assms(1)] unfolding compact_in_flight_def fr(2) by blast
qed

lemma job_leaves:
  assumes "leaves e e'" "length (en_levels e) \<le> 1" "job_ok X e b"
  shows "job_ok X e' b"
proof -
  have o: "en_opts e' = en_opts e" using assms(1) by (simp add: leaves_def)
  have keep: "on_disk_table X (op_kek (en_opts e)) (en_disk e') p es" if "on_disk_table X (op_kek (en_opts e)) (en_disk e) p es" "reserved e p" for p es
    using that on_disk_table_cong [OF reserved_leaves(2) [OF assms(1)]] by blast
  show ?thesis
  proof (cases b)
    case (FlushBuilt job built)
    then obtain t where t: "flush_in_flight e job" "built = Inr t" "tb_path t = fj_path job"
        "sst_holds X (tb_sst t) (mt_iter_latest_lazy (fj_mem job))"
        "on_disk_table X (op_kek (en_opts e)) (en_disk e) (fj_path job) (mt_iter_latest_lazy (fj_mem job))"
      using assms(3) by auto
    have "reserved e (fj_path job)" using t(1) by (simp add: flush_in_flight_def)
    from keep [OF t(5) this] show ?thesis using FlushBuilt t flush_leaves [OF assms(1) t(1)] by (simp add: o)
  next
    case (CompactBuilt job new_run)
    let ?es = "compacted (cj_deepest job) None (cj_tombstone_keep_after job)"
    obtain ins where i: "compact_in_flight X e job ins" "tb_path new_run = cj_output job" "sst_holds X (tb_sst new_run) (?es ins)"
        "on_disk_table X (op_kek (en_opts e)) (en_disk e) (cj_output job) (?es ins)"
      using assms(3) CompactBuilt by (auto simp: Let_def)
    have "reserved e (cj_output job)" using i(1) by (simp add: compact_in_flight_def)
    from keep [OF i(4) this] show ?thesis
      using CompactBuilt i compact_leaves [OF assms(1,2) i(1)] by (auto simp: o Let_def)
  next
    case (CompactTaken job)
    then show ?thesis using assms(3) compact_leaves [OF assms(1,2)] by (metis job_ok.simps(4))
  qed (use assms(3) flush_leaves [OF assms(1)] in auto)
qed

subsection \<open>Steps of the background thread\<close>

text \<open>A step that changes neither the memtables nor the tables.\<close>

lemma run_ok_same:
  assumes r: "run_ok X e ess m n" and f: "en_mem e' = en_mem e" "en_l0 e' = en_l0 e" "en_levels e' = en_levels e"
    "map (\<lambda>f. (fm_mem f, fm_wal_seq f)) (en_frozen e') = map (\<lambda>f. (fm_mem f, fm_wal_seq f)) (en_frozen e)"
    "en_read_cache e' = en_read_cache e" "en_opts e' = en_opts e" "en_wal e' = en_wal e" "en_next_wal_seq e' = en_next_wal_seq e"
    "en_clock e' = en_clock e" "en_ttl_ms e' = en_ttl_ms e"
    and d: "en_next_seq e \<le> en_next_seq e'" "unat (en_next_seq e') \<le> Suc (unat (en_next_seq e))"
      "\<forall>p \<in> set (live_paths e). same_file (en_disk e) (en_disk e') p" "dk_manifest (en_disk e') = dk_manifest (en_disk e)"
  shows "run_ok X e' ess m (Suc n)"
proof -
  have "map fm_mem (en_frozen e') = map fst (map (\<lambda>f. (fm_mem f, fm_wal_seq f)) (en_frozen e'))" by simp
  also have "\<dots> = map fm_mem (en_frozen e)" unfolding f(4) by simp
  finally have fz: "map fm_mem (en_frozen e') = map fm_mem (en_frozen e)" .
  then have len: "length (en_frozen e') = length (en_frozen e)" by (metis length_map)
  have mt: "memtables e' = memtables e" using f(1) fz by (simp add: memtables_def rev_map [symmetric])
  have ts: "sstables_newest_first e' = sstables_newest_first e" using f(2,3) by (simp add: sstables_newest_first_def)
  have l: "mem_lists e' = mem_lists e" using mt by (rule mem_lists_cong)
  have s: "rep X 0 e ess" "log_ok X 0 e ess" "manifest_ok e" using r by (simp_all add: run_ok_def durable_def)
  have "rep X 0 e' ess" by (rule rep_cong [OF s(1) mt ts f(5,6) d(1,3)])
  moreover have "log_ok X 0 e' ess" by (rule log_ok_view [OF s(2)]) (use l f in simp_all)
  moreover have "manifest_ok e' = manifest_ok e" by (rule manifest_ok_cong) (simp_all add: d f)
  moreover have "counters e' (Suc n)" using r d(2) by (simp add: run_ok_def counters_def work_def log_size_def f len)
  moreover have "settings e'" using r by (simp add: run_ok_def settings_def plain_def f)
  ultimately show ?thesis using r s(3) by (simp add: run_ok_def durable_def clock_ahead_def l f)
qed

lemma run_ok_Suc: "run_ok X e ess m n \<Longrightarrow> run_ok X e ess m (Suc n)"
  by (simp add: run_ok_def counters_def)

lemma run_take_flush:
  assumes r: "run_ok X e ess m n" "n < 536870912" "job_ok X e b"
  shows "case take_flush b e of (b', e') \<Rightarrow> run_ok X e' ess m (Suc n) \<and> job_ok X e' b'"
proof (cases "b = Idle \<and> fst (take_flush_job e) \<noteq> None")
  case False
  then have "take_flush b e = (b, e)"
    using take_flush_job_none [of e] by (cases "take_flush_job e"; cases "fst (take_flush_job e)") (auto simp: take_flush_def)
  then show ?thesis using r(3) run_ok_Suc [OF r(1)] by simp
next
  case True
  then obtain job e1 where j: "take_flush_job e = (Some job, e1)" by (cases "take_flush_job e") auto
  have s: "rep X 0 e ess" "settings e" "counters e n" using r(1) by (simp_all add: run_ok_def durable_def)
  have "work e < 2 ^ 64" using s(3) r(2) by (simp add: counters_def)
  then obtain f fs where f: "en_frozen e = f # fs" "en_frozen e1 = f\<lparr>fm_building := True\<rparr> # fs"
    and job: "job = \<lparr>fj_mem = fm_mem f, fj_path = table_name (en_next_seq e), fj_codec = op_compression (en_opts e),
        fj_wal_seq = fm_wal_seq f, fj_kek = op_kek (en_opts e), fj_encrypt_new = op_at_rest_enabled (en_opts e)\<rparr>"
    and e1: "e1 = e\<lparr>en_next_seq := en_next_seq e + 1, en_frozen := en_frozen e1\<rparr>" and sq: "Suc (unat (en_next_seq e)) < 2 ^ 64"
    by (rule take_flush_job_step [OF s(1) j])
  note q = next_seq_Suc [OF sq]
  have fields: "en_next_seq e1 = en_next_seq e + 1" "en_opts e1 = en_opts e" "sstables_newest_first e1 = sstables_newest_first e"
    by (subst e1, simp add: sstables_newest_first_def)+
  have "run_ok X (e\<lparr>en_next_seq := en_next_seq e + 1, en_frozen := en_frozen e1\<rparr>) ess m (Suc n)"
    by (rule run_ok_same [OF r(1)]) (use f q in simp_all)
  then have "run_ok X e1 ess m (Suc n)" using e1 by simp
  moreover have "reserved e1 (table_name (en_next_seq e))"
    using q(2) unused_name [OF repD(4) [OF s(1)], of "en_next_seq e"] unfolding reserved_def fields by blast
  then have "flush_in_flight e1 job"
    using s(2) f(2) by (simp add: flush_in_flight_def job fields in_flight_def settings_def plain_def)
  ultimately show ?thesis using True j by (simp add: take_flush_def)
qed

lemma write_table_manifest: "write_table X env p items n codec enc d = Some (r, d') \<Longrightarrow> dk_manifest d' = dk_manifest d"
  by (auto simp: write_table_def split: prod.splits option.splits sum.splits)

lemma reserved_other:
  assumes "reserved e p" "\<forall>q. q \<noteq> p \<longrightarrow> q \<noteq> stamps_path p \<longrightarrow> dk_files d q = dk_files (en_disk e) q" "q \<noteq> p" "\<exists>n. q = table_name n"
  shows "same_file (en_disk e) d q"
proof -
  obtain n m where "p = table_name m" "q = table_name n" using assms(1,4) by (auto simp: reserved_def)
  then show ?thesis using same_file_written [of m d "en_disk e" n] assms(2,3) by simp
qed

lemma run_build_flush:
  assumes X: "ext_ok X" "env_ok env" and r: "run_ok X e ess m n" "job_ok X e (FlushTaken job)"
  shows "\<exists>b' e'. build_job X env (FlushTaken job) e = Done b' e' \<and> run_ok X e' ess m (Suc n) \<and> job_ok X e' b'"
proof -
  have s: "rep X 0 e ess" using r(1) by (simp add: run_ok_def durable_def)
  have j: "reserved e (fj_path job)" "fj_kek job = op_kek (en_opts e)" "\<not> fj_encrypt_new job" "flush_in_flight e job"
    using r(2) by (simp_all add: flush_in_flight_def)
  obtain f fs where f: "en_frozen e = f # fs" "fj_mem job = fm_mem f"
    using r(2) by (auto simp: flush_in_flight_def in_flight_def split: list.splits if_splits)
  let ?es = "mt_iter_latest_lazy (fj_mem job)"
  have "?es \<in> set (sources e ess)" using mem_lists_oldest [OF f(1)] f(2) by simp
  note es = rep_table [OF s this]
  obtain t d where b: "build_flush X env job (en_disk e) = Some (Inr t, d)" "tb_path t = fj_path job" "sst_holds X (tb_sst t) ?es"
      "on_disk_table X (fj_kek job) d (fj_path job) ?es"
      "\<forall>q. q \<noteq> fj_path job \<longrightarrow> q \<noteq> stamps_path (fj_path job) \<longrightarrow> dk_files d q = dk_files (en_disk e) q"
    using build_flush_holds [OF X es refl, of "en_disk e"] j(3) by blast
  have man: "dk_manifest d = dk_manifest (en_disk e)" using b(1) write_table_manifest by (simp add: build_flush_def)
  have live: "same_file (en_disk e) d q" if q: "q \<in> set (live_paths e)" for q
    by (rule reserved_other [OF j(1) b(5)]) (use q j(1) live_named [OF repD(4) [OF s] q] reserved_def in blast)+
  let ?e = "e\<lparr>en_disk := d\<rparr>"
  have "run_ok X ?e ess m (Suc n)" by (rule run_ok_same [OF r(1)]) (use live man in simp_all)
  moreover have "flush_in_flight ?e job" using j(4) by (simp add: flush_in_flight_def reserved_def in_flight_def sstables_newest_first_def)
  ultimately show ?thesis using b j(2) by (simp add: build_job_def)
qed

lemma run_finish_flush:
  assumes X: "ext_ok X" and r: "run_ok X e ess m n" "job_ok X e (FlushBuilt job built)"
  shows "\<exists>ess'. run_ok X (finish_flush_job job built e) ess' m (Suc n)"
proof -
  obtain t where t: "built = Inr t" "tb_path t = fj_path job" "sst_holds X (tb_sst t) (mt_iter_latest_lazy (fj_mem job))"
      "on_disk_table X (op_kek (en_opts e)) (en_disk e) (fj_path job) (mt_iter_latest_lazy (fj_mem job))"
    and j: "flush_in_flight e job" using r(2) by auto
  obtain f fs where f: "en_frozen e = f # fs" "fj_mem job = fm_mem f" "fm_wal_seq f = fj_wal_seq job"
    using j by (auto simp: flush_in_flight_def in_flight_def split: list.splits if_splits)
  obtain k where k: "fj_path job = table_name k" "k < en_next_seq e" "table_name k \<notin> set (live_paths e)"
    using j by (auto simp: flush_in_flight_def reserved_def)
  have s: "rep X 0 e ess" "log_ok X 0 e ess" "settings e" "counters e n" "clock_ahead e ess" "aead_ok X"
    using r(1) X by (simp_all add: run_ok_def durable_def ext_ok_def)
  let ?e = "install_flush job t e" and ?ess = "mt_iter_latest_lazy (fm_mem f) # ess"
  have i: "rep X 0 ?e ?ess" "sources ?e ?ess = sources e ess"
    by (rule rep_install_flush [OF s(1) f(1,3) _ _ _ k(2,3)]; use t f(2) k(1) in simp)+
  note l = log_install_flush [OF s(6,2) f(1,3) i(2)] and ff = install_flush_fields [OF f(1,3), of t]
  have kp: "kept (e\<lparr>en_frozen := []\<rparr>) (?e\<lparr>en_frozen := []\<rparr>)" by (rule install_flush_kept)
  have "settings ?e" using s(3) kp by (simp add: settings_def kept_def plain_def ff)
  moreover have "en_clock ?e = en_clock e" using kp by (simp add: kept_def)
  moreover from this have "counters ?e (Suc n)"
    using s(4) l(2-4) by (simp add: counters_def work_def ff f(1))
  moreover have "clock_ahead ?e ?ess" using s(5) unfolding clock_ahead_def i(2) \<open>en_clock ?e = en_clock e\<close> .
  moreover have "sum_list (map length (sources ?e ?ess)) \<le> Suc n" "\<forall>k. content (held (sources ?e ?ess) k) = m k"
    using r(1) unfolding i(2) run_ok_def by simp_all
  ultimately have "run_ok X ?e ?ess m (Suc n)"
    using i(1) l(1) install_flush_manifest unfolding run_ok_def durable_def by blast
  then show ?thesis using t(1) by (auto simp: finish_flush_job_def)
qed

lemma cascade_level_none: "length (en_levels e) \<le> 1 \<Longrightarrow> cascade_level e 0 = None"
  by (subst cascade_level.simps) simp

lemma run_take_compact:
  assumes r: "run_ok X e ess m n" "n < 536870912" "job_ok X e b"
  shows "case take_compact env b e of (b', e') \<Rightarrow> run_ok X e' ess m (Suc n) \<and> job_ok X e' b'"
proof (cases "b = Idle \<and> length (en_l0 e) \<ge> op_l0_compaction_trigger (en_opts e)")
  case False
  have s: "settings e" using r(1) by (simp add: run_ok_def)
  have "take_compact env b e = (b, e)"
    using False s by (auto simp: take_compact_def take_compact_job_def settings_def cascade_level_none)
  then show ?thesis using r(3) run_ok_Suc [OF r(1)] by simp
next
  case True
  have s: "rep X 0 e ess" "settings e" "counters e n" using r(1) by (simp_all add: run_ok_def durable_def)
  let ?e = "e\<lparr>en_next_seq := en_next_seq e + 1\<rparr>"
  let ?job = "\<lparr>cj_inputs = live_paths e, cj_output = table_name (en_next_seq e), cj_deepest = True,
    cj_codec = codec_for e True, cj_expire_before = None, cj_tombstone_keep_after = tombstone_cutoff env e,
    cj_kek = op_kek (en_opts e), cj_encrypt_new = op_at_rest_enabled (en_opts e)\<rparr>"
  have "take 1 (en_levels e) = en_levels e" using s(2) by (simp add: settings_def)
  then have step: "take_compact env b e = (CompactTaken ?job, ?e)"
    using True s(2) by (simp add: take_compact_def take_compact_job_def compact_job_for_def next_table_path_def settings_def
        expire_cutoff_def sstables_newest_first_def)
  have sq: "Suc (unat (en_next_seq e)) < 2 ^ 64" using s(3) r(2) by (simp add: counters_def work_def)
  note q = next_seq_Suc [OF sq]
  have "run_ok X ?e ess m (Suc n)" by (rule run_ok_same [OF r(1)]) (use q in simp_all)
  moreover have live: "live_paths ?e = live_paths e" by (simp add: sstables_newest_first_def)
  have "reserved ?e (table_name (en_next_seq e))"
    using q(2) unused_name [OF repD(4) [OF s(1)], of "en_next_seq e"] unfolding reserved_def live by auto
  moreover have "table_name (en_next_seq e) \<notin> set (live_paths e)" by (rule unused_name [OF repD(4) [OF s(1)]]) simp
  moreover have "small ess" using repD(3) [OF s(1)] by (auto simp: small_def)
  moreover have "\<exists>k < en_next_seq ?e. p = table_name k" if "p \<in> set (live_paths e)" for p
    using live_named [OF repD(4) [OF s(1)] that] q(2) by auto
  moreover have "list_all2 (\<lambda>p es. on_disk_table X (op_kek (en_opts e)) (en_disk e) p es \<or> dk_files (en_disk e) p = None) (live_paths e) ess"
    using repD(4) [OF s(1)] unfolding disk_ok_def by (metis (no_types, lifting) list_all2_mono)
  moreover have "\<exists>ps qs. live_paths e = ps @ qs \<and> ps \<noteq> [] \<and> map tb_path (en_l0 e) = [] @ ps \<and> map tb_path (en_levels e) = qs"
    using True s(2) by (auto simp: sstables_newest_first_def settings_def)
  ultimately have "run_ok X ?e ess m (Suc n)" "compact_in_flight X ?e ?job ess"
    using s(2) unfolding compact_in_flight_def by (simp, simp add: settings_def plain_def del: set_map)
  then show ?thesis using step by auto
qed

lemma collect_ok_InrD: "collect_ok xs = Inr ys \<Longrightarrow> xs = map Inr ys"
  by (induction xs arbitrary: ys rule: collect_ok.induct) (auto simp: rbind_eq_Inr_iff)

lemma opened_inputs:
  assumes "collect_ok (map (open_table X d kek) ps) = Inr ts"
    "list_all2 (\<lambda>p es. on_disk_table X kek d p es \<or> dk_files d p = None) ps ins"
  shows "list_all2 (\<lambda>t. sst_holds X (tb_sst t)) ts ins"
proof -
  have m: "map (open_table X d kek) ps = map Inr ts" using collect_ok_InrD [OF assms(1)] .
  then have len: "length ps = length ts" using map_eq_imp_length_eq by blast
  show ?thesis
  proof (rule list_all2_all_nthI)
    show "length ts = length ins" using len list_all2_lengthD [OF assms(2)] by simp
    fix i assume i: "i < length ts"
    then have "open_table X d kek (ps ! i) = Inr (ts ! i)" using m len by (metis nth_map)
    moreover have "on_disk_table X kek d (ps ! i) (ins ! i) \<or> dk_files d (ps ! i) = None"
      using list_all2_nthD [OF assms(2)] i len by simp
    ultimately show "sst_holds X (tb_sst (ts ! i)) (ins ! i)" by (auto simp: on_disk_table_def open_table_def)
  qed
qed

lemma run_build_compact:
  assumes X: "ext_ok X" "env_ok env" and r: "run_ok X e ess m n" "job_ok X e (CompactTaken job)"
  shows "\<exists>b' e'. build_job X env (CompactTaken job) e = Done b' e' \<and> run_ok X e' ess m (Suc n) \<and> job_ok X e' b'"
proof -
  obtain ins where c: "compact_in_flight X e job ins" using r(2) by auto
  have j: "reserved e (cj_output job)" "cj_kek job = op_kek (en_opts e)" "\<not> cj_encrypt_new job" "cj_expire_before job = None" "small ins"
      "\<forall>p \<in> set (cj_inputs job). \<exists>n < en_next_seq e. p = table_name n" "cj_output job \<notin> set (cj_inputs job)"
    and disk: "list_all2 (\<lambda>p es. on_disk_table X (op_kek (en_opts e)) (en_disk e) p es \<or> dk_files (en_disk e) p = None) (cj_inputs job) ins"
    using c by (simp_all add: compact_in_flight_def)
  have s: "rep X 0 e ess" using r(1) by (simp add: run_ok_def durable_def)
  show ?thesis
  proof (cases "collect_ok (map (open_table X (en_disk e) (cj_kek job)) (cj_inputs job))")
    case (Inl err)
    then show ?thesis using run_ok_Suc [OF r(1)] by (simp add: build_job_def build_compact_def)
  next
    case (Inr ts)
    let ?dt = "cj_deepest job" and ?ka = "cj_tombstone_keep_after job" and ?p = "cj_output job"
    let ?es = "compacted ?dt None ?ka ins"
    have "list_all2 (\<lambda>t. sst_holds X (tb_sst t)) ts ins" using opened_inputs [OF Inr [unfolded j(2)] disk] .
    from merge_write_holds [OF X this j(5), of None ?p ?dt "cj_codec job" None ?ka "en_disk e"]
    obtain t d where t: "merge_write X env None ?p ts ?dt (cj_codec job) None ?ka (en_disk e) = Some (Inr t, d)" "tb_path t = ?p"
        "sst_holds X (tb_sst t) ?es" "\<And>kek. on_disk_table X kek d ?p ?es"
        "\<forall>q. q \<noteq> ?p \<longrightarrow> q \<noteq> stamps_path ?p \<longrightarrow> dk_files d q = dk_files (en_disk e) q"
      by auto
    have b: "build_job X env (CompactTaken job) e = Done (CompactBuilt job t) (e\<lparr>en_disk := d\<rparr>)"
      using Inr t(1) j(3,4) by (simp add: build_job_def build_compact_def)
    have man: "dk_manifest d = dk_manifest (en_disk e)"
      using t(1) write_table_manifest by (simp add: merge_write_def Let_def)
    have live: "same_file (en_disk e) d q" if q: "q \<in> set (live_paths e)" for q
      by (rule reserved_other [OF j(1) t(5)]) (use q j(1) live_named [OF repD(4) [OF s] q] reserved_def in blast)+
    let ?e = "e\<lparr>en_disk := d\<rparr>"
    have run: "run_ok X ?e ess m (Suc n)" by (rule run_ok_same [OF r(1)]) (use live man in simp_all)
    have "same_file (en_disk e) d q" if q: "q \<in> set (cj_inputs job)" for q
      by (rule reserved_other [OF j(1) t(5)]) (use q j(6,7) in blast)+
    then have "list_all2 (\<lambda>p es. on_disk_table X (op_kek (en_opts e)) d p es \<or> dk_files d p = None) (cj_inputs job) ins"
      using on_disk_table_cong unfolding same_file_def by (intro list.rel_mono_strong [OF disk]) metis
    then have "compact_in_flight X ?e job ins"
      using c by (simp add: compact_in_flight_def reserved_def sstables_newest_first_def)
    then show ?thesis using b run t(2-4) by (auto simp: Let_def)
  qed
qed

text \<open>The engine after the installation of a compaction whose inputs are the oldest tables.\<close>

definition compact_installed :: "compact_job \<Rightarrow> table \<Rightarrow> table list \<Rightarrow> engine \<Rightarrow> engine" where
  "compact_installed job new_run recent e =
     (let e1 = persist_manifest (e\<lparr>en_compactions := en_compactions e + 1,
        en_compaction_bytes := en_compaction_bytes e + sst_disk_len (tb_sst new_run), en_l0 := recent, en_levels := [new_run]\<rparr>)
      in e1\<lparr>en_disk := remove_files (cj_inputs job) (en_disk e1)\<rparr>)"

lemma install_compact_present:
  assumes "en_l0 e = recent @ old" "map tb_path old @ map tb_path (en_levels e) = cj_inputs job" "old \<noteq> []" "distinct (live_paths e)"
  shows "install_compact job new_run e = (True, compact_installed job new_run recent e)"
proof -
  have in_job: "is_input job t \<longleftrightarrow> tb_path t \<in> tb_path ` set (old @ en_levels e)" for t
    by (simp add: is_input_def assms(2) [symmetric] image_Un)
  have "distinct (map tb_path recent @ map tb_path (old @ en_levels e))"
    using assms(4) by (simp only: sstables_newest_first_def assms(1) map_append append.assoc)
  then have "set (map tb_path recent) \<inter> set (map tb_path (old @ en_levels e)) = {}" unfolding distinct_append by blast
  then have disj: "tb_path t \<notin> tb_path ` set (old @ en_levels e)" if "t \<in> set recent" for t
    using that unfolding disjoint_iff set_map by blast
  have "filter (\<lambda>t. \<not> is_input job t) recent = recent" by (rule filter_True) (use disj in_job in blast)
  moreover have "filter (\<lambda>t. \<not> is_input job t) old = []" "filter (\<lambda>t. \<not> is_input job t) (en_levels e) = []"
    by (rule filter_False, simp add: in_job)+
  ultimately have "filter (\<lambda>t. \<not> is_input job t) (en_l0 e) = recent" "filter (\<lambda>t. \<not> is_input job t) (en_levels e) = []"
    by (simp_all add: assms(1))
  moreover have "list_ex (is_input job) (en_l0 e)" using assms(3) by (cases old) (simp_all add: assms(1) in_job)
  moreover have "list_all (\<lambda>p. p \<in> tb_path ` set (en_l0 e) \<or> p \<in> tb_path ` set (en_levels e)) (cj_inputs job)"
    unfolding assms(2) [symmetric] by (auto simp: list_all_iff assms(1))
  ultimately show ?thesis by (simp add: install_compact_def Let_def place_run_def compact_installed_def persist_manifest_def)
qed

lemma install_compact_absent:
  assumes "cj_inputs job \<noteq> []" "set (cj_inputs job) \<inter> set (live_paths e) = {}"
  shows "install_compact job new_run e = (False, e\<lparr>en_disk := remove_files [cj_output job] (en_disk e)\<rparr>)"
proof -
  have "\<not> list_all (\<lambda>p. p \<in> tb_path ` set (en_l0 e) \<or> p \<in> tb_path ` set (en_levels e)) (cj_inputs job)"
    using assms by (cases "cj_inputs job") (auto simp: sstables_newest_first_def)
  then show ?thesis by (simp add: install_compact_def)
qed

lemma inputs_contents:
  assumes "list_all2 (on_disk_table X kek d) ps ess" "list_all2 (\<lambda>p es. on_disk_table X kek d p es \<or> dk_files d p = None) ps ins"
  shows "ess = ins"
proof (rule nth_equalityI)
  show len: "length ess = length ins" using list_all2_lengthD [OF assms(1)] list_all2_lengthD [OF assms(2)] by simp
  fix i assume i: "i < length ess"
  have n: "i < length ps" using i assms(1) by (simp add: list_all2_lengthD)
  have o: "on_disk_table X kek d (ps ! i) (ess ! i)" using list_all2_nthD [OF assms(1) n] .
  then have "dk_files d (ps ! i) \<noteq> None" by (auto simp: on_disk_table_def open_table_def split: option.splits)
  then have "on_disk_table X kek d (ps ! i) (ins ! i)" using list_all2_nthD [OF assms(2) n] by auto
  then show "ess ! i = ins ! i" by (rule on_disk_table_unique [OF o])
qed

lemma run_installed:
  assumes r: "run_ok X e ess m n" and c: "compact_in_flight X e job ins" and t: "tb_path new_run = cj_output job"
    "sst_holds X (tb_sst new_run) (compacted (cj_deepest job) None (cj_tombstone_keep_after job) ins)"
    "on_disk_table X (op_kek (en_opts e)) (en_disk e) (cj_output job) (compacted (cj_deepest job) None (cj_tombstone_keep_after job) ins)"
    and l: "en_l0 e = recent @ old" "map tb_path old @ map tb_path (en_levels e) = cj_inputs job"
  shows "\<exists>ess'. run_ok X (compact_installed job new_run recent e) ess' m (Suc n)"
proof -
  let ?e = "compact_installed job new_run recent e" and ?es = "compacted (cj_deepest job) None (cj_tombstone_keep_after job) ins"
  have s: "rep X 0 e ess" "log_ok X 0 e ess" "settings e" "counters e n" "clock_ahead e ess"
    using r by (simp_all add: run_ok_def durable_def)
  have f: "en_mem ?e = en_mem e" "en_frozen ?e = en_frozen e" "en_wal ?e = en_wal e" "en_next_wal_seq ?e = en_next_wal_seq e"
    "en_clock ?e = en_clock e" "en_ttl_ms ?e = en_ttl_ms e" "en_opts ?e = en_opts e" "en_next_seq ?e = en_next_seq e"
    "en_read_cache ?e = en_read_cache e" "en_l0 ?e = recent" "en_levels ?e = [new_run]" "memtables ?e = memtables e"
    by (simp_all add: compact_installed_def Let_def persist_manifest_def memtables_def)
  have tables: "sstables_newest_first e = recent @ old @ en_levels e" "sstables_newest_first ?e = recent @ new_run # []"
    by (simp_all add: sstables_newest_first_def l(1) f)
  have paths: "live_paths e = map tb_path recent @ cj_inputs job @ []" "live_paths ?e = map tb_path recent @ cj_output job # []"
    by (simp_all add: tables l(2) t(1))
  obtain k where k: "cj_output job = table_name k" "k < en_next_seq e" "cj_output job \<notin> set (live_paths e)"
    using c by (auto simp: compact_in_flight_def reserved_def)
  have named: "\<forall>p \<in> set (cj_inputs job). \<exists>m. p = table_name m"
    and disk: "list_all2 (\<lambda>p es. on_disk_table X (op_kek (en_opts e)) (en_disk e) p es \<or> dk_files (en_disk e) p = None) (cj_inputs job) ins"
    using c by (auto simp: compact_in_flight_def)
  have same: "same_file (en_disk e) (en_disk ?e) p" if p: "p = table_name j" "p \<notin> set (cj_inputs job)" for p j
    using remove_files_same [of j "cj_inputs job"] p named
    by (simp add: compact_installed_def Let_def persist_manifest_def) (simp add: same_file_def)
  obtain pre ins' where ess: "ess = pre @ ins' @ []" and pre: "list_all2 (\<lambda>t. sst_holds X (tb_sst t)) recent pre"
      "list_all2 (\<lambda>t. sst_holds X (tb_sst t)) (old @ en_levels e) ins'"
    using eng_okD(2) [OF repD(1) [OF s(1)]] unfolding tables(1) by (auto simp: list_all2_append1)
  have len: "length (map tb_path recent) = length pre" "length (cj_inputs job) = length ins'"
    using pre l(2) by (auto dest!: list_all2_lengthD simp flip: l(2))
  have d_ok: "disk_ok X e (pre @ ins' @ [])" using repD(4) [OF s(1)] ess by simp
  then have "list_all2 (on_disk_table X (op_kek (en_opts e)) (en_disk e)) (map tb_path recent @ cj_inputs job) (pre @ ins')"
    unfolding disk_ok_def paths(1) by simp
  then have "list_all2 (on_disk_table X (op_kek (en_opts e)) (en_disk e)) (cj_inputs job) ins'"
    using list_all2_append [OF len(1)] by blast
  from inputs_contents [OF this disk] have ins: "ins' = ins" .
  have dist: "distinct (live_paths e)" using repD(4) [OF s(1)] by (simp add: disk_ok_def)
  have new: "\<forall>p \<in> set (map tb_path recent @ []). same_file (en_disk e) (en_disk ?e) p"
  proof
    fix p assume p: "p \<in> set (map tb_path recent @ [])"
    then have "p \<notin> set (cj_inputs job)" using dist unfolding paths(1) distinct_append by auto
    moreover have "p \<in> set (live_paths e)" using p unfolding paths(1) by simp
    ultimately show "same_file (en_disk e) (en_disk ?e) p" using live_named [OF repD(4) [OF s(1)]] same by blast
  qed
  have out: "on_disk_table X (op_kek (en_opts e)) (en_disk ?e) (table_name k) ?es"
    using t(3) on_disk_table_cong [OF same [OF k(1)]] c unfolding k(1) by (simp add: compact_in_flight_def k(1))
  have "disk_ok X ?e (pre @ ?es # [])"
    by (rule disk_ok_replace [OF d_ok paths(1) len paths(2) [unfolded k(1)] f(7) _ _ k(3) [unfolded k(1)] out new])
      (simp_all add: f k(2))
  note rr = rep_replace [OF s(1) [unfolded ess ins] _ _ f(12,9) tables(2) pre(1) t(2) _ this]
  have rep: "rep X 0 ?e (pre @ ?es # [])" "same_view 0 (sources e ess) (sources ?e (pre @ ?es # []))"
    "shrinks (sources e ess) (sources ?e (pre @ ?es # []))"
    using rr unfolding ess ins by simp_all
  have "log_ok X 0 ?e (pre @ ?es # [])" by (rule log_ok_view [OF s(2) rep(2,3)]) (simp_all add: f)
  moreover have "manifest_ok ?e"
    by (simp add: manifest_ok_def f) (simp add: compact_installed_def Let_def persist_manifest_def)
  moreover have "settings ?e" using s(3) by (simp add: settings_def plain_def f)
  moreover have "counters ?e (Suc n)" using s(4) by (simp add: counters_def work_def log_size_def f)
  moreover have "clock_ahead ?e (pre @ ?es # [])" using s(5) rep(3) unfolding clock_ahead_def shrinks_def f(5) by blast
  moreover have "content (held (sources ?e (pre @ ?es # [])) q) = m q" for q
    using content_answer [OF rep(2) [unfolded same_view_def, rule_format, of q]] r by (simp add: run_ok_def)
  moreover have "sum_list (map length (sources ?e (pre @ ?es # []))) \<le> Suc n" using rep(3) r unfolding shrinks_def run_ok_def by linarith
  ultimately show ?thesis using rep(1) unfolding run_ok_def durable_def by blast
qed

lemma run_finish_compact:
  assumes r: "run_ok X e ess m n" "job_ok X e (CompactBuilt job new_run)"
  shows "\<exists>ess'. run_ok X (finish_compact_job job new_run e) ess' m (Suc n)"
proof -
  obtain ins where c: "compact_in_flight X e job ins" and t: "tb_path new_run = cj_output job"
    "sst_holds X (tb_sst new_run) (compacted (cj_deepest job) None (cj_tombstone_keep_after job) ins)"
    "on_disk_table X (op_kek (en_opts e)) (en_disk e) (cj_output job) (compacted (cj_deepest job) None (cj_tombstone_keep_after job) ins)"
    using r(2) by (auto simp: Let_def)
  have d: "disk_ok X e ess" using r(1) by (simp add: run_ok_def durable_def rep_def)
  obtain ps qs where ps: "cj_inputs job = ps @ qs" "ps \<noteq> []"
    "(\<exists>new. map tb_path (en_l0 e) = new @ ps) \<and> map tb_path (en_levels e) = qs \<or> set (cj_inputs job) \<inter> set (live_paths e) = {}"
    using c unfolding compact_in_flight_def by blast
  from ps(3) show ?thesis
  proof
    assume l: "(\<exists>new. map tb_path (en_l0 e) = new @ ps) \<and> map tb_path (en_levels e) = qs"
    then obtain new where "map tb_path (en_l0 e) = new @ ps" by blast
    then obtain recent old where o: "en_l0 e = recent @ old" "map tb_path old = ps" by (auto simp: map_eq_append_conv)
    have i: "map tb_path old @ map tb_path (en_levels e) = cj_inputs job" "old \<noteq> []" using o(2) l ps(1,2) by auto
    have "distinct (live_paths e)" using d by (simp add: disk_ok_def)
    from install_compact_present [OF o(1) i this, of new_run] show ?thesis
      using run_installed [OF r(1) c t o(1) i(1)] by (simp add: finish_compact_job_def)
  next
    assume a: "set (cj_inputs job) \<inter> set (live_paths e) = {}"
    have ne: "cj_inputs job \<noteq> []" using ps(1,2) by simp
    obtain k where k: "cj_output job = table_name k" "cj_output job \<notin> set (live_paths e)"
      using c by (auto simp: compact_in_flight_def reserved_def)
    have "same_file (en_disk e) (remove_files [cj_output job] (en_disk e)) p" if p: "p \<in> set (live_paths e)" for p
    proof -
      obtain j where j: "p = table_name j" using live_named [OF d p] by blast
      have "table_name j \<notin> set [cj_output job]" using k(2) p j by auto
      then show ?thesis using remove_files_same [of j "[cj_output job]" "en_disk e"] k(1) j by simp
    qed
    then have "run_ok X (e\<lparr>en_disk := remove_files [cj_output job] (en_disk e)\<rparr>) ess m (Suc n)"
      by (intro run_ok_same [OF r(1)]) simp_all
    then show ?thesis using install_compact_absent [OF ne a] by (auto simp: finish_compact_job_def)
  qed
qed

section \<open>Runs\<close>

lemma run_step:
  assumes X: "ext_ok X" "env_ok env" and r: "run_ok X e ess m n" "n < 536870912" "job_ok X e b" and op: "op_ok op"
  shows "\<exists>b' e' ess'. engine_step X env op b e = Done b' e' \<and> run_ok X e' ess' (map_step op m) (Suc n) \<and> job_ok X e' b'"
proof -
  have lv: "length (en_levels e) \<le> 1" using r(1) by (simp add: run_ok_def settings_def)
  note keep = job_leaves [OF _ lv r(3)]
  show ?thesis
  proof (cases op)
    case (OpPut key val)
    then have "entry_ok (key, hlc_MIN, Put val)" using op by simp
    from run_put [OF X r(1,2) this]
    obtain h e' ess' where "put X env key val e = Done h e'" "leaves e e'" "run_ok X e' ess' (m(key := Some val)) (Suc n)" by blast
    then show ?thesis using OpPut keep by auto
  next
    case (OpDelete key)
    then have "entry_ok (key, hlc_MIN, Delete)" using op by simp
    from run_delete [OF X r(1,2) this]
    obtain h e' ess' where "delete X env key e = Done h e'" "leaves e e'" "run_ok X e' ess' (m(key := None)) (Suc n)" by blast
    then show ?thesis using OpDelete keep by auto
  next
    case (OpGet key)
    obtain e' where e': "engine_get X env key e = Done (m key) e'" "same_data e e'" "run_ok X e' ess m n"
      using run_get [OF r(1)] by blast
    have "frame e e'" by (rule frame_same_tables) (use e'(2) in \<open>simp_all add: same_data_def\<close>)
    then have "leaves e e'" using e'(2) by (simp add: leaves_def same_data_def in_flight_def)
    then show ?thesis using OpGet e'(1) run_ok_Suc [OF e'(3)] keep by auto
  next
    case OpFlush
    then show ?thesis using run_flush [OF X r(1,2)] keep by fastforce
  next
    case OpTakeFlush
    then show ?thesis using run_take_flush [OF r] by (auto split: prod.splits)
  next
    case OpTakeCompact
    then show ?thesis using run_take_compact [OF r, of env] by (auto split: prod.splits)
  next
    case OpBuild
    show ?thesis
    proof (cases b)
      case (FlushTaken job)
      then show ?thesis using run_build_flush [OF X r(1)] r(3) OpBuild by fastforce
    next
      case (CompactTaken job)
      then show ?thesis using run_build_compact [OF X r(1)] r(3) OpBuild by fastforce
    qed (use OpBuild r(3) run_ok_Suc [OF r(1)] in \<open>auto simp: build_job_def\<close>)
  next
    case OpFinish
    show ?thesis
    proof (cases b)
      case (FlushBuilt job built)
      then show ?thesis using run_finish_flush [OF X(1) r(1)] r(3) OpFinish by (fastforce simp: finish_job_def)
    next
      case (CompactBuilt job new_run)
      then show ?thesis using run_finish_compact [OF r(1)] r(3) OpFinish by (fastforce simp: finish_job_def)
    qed (use OpFinish r(3) run_ok_Suc [OF r(1)] in \<open>auto simp: finish_job_def\<close>)
  qed
qed

lemma run_steps:
  assumes X: "ext_ok X" and ops: "\<forall>(env, op) \<in> set ops. env_ok env \<and> op_ok op"
    and r: "run_ok X e ess m n" "n + length ops < 536870912" "job_ok X e b"
  shows "\<exists>b' e' ess'. engine_run X ops b e = Done b' e' \<and> run_ok X e' ess' (fold map_step (map snd ops) m) (n + length ops) \<and>
    job_ok X e' b'"
  using ops r
proof (induction ops arbitrary: b e ess m n)
  case (Cons x ops)
  obtain env op where x: "x = (env, op)" by (cases x)
  have ok: "env_ok env" "op_ok op" using Cons.prems(1) x by auto
  have "n < 536870912" using Cons.prems(3) by simp
  from run_step [OF X ok(1) Cons.prems(2) this Cons.prems(4) ok(2)]
  obtain b' e' ess' where s: "engine_step X env op b e = Done b' e'" "run_ok X e' ess' (map_step op m) (Suc n)" "job_ok X e' b'" by blast
  have "\<exists>b'' e'' ess''. engine_run X ops b' e' = Done b'' e'' \<and>
      run_ok X e'' ess'' (fold map_step (map snd ops) (map_step op m)) (Suc n + length ops) \<and> job_ok X e'' b''"
    by (rule Cons.IH [OF _ s(2) _ s(3)]) (use Cons.prems in auto)
  then show ?case using s(1) x by auto
qed auto

subsection \<open>A new engine\<close>

definition new_directory :: directory where
  "new_directory = \<lparr>di_wal_log = [], di_segs = [], di_disk = empty_disk\<rparr>"

text \<open>Options of a disk-backed engine without encryption at rest.\<close>

definition plain_options :: "engine_options \<Rightarrow> bool" where
  "plain_options opts \<longleftrightarrow> \<not> op_ephemeral opts \<and> \<not> op_at_rest_enabled opts \<and> 0 < op_l0_compaction_trigger opts"

lemma wal_open_plain:
  assumes "wal_open X f segs chunk kek False rk rn = Inr (w, rs)" "recover_file X f kek = Inr (active, good, None)"
  shows "wal_crypto w = None" "\<not> ws_ephemeral (wal_sync w)"
  using assms by (auto simp: wal_open_def rbind_eq_Inr_iff open_crypto_def Let_def)

lemma run_open_new:
  assumes X: "ext_ok X" "env_ok env" and o: "plain_options opts"
  shows "\<exists>e. open_with_options X env new_directory opts = Inr e \<and> run_ok X e [] (\<lambda>_. None) 0"
proof -
  have aead: "aead_ok X" using X(1) by (simp add: ext_ok_def)
  obtain rk rn where rng: "ev_wal_rng env 0 = (rk, rn)" by force
  have rk: "rng_ok rk rn" using X(2) rng by (metis env_ok_def fst_conv snd_conv)
  let ?chunk = "min (of_nat (op_flush_threshold_bytes opts)) WAL_PREALLOC_CHUNK_BYTES :: u64" and ?kek = "op_kek opts"
  have c: "crypto_ok X ?kek None" "log_file X None [] [] (unat (0 :: u64))" "segs_rel X ?kek [] []"
    by (simp_all add: crypto_ok_def log_file_def header_of_def segs_rel_def)
  obtain w where w: "wal_open X [] [] ?chunk ?kek False rk rn = Inr (w, [])"
    using open_total [OF aead c, of False rk rn ?chunk] by auto
  note k = open_keeps_log [OF aead rk c w]
  have pl: "wal_crypto w = None" "\<not> ws_ephemeral (wal_sync w)"
    using wal_open_plain [OF w] recover_log_file [OF aead c(1,2)] by simp_all
  let ?e = "\<lparr>en_wal = w, en_mem = mt_new, en_frozen = [], en_next_wal_seq = 1, en_write_seq = 0, en_clock = hlc_clock_new,
    en_ttl_ms = None, en_tombstone_retention_ms = 0, en_opts = opts, en_l0 = [], en_levels = [], en_next_seq = 0,
    en_read_cache = rc_new (op_read_cache_capacity opts) (op_read_cache_bytes opts), en_compactions = 0,
    en_compaction_bytes = 0, en_sst_negative_lookups = 0, en_maint_watermark = hlc_MAX, en_disk = empty_disk\<rparr>"
  have op: "open_with_options X env new_directory opts = Inr ?e"
    using o w rng by (simp add: open_with_options_def new_directory_def plain_options_def load_manifest_def empty_disk_def Let_def)
  have l: "mem_lists ?e = [[]]" by (simp add: mem_lists_def memtables_def mt_iter_latest_lazy_def mt_new_def)
  have "rep X 0 ?e []"
    using mt_inv_new
    by (simp add: rep_def eng_ok_def cache_ok_def disk_ok_def l sstables_newest_first_def rc_new_empty memtables_def
        stamps_down_Cons small_def stamps_down_def)
  moreover have "log_parts X ?e [] [] []"
    using k by (simp add: log_parts_def mt_iter_latest_lazy_def mt_new_def c(3))
  then have "log_ok X 0 ?e []" unfolding log_ok_def
    by (intro exI [of _ "[]"]) (simp add: log_contents_def covers_def)
  moreover have "manifest_ok ?e" by (simp add: manifest_ok_def empty_disk_def)
  moreover have "settings ?e" using o pl by (simp add: settings_def plain_def plain_options_def)
  moreover have "unat ?chunk \<le> unat WAL_PREALLOC_CHUNK_BYTES" by (simp add: word_le_nat_alt [symmetric])
  then have "counters ?e 0"
    using k(4,5) by (simp add: counters_def work_def log_size_def hlc_clock_new_def hlc_MIN_def WAL_PREALLOC_CHUNK_BYTES_def)
  moreover have "clock_ahead ?e []" by (simp add: clock_ahead_def l)
  ultimately have "run_ok X ?e [] (\<lambda>_. None) 0" by (simp add: run_ok_def durable_def l)
  then show ?thesis using op by blast
qed

subsection \<open>Reopening\<close>

lemma load_lines_opened:
  assumes "parse_lines lines = Inr ls" "\<forall>(lvl, name) \<in> set ls. open_table X d kek name = Inr (T name)"
  shows "\<exists>seq. load_lines X d kek lines l0 leveled max_seq =
    Inr (l0 @ map (T \<circ> snd) (filter (\<lambda>x. fst x = 0) ls), leveled @ map (map_prod id T) (filter (\<lambda>x. fst x \<noteq> 0) ls), seq)"
  using assms
proof (induction lines arbitrary: ls l0 leveled max_seq)
  case (Cons line lines)
  then obtain x xs where x: "parse_line line = Inr x" "parse_lines lines = Inr xs" "ls = (case x of Some y \<Rightarrow> y # xs | None \<Rightarrow> xs)"
    by (auto simp: rbind_eq_Inr_iff)
  show ?case
  proof (cases x)
    case None
    then show ?thesis using Cons.IH [OF x(2)] Cons.prems(2) x by simp
  next
    case (Some y)
    obtain lvl name where y: "y = (lvl, name)" by (cases y)
    have o: "open_table X d kek name = Inr (T name)" "\<forall>(lvl, name) \<in> set xs. open_table X d kek name = Inr (T name)"
      using Cons.prems(2) x(3) Some y by auto
    let ?seq = "case table_seq name of None \<Rightarrow> max_seq | Some seq \<Rightarrow> max max_seq (seq + 1)"
    show ?thesis
      using Cons.IH [OF x(2) o(2), of "l0 @ [T name]" leveled ?seq] Cons.IH [OF x(2) o(2), of l0 "leveled @ [(lvl, T name)]" ?seq]
        x(1,3) Some y o(1)
      by (cases "lvl = 0") (simp_all add: Let_def)
  qed
qed simp

lemma load_manifest_opened:
  assumes "dk_manifest d = Some (manifest_text ps qs)" "\<forall>p \<in> set (ps @ qs). (\<exists>n. p = table_name n) \<and> open_table X d kek p = Inr (T p)"
    "length qs \<le> 1"
  shows "\<exists>seq. load_manifest X d kek = Inr (map T ps, map T qs, seq)"
proof -
  have names: "\<forall>n \<in> set (ps @ qs). name_ok n" using assms(2) table_name_ok by metis
  let ?ls = "map (Pair 0) ps @ enumerate 1 qs"
  have parse: "parse_lines (str_lines [] (manifest_text ps qs)) = Inr ?ls"
    using assms(3) by (intro parse_manifest_text [OF names]) simp
  consider "qs = []" | q where "qs = [q]" using assms(3) by (cases qs) auto
  note qs = this
  have opened: "\<forall>(lvl, name) \<in> set ?ls. open_table X d kek name = Inr (T name)"
    by (cases rule: qs) (use assms(2) in auto)
  have zero: "filter (\<lambda>x. fst x = 0) (map (Pair 0) ps) = map (Pair (0 :: nat)) ps"
    "filter (\<lambda>x. fst x \<noteq> 0) (map (Pair (0 :: nat)) ps) = []" by (simp_all add: filter_map comp_def)
  from load_lines_opened [OF parse opened, of "[]" "[]" 0] obtain seq where
    "load_lines X d kek (str_lines [] (manifest_text ps qs)) [] [] 0 =
      Inr (map (T \<circ> snd) (filter (\<lambda>x. fst x = 0) ?ls), map (map_prod id T) (filter (\<lambda>x. fst x \<noteq> 0) ?ls), seq)"
    by auto
  then show ?thesis by (cases rule: qs) (simp_all add: load_manifest_def assms(1) zero comp_def)
qed

lemma log_map_None: "log_map rs k = None \<longleftrightarrow> k \<notin> wr_key ` set rs"
  by (auto simp: log_map_def map_of_eq_None_iff log_entry_def image_image)

lemma log_absent:
  assumes "log_parts X e old cur rs" "log_map (log_contents (old @ cur, rs)) k = None"
  shows "held (mem_lists e) k = None"
proof -
  have l: "log_map rs k = None" "\<forall>s \<in> set cur. log_map (snd s) k = None"
    using assms(2) by (auto simp: log_map_None log_contents_def)
  have "map_of (mt_iter_latest_lazy (fm_mem f)) k = None" if f: "f \<in> set (en_frozen e)" for f
  proof -
    obtain i where i: "i < length (en_frozen e)" "en_frozen e ! i = f" using f by (auto simp: in_set_conv_nth)
    have p: "list_all2 (\<lambda>f s. fst s = fm_wal_seq f \<and> (\<forall>k. map_of (mt_iter_latest_lazy (fm_mem f)) k = log_map (snd s) k)) (en_frozen e) cur"
      using assms(1) unfolding log_parts_def by blast
    have "map_of (mt_iter_latest_lazy (fm_mem f)) k = log_map (snd (cur ! i)) k" using list_all2_nthD [OF p i(1)] i(2) by simp
    then show ?thesis using l(2) i(1) list_all2_lengthD [OF p] by simp
  qed
  moreover have "map_of (mt_iter_latest_lazy (en_mem e)) k = None" using assms(1) l(1) by (simp add: log_parts_def)
  ultimately show ?thesis by (auto simp: held_None_iff mem_lists_def memtables_def)
qed

text \<open>A memtable replayed from a log that covers the sources stands in for the memtables.\<close>

lemma covers_replayed:
  assumes c: "covers 0 L (sources e ess)" "stamps_down (sources e ess)"
    and a: "\<And>k. log_map L k = None \<Longrightarrow> held (mem_lists e) k = None"
    and m: "\<And>k. map_of r k = log_map L k"
  shows "content (held (r # ess) k) = content (held (sources e ess) k)" "stamps_down (r # ess)"
proof -
  show "content (held (r # ess) k) = content (held (sources e ess) k)"
  proof (cases "log_map L k")
    case None
    then show ?thesis using a [OF None] m [of k] by (simp add: held_append)
  next
    case (Some x)
    then have "answer_ok 0 (held (sources e ess) k) (Some x)" using c(1) unfolding covers_def by blast
    then show ?thesis using m [of k] Some content_answer by simp
  qed
  have "stamps_down ess" using c(2) by (simp add: stamps_down_def sorted_wrt_append)
  moreover have "not_older r s" if "s \<in> set ess" for s
    unfolding not_older_def
  proof (intro allI impI)
    fix k x y assume "map_of r k = Some x" "map_of s k = Some y"
    then have "log_map L k = Some x" "(k, y) \<in> set (concat (sources e ess))" using m that by (auto dest: map_of_SomeD)
    then show "fst y \<le> fst x" using c(1) unfolding covers_def by blast
  qed
  ultimately show "stamps_down (r # ess)" by (simp add: stamps_down_Cons)
qed

lemma reopen_tables:
  assumes "disk_ok X e ess" "manifest_ok e" "length (en_levels e) \<le> 1"
  shows "\<exists>l0 levels seq. load_manifest X (en_disk e) (op_kek (en_opts e)) = Inr (l0, levels, seq) \<and>
    list_all2 (\<lambda>t. sst_holds X (tb_sst t)) (l0 @ levels) ess"
proof -
  let ?kek = "op_kek (en_opts e)" and ?d = "en_disk e"
  let ?ps = "map tb_path (en_l0 e)" and ?qs = "map tb_path (en_levels e)"
  define T where "T p = projr (open_table X ?d ?kek p)" for p
  have live: "live_paths e = ?ps @ ?qs" by (simp add: sstables_newest_first_def)
  have t: "open_table X ?d ?kek p = Inr (T p) \<and> sst_holds X (tb_sst (T p)) es" if "on_disk_table X ?kek ?d p es" for p es
    using that by (auto simp: on_disk_table_def T_def)
  have held: "list_all2 (on_disk_table X ?kek ?d) (?ps @ ?qs) ess" using assms(1) live by (simp add: disk_ok_def)
  then have "list_all2 (\<lambda>p es. open_table X ?d ?kek p = Inr (T p) \<and> sst_holds X (tb_sst (T p)) es) (?ps @ ?qs) ess"
    by (rule list.rel_mono_strong) (rule t)
  then have tabs: "\<forall>p \<in> set (?ps @ ?qs). open_table X ?d ?kek p = Inr (T p)"
    "list_all2 (\<lambda>t. sst_holds X (tb_sst t)) (map T (?ps @ ?qs)) ess"
    unfolding list_all2_map1 by (auto simp only: list_all2_conv_all_nth in_set_conv_nth)
  have names: "\<forall>p \<in> set (?ps @ ?qs). \<exists>n. p = table_name n" using live_named [OF assms(1)] live by metis
  show ?thesis
  proof (cases "dk_manifest ?d")
    case None
    then have "en_l0 e = []" "en_levels e = []" using assms(2) by (simp_all add: manifest_ok_def)
    then show ?thesis using None tabs(2) by (auto simp: load_manifest_def)
  next
    case (Some t)
    then have "dk_manifest ?d = Some (manifest_text ?ps ?qs)" using assms(2) by (simp add: manifest_ok_def)
    from load_manifest_opened [OF this, of X ?kek T] obtain seq where
      "load_manifest X ?d ?kek = Inr (map T ?ps, map T ?qs, seq)" using tabs(1) names assms(3) by auto
    then show ?thesis using tabs(2) by auto
  qed
qed

lemma run_reopen:
  assumes X: "ext_ok X" and r: "run_ok X e ess m n"
  shows "\<exists>e2. open_with_options X env (on_disk e) (en_opts e) = Inr e2 \<and> eng_ok X 0 e2 ess \<and>
    stamps_down (sources e2 ess) \<and> en_ttl_ms e2 = None \<and> (\<forall>k. content (held (sources e2 ess) k) = m k)"
proof -
  have aead: "aead_ok X" using X by (simp add: ext_ok_def)
  have s: "settings e" "rep X 0 e ess" "log_ok X 0 e ess" "manifest_ok e"
    using r by (simp_all add: run_ok_def durable_def)
  obtain old cur rs where l: "log_parts X e old cur rs" "sorted (map wr_hlc (log_contents (old @ cur, rs)))"
    "covers 0 (log_contents (old @ cur, rs)) (sources e ess)"
    using s(3) unfolding log_ok_def by blast
  let ?L = "log_contents (old @ cur, rs)"
  obtain rk rn where rng: "ev_wal_rng env 0 = (rk, rn)" by force
  have p: "crypto_ok X (op_kek (en_opts e)) (wal_crypto (en_wal e))"
    "log_file X (wal_crypto (en_wal e)) rs (ws_file (wal_sync (en_wal e))) (unat (ws_write_offset (wal_sync (en_wal e))))"
    "segs_rel X (op_kek (en_opts e)) (wal_segs (en_wal e)) (old @ cur)"
    using l(1) by (simp_all add: log_parts_def wal_rel_def)
  have plain: "\<not> op_at_rest_enabled (en_opts e)" "\<not> op_ephemeral (en_opts e)" "length (en_levels e) \<le> 1"
    using s(1) by (simp_all add: settings_def plain_def)
  obtain w where w: "wal_open X (ws_file (wal_sync (en_wal e))) (wal_segs (en_wal e))
      (min (of_nat (op_flush_threshold_bytes (en_opts e))) WAL_PREALLOC_CHUNK_BYTES) (op_kek (en_opts e)) False rk rn = Inr (w, ?L)"
    using open_total [OF aead p, of False rk rn "min (of_nat (op_flush_threshold_bytes (en_opts e))) WAL_PREALLOC_CHUNK_BYTES"]
    by (auto simp: log_contents_def)
  obtain mem mx where rp: "replay_records ?L mt_new hlc_MIN = (mem, mx)" by force
  have mem: "mt_inv mem" "\<And>k. map_of (mt_iter_latest_lazy mem) k = log_map ?L k"
    using replay_log [OF l(2), of hlc_MIN] rp by auto
  obtain l0 levels seq where t: "load_manifest X (en_disk e) (op_kek (en_opts e)) = Inr (l0, levels, seq)"
    "list_all2 (\<lambda>t. sst_holds X (tb_sst t)) (l0 @ levels) ess"
    using reopen_tables [OF repD(4) [OF s(2)] s(4) plain(3)] by blast
  obtain e2 where op: "open_with_options X env (on_disk e) (en_opts e) = Inr e2"
    and e2: "en_mem e2 = mem" "en_frozen e2 = []" "en_l0 e2 = l0" "en_levels e2 = levels" "en_ttl_ms e2 = None"
      "en_read_cache e2 = rc_new (op_read_cache_capacity (en_opts e)) (op_read_cache_bytes (en_opts e))"
    using w rng rp t(1) plain by (simp add: open_with_options_def on_disk_def Let_def)
  have lists: "mem_lists e2 = [mt_iter_latest_lazy mem]" by (simp add: mem_lists_def memtables_def e2)
  have "eng_ok X 0 e2 ess"
    using mem(1) t(2) by (simp add: eng_ok_def cache_ok_def memtables_def sstables_newest_first_def e2 rc_new_empty)
  then show ?thesis
    using op e2(5) r covers_replayed [OF l(3) repD(2) [OF s(2)] log_absent [OF l(1)] mem(2)] by (auto simp: lists run_ok_def)
qed

section \<open>Properties\<close>

lemma run_from_new:
  assumes "ext_ok X" "env_ok env" "plain_options opts" "\<forall>(env, op) \<in> set ops. env_ok env \<and> op_ok op" "length ops < 536870912"
  shows "\<exists>e0 b e ess. open_with_options X env new_directory opts = Inr e0 \<and> engine_run X ops Idle e0 = Done b e \<and>
    run_ok X e ess (fold map_step (map snd ops) (\<lambda>_. None)) (length ops)"
proof -
  obtain e0 where e0: "open_with_options X env new_directory opts = Inr e0" "run_ok X e0 [] (\<lambda>_. None) 0"
    using run_open_new [OF assms(1-3)] by blast
  obtain b e ess where "engine_run X ops Idle e0 = Done b e"
    "run_ok X e ess (fold map_step (map snd ops) (\<lambda>_. None)) (0 + length ops)"
    using run_steps [OF assms(1,4) e0(2), of Idle] assms(5) by auto
  then show ?thesis using e0(1) by auto
qed

text \<open>
  C1: from a fresh directory, any run of puts, deletes, point reads and flushes, interleaved in any way
  with a background thread that takes, builds and installs flush and compaction jobs, ends without an
  error or a panic, and then every point read and the full scan return exactly the map that the puts
  and deletes of the run make.
\<close>

theorem engine_run_refines:
  assumes "ext_ok X" and "env_ok env" and "plain_options opts"
    and "\<forall>(env, op) \<in> set ops. env_ok env \<and> op_ok op" and "length ops < 536870912"
  shows "\<exists>e0 b e. open_with_options X env new_directory opts = Inr e0 \<and> engine_run X ops Idle e0 = Done b e \<and>
    (\<forall>env' k. \<exists>e'. engine_get X env' k e = Done (fold map_step (map snd ops) (\<lambda>_. None) k) e') \<and>
    (\<forall>env'. \<exists>rows. scan X env' e = Inr rows \<and> bt_ok rows \<and> map_of rows = fold map_step (map snd ops) (\<lambda>_. None))"
  using run_from_new [OF assms] run_get run_scan by meson

definition example_ops :: "(engine_env \<times> engine_op) list" where
  "example_ops = map (Pair example_wall)
     [OpPut [1] [7], OpPut [2] [8], OpFlush, OpPut [1] [9], OpTakeFlush, OpDelete [2], OpBuild, OpPut [3] [], OpFinish,
      OpTakeCompact, OpBuild]"

lemma example_run_ok:
  "ext_ok plain_externals" "env_ok example_wall" "plain_options engine_options_default"
  "\<forall>(env, op) \<in> set example_ops. env_ok env \<and> op_ok op" "length example_ops < 536870912"
  "fold map_step (map snd example_ops) (\<lambda>_. None) = [[1] \<mapsto> [9], [3] \<mapsto> []]"
proof -
  show "ext_ok plain_externals" by (simp add: ext_ok_def codec_ok_plain aead_ok_plain sizing_ok_plain)
  show env: "env_ok example_wall" by (simp add: env_ok_def example_wall_def rng_ok_def)
  show "plain_options engine_options_default" by (simp add: plain_options_def engine_options_default_def)
  show "length example_ops < 536870912" by (simp add: example_ops_def)
  show "\<forall>(env, op) \<in> set example_ops. env_ok env \<and> op_ok op"
    using env by (simp add: example_ops_def entry_ok_def encode_entry_def)
  show "fold map_step (map snd example_ops) (\<lambda>_. None) = [[1] \<mapsto> [9], [3] \<mapsto> []]"
    by (simp add: example_ops_def fun_eq_iff)
qed

theorem engine_run_refines_witness:
  "\<exists>e0 b e e1 e2 rows. open_with_options plain_externals example_wall new_directory engine_options_default = Inr e0 \<and>
     engine_run plain_externals example_ops Idle e0 = Done b e \<and>
     engine_get plain_externals example_wall [1] e = Done (Some [9]) e1 \<and>
     engine_get plain_externals example_wall [2] e = Done None e2 \<and>
     scan plain_externals example_wall e = Inr rows \<and> map_of rows = [[1] \<mapsto> [9], [3] \<mapsto> []]"
proof -
  obtain e0 b e where r: "open_with_options plain_externals example_wall new_directory engine_options_default = Inr e0"
    "engine_run plain_externals example_ops Idle e0 = Done b e"
    and g: "\<forall>env' k. \<exists>e'. engine_get plain_externals env' k e = Done ([[1] \<mapsto> [9], [3] \<mapsto> []] k) e'"
    and s: "\<forall>env'. \<exists>rows. scan plain_externals env' e = Inr rows \<and> bt_ok rows \<and> map_of rows = [[1] \<mapsto> [9], [3] \<mapsto> []]"
    using engine_run_refines [OF example_run_ok(1-5)] unfolding example_run_ok(6) by blast
  show ?thesis
    using r s [rule_format, of example_wall] g [rule_format, of example_wall "[1]"] g [rule_format, of example_wall "[2]"] by auto
qed

text \<open>
  C2: an engine stopped at any point of such a run, even with a background job in flight, can be opened
  again from what is on disk, whatever the clock then says, and every point read and the full scan of
  the reopened engine return exactly the map of the run: no acknowledged write is lost and no deleted
  key comes back.
\<close>

theorem engine_reopen_recovers:
  assumes "ext_ok X" and "env_ok env" and "plain_options opts"
    and "\<forall>(env, op) \<in> set ops. env_ok env \<and> op_ok op" and "length ops < 536870912"
  shows "\<exists>e0 b e. open_with_options X env new_directory opts = Inr e0 \<and> engine_run X ops Idle e0 = Done b e \<and>
    (\<forall>env'. \<exists>e2. open_with_options X env' (on_disk e) (en_opts e) = Inr e2 \<and>
      (\<forall>env'' k. \<exists>e3. engine_get X env'' k e2 = Done (fold map_step (map snd ops) (\<lambda>_. None) k) e3) \<and>
      (\<forall>env''. \<exists>rows. scan X env'' e2 = Inr rows \<and> bt_ok rows \<and> map_of rows = fold map_step (map snd ops) (\<lambda>_. None)))"
proof -
  let ?m = "fold map_step (map snd ops) (\<lambda>_. None)"
  obtain e0 b e ess where r: "open_with_options X env new_directory opts = Inr e0" "engine_run X ops Idle e0 = Done b e"
    "run_ok X e ess ?m (length ops)"
    using run_from_new [OF assms] by blast
  have "\<exists>e2. open_with_options X env' (on_disk e) (en_opts e) = Inr e2 \<and>
      (\<forall>env'' k. \<exists>e3. engine_get X env'' k e2 = Done (?m k) e3) \<and>
      (\<forall>env''. \<exists>rows. scan X env'' e2 = Inr rows \<and> bt_ok rows \<and> map_of rows = ?m)" for env'
  proof -
    obtain e2 where e2: "open_with_options X env' (on_disk e) (en_opts e) = Inr e2" "eng_ok X 0 e2 ess"
      "stamps_down (sources e2 ess)" "en_ttl_ms e2 = None" "\<And>k. content (held (sources e2 ess) k) = ?m k"
      using run_reopen [OF assms(1) r(3)] by blast
    have "\<exists>e3. engine_get X env'' k e2 = Done (?m k) e3" for env'' k
      using engine_get_holds [OF e2(2), of env'' k] content_live [OF e2(4)] e2(5) by (auto simp: cutoff_ok_def)
    then show ?thesis using e2(1) view_scan [OF e2(2-4), of ?m] e2(5) by blast
  qed
  then show ?thesis using r(1,2) by blast
qed

theorem engine_reopen_recovers_witness:
  "\<exists>e0 b e e2 e3 rows. open_with_options plain_externals example_wall new_directory engine_options_default = Inr e0 \<and>
     engine_run plain_externals example_ops Idle e0 = Done b e \<and>
     open_with_options plain_externals example_wall (on_disk e) (en_opts e) = Inr e2 \<and>
     engine_get plain_externals example_wall [1] e2 = Done (Some [9]) e3 \<and>
     scan plain_externals example_wall e2 = Inr rows \<and> map_of rows = [[1] \<mapsto> [9], [3] \<mapsto> []]"
proof -
  obtain e0 b e where r: "open_with_options plain_externals example_wall new_directory engine_options_default = Inr e0"
    "engine_run plain_externals example_ops Idle e0 = Done b e"
    and o: "\<forall>env'. \<exists>e2. open_with_options plain_externals env' (on_disk e) (en_opts e) = Inr e2 \<and>
      (\<forall>env'' k. \<exists>e3. engine_get plain_externals env'' k e2 = Done ([[1] \<mapsto> [9], [3] \<mapsto> []] k) e3) \<and>
      (\<forall>env''. \<exists>rows. scan plain_externals env'' e2 = Inr rows \<and> bt_ok rows \<and> map_of rows = [[1] \<mapsto> [9], [3] \<mapsto> []])"
    using engine_reopen_recovers [OF example_run_ok(1-5)] unfolding example_run_ok(6) by blast
  obtain e2 where e2: "open_with_options plain_externals example_wall (on_disk e) (en_opts e) = Inr e2"
    and g: "\<forall>env'' k. \<exists>e3. engine_get plain_externals env'' k e2 = Done ([[1] \<mapsto> [9], [3] \<mapsto> []] k) e3"
    and s: "\<forall>env''. \<exists>rows. scan plain_externals env'' e2 = Inr rows \<and> bt_ok rows \<and> map_of rows = [[1] \<mapsto> [9], [3] \<mapsto> []]"
    using o by blast
  show ?thesis using r e2 s [rule_format, of example_wall] g [rule_format, of example_wall "[1]"] by auto
qed

end
