(* ===== verification/Ts_Bits.thy ===== *)
theory Ts_Bits
  imports Prelude
begin

text \<open>
  The bit stream of the time-series chunks (\<open>skaidb-tsdb/src/bitstream.rs\<close>). A writer stands for
  the bits written so far, a reader for the bits still ahead; \<open>bit_codec\<close> is the contract between a
  pair of operations, and the chunk codec is proved over it.
\<close>

type_synonym u16 = "16 word"
type_synonym i64 = "64 word"

section \<open>The writer and the reader\<close>

record bit_writer =
  bw_buf :: bytes
  bw_used :: nat

definition bw_new :: bit_writer where
  "bw_new = \<lparr>bw_buf = [], bw_used = 0\<rparr>"

definition write_bit :: "bool \<Rightarrow> bit_writer \<Rightarrow> bit_writer" where
  "write_bit b w =
     (let w = (if bw_used w = 0 then w\<lparr>bw_buf := bw_buf w @ [0], bw_used := 8\<rparr> else w);
          last = length (bw_buf w) - 1;
          w = (if b then w\<lparr>bw_buf := (bw_buf w)[last := bw_buf w ! last OR push_bit (bw_used w - 1) 1]\<rparr> else w)
      in w\<lparr>bw_used := bw_used w - 1\<rparr>)"

primrec write_bits :: "u64 \<Rightarrow> nat \<Rightarrow> bit_writer \<Rightarrow> bit_writer" where
  "write_bits v 0 w = w"
| "write_bits v (Suc i) w = write_bits v i (write_bit (drop_bit i v AND 1 = 1) w)"

lemma uvarint_decreases: "drop_bit 7 v \<noteq> (0 :: u64) \<Longrightarrow> unat (drop_bit 7 v) < unat v"
proof -
  assume "drop_bit 7 v \<noteq> 0"
  then have "v \<noteq> 0" by auto
  then have "0 < unat v" by (simp add: unat_gt_0)
  then show ?thesis by (simp add: unat_drop_bit_div)
qed

function write_uvarint :: "u64 \<Rightarrow> bit_writer \<Rightarrow> bit_writer" where
  "write_uvarint v w =
     (let byte = ucast (v AND 0x7f) :: byte;
          v = drop_bit 7 v
      in if v = 0 then write_bits (ucast byte) 8 w
         else write_uvarint v (write_bits (ucast (byte OR 0x80)) 8 w))"
  by pat_completeness auto
termination
  by (relation "measure (\<lambda>(v, w). unat v)") (auto intro: uvarint_decreases)

declare write_uvarint.simps [simp del]

definition zigzag :: "i64 \<Rightarrow> u64" where
  "zigzag v = push_bit 1 v XOR signed_drop_bit 63 v"

definition unzigzag :: "u64 \<Rightarrow> i64" where
  "unzigzag u = drop_bit 1 u XOR - (u AND 1)"

definition write_varint :: "i64 \<Rightarrow> bit_writer \<Rightarrow> bit_writer" where
  "write_varint v w = write_uvarint (zigzag v) w"

record bit_reader =
  br_buf :: bytes
  br_pos :: nat

definition br_new :: "bytes \<Rightarrow> bit_reader" where
  "br_new buf = \<lparr>br_buf = buf, br_pos = 0\<rparr>"

definition read_bit :: "bit_reader \<Rightarrow> (bool \<times> bit_reader) option" where
  "read_bit r =
     (if br_pos r div 8 < length (br_buf r)
      then Some (drop_bit (7 - br_pos r mod 8) (br_buf r ! (br_pos r div 8)) AND 1 = 1, r\<lparr>br_pos := br_pos r + 1\<rparr>)
      else None)"

definition shift_in :: "u64 \<Rightarrow> bool \<Rightarrow> u64" where
  "shift_in v b = push_bit 1 v OR of_bool b"

primrec read_bits_loop :: "nat \<Rightarrow> u64 \<Rightarrow> bit_reader \<Rightarrow> (u64 \<times> bit_reader) option" where
  "read_bits_loop 0 v r = Some (v, r)"
| "read_bits_loop (Suc n) v r =
     (case read_bit r of None \<Rightarrow> None | Some (b, r) \<Rightarrow> read_bits_loop n (shift_in v b) r)"

definition read_bits :: "nat \<Rightarrow> bit_reader \<Rightarrow> (u64 \<times> bit_reader) option" where
  "read_bits n r = read_bits_loop n 0 r"

function read_uvarint_loop :: "u64 \<Rightarrow> nat \<Rightarrow> bit_reader \<Rightarrow> (u64 \<times> bit_reader) option" where
  "read_uvarint_loop v shift r =
     (case read_bits 8 r of
        None \<Rightarrow> None
      | Some (x, r) \<Rightarrow>
          (let byte = ucast x :: byte;
               v = v OR push_bit shift (ucast (byte AND 0x7f))
           in if byte AND 0x80 = 0 then Some (v, r)
              else if shift + 7 \<ge> 64 then None
              else read_uvarint_loop v (shift + 7) r))"
  by pat_completeness auto
termination
  by (relation "measure (\<lambda>(v, shift, r). 64 - shift)") auto

declare read_uvarint_loop.simps [simp del]

definition read_uvarint :: "bit_reader \<Rightarrow> (u64 \<times> bit_reader) option" where
  "read_uvarint r = read_uvarint_loop 0 0 r"

definition read_varint :: "bit_reader \<Rightarrow> (i64 \<times> bit_reader) option" where
  "read_varint r = map_option (map_prod unzigzag id) (read_uvarint r)"

section \<open>The bits behind the buffers\<close>

definition bits_from :: "'a::len word \<Rightarrow> nat \<Rightarrow> bool list" where
  "bits_from v n = map (bit v) (rev [0..<n])"

lemma bits_from_simps [simp]: "bits_from v 0 = []" "bits_from v (Suc n) = bit v n # bits_from v n"
  by (simp_all add: bits_from_def)

lemma length_bits_from [simp]: "length (bits_from v n) = n"
  by (simp add: bits_from_def)

lemma nth_bits_from: "i < n \<Longrightarrow> bits_from v n ! i = bit v (n - Suc i)"
  by (simp add: bits_from_def rev_nth)

definition stream_bits :: "bytes \<Rightarrow> bool list" where
  "stream_bits buf = concat (map (\<lambda>b. bits_from b 8) buf)"

lemma stream_bits_simps [simp]:
  "stream_bits [] = []" "stream_bits (a @ b) = stream_bits a @ stream_bits b" "stream_bits (x # a) = bits_from x 8 @ stream_bits a"
  by (simp_all add: stream_bits_def)

lemma length_stream_bits [simp]: "length (stream_bits buf) = 8 * length buf"
  by (induction buf) simp_all

lemma nth_stream_bits: "p < 8 * length buf \<Longrightarrow> stream_bits buf ! p = bit (buf ! (p div 8)) (7 - p mod 8)"
proof (induction buf arbitrary: p)
  case (Cons x buf)
  show ?case
  proof (cases "p < 8")
    case True
    then show ?thesis by (simp add: nth_append nth_bits_from)
  next
    case False
    then have p: "p = 8 + (p - 8)" by simp
    then have "p div 8 = Suc ((p - 8) div 8)" "p mod 8 = (p - 8) mod 8"
      by (metis add.commute add_diff_cancel_left' div_add_self1 plus_1_eq_Suc zero_neq_numeral, metis mod_add_self1)
    then show ?thesis using False Cons by (simp add: nth_append del: bits_from_simps)
  qed
qed simp

text \<open>The writer keeps the unused low bits of its last byte zero.\<close>

definition bw_ok :: "bit_writer \<Rightarrow> bool" where
  "bw_ok w \<longleftrightarrow> bw_used w < 8 \<and> (bw_used w > 0 \<longrightarrow> bw_buf w \<noteq> [] \<and> take_bit (bw_used w) (last (bw_buf w)) = 0)"

definition written :: "bit_writer \<Rightarrow> bool list" where
  "written w = take (8 * length (bw_buf w) - bw_used w) (stream_bits (bw_buf w))"

definition ahead :: "bit_reader \<Rightarrow> bool list" where
  "ahead r = drop (br_pos r) (stream_bits (br_buf r))"

lemma bw_new_ok: "bw_ok bw_new" "written bw_new = []"
  by (simp_all add: bw_ok_def written_def bw_new_def)

lemma and_1_bit: "drop_bit i v AND 1 = (1 :: 'a::len word) \<longleftrightarrow> bit v i"
  by (simp add: and_one_eq bit_iff_odd_drop_bit odd_iff_mod_2_eq_one)

lemma read_bit_ahead: "read_bit r = (case ahead r of [] \<Rightarrow> None | b # bs \<Rightarrow> Some (b, r\<lparr>br_pos := br_pos r + 1\<rparr>))"
proof (cases "br_pos r < 8 * length (br_buf r)")
  case True
  then have "ahead r = stream_bits (br_buf r) ! br_pos r # drop (Suc (br_pos r)) (stream_bits (br_buf r))"
    unfolding ahead_def by (intro Cons_nth_drop_Suc [symmetric]) simp
  moreover have "br_pos r div 8 < length (br_buf r)" using True by (simp add: div_less_iff_less_mult mult.commute)
  ultimately show ?thesis using nth_stream_bits [OF True] by (simp add: read_bit_def and_1_bit)
next
  case False
  then have "\<not> br_pos r div 8 < length (br_buf r)" by (simp add: div_less_iff_less_mult mult.commute)
  then show ?thesis using False by (simp add: read_bit_def ahead_def)
qed

lemma ahead_next: "ahead r = b # bs \<Longrightarrow> ahead (r\<lparr>br_pos := br_pos r + 1\<rparr>) = bs"
  unfolding ahead_def by simp (metis drop_Suc list.sel(3) tl_drop)

lemma bits_from_append: "n \<le> 8 \<Longrightarrow> bits_from (x :: byte) 8 = take (8 - n) (bits_from x 8) @ bits_from x n"
proof -
  assume n: "n \<le> 8"
  have "drop (8 - n) (bits_from x 8) = bits_from x n"
    using n by (intro nth_equalityI) (simp_all add: nth_bits_from del: bits_from_simps)
  then show ?thesis by (metis append_take_drop_id)
qed

lemma write_bit_written:
  assumes "bw_ok w"
  shows "written (write_bit b w) = written w @ [b]" "bw_ok (write_bit b w)"
proof -
  define w1 where "w1 = (if bw_used w = 0 then w\<lparr>bw_buf := bw_buf w @ [0], bw_used := 8\<rparr> else w)"
  obtain pre x u where w1: "bw_buf w1 = pre @ [x]" "bw_used w1 = Suc u" "u < 8" "take_bit (Suc u) x = 0"
  proof (cases "bw_used w = 0")
    case True
    then show ?thesis by (intro that [of "bw_buf w" 0 7]) (simp_all add: w1_def)
  next
    case False
    then obtain u where u: "bw_used w = Suc u" by (cases "bw_used w") auto
    then show ?thesis using assms False
      by (intro that [of "butlast (bw_buf w)" "last (bw_buf w)" u]) (simp_all add: w1_def bw_ok_def)
  qed
  have same: "written w1 = written w" by (simp add: written_def w1_def)
  define y where "y = (if b then x OR push_bit u 1 else x)"
  have wb: "write_bit b w = w1\<lparr>bw_buf := pre @ [y], bw_used := u\<rparr>"
    using w1 by (simp add: write_bit_def Let_def w1_def [symmetric] y_def nth_append list_update_append)
  have low: "\<not> bit x i" if "i \<le> u" for i
    using w1(4) that by (metis bit_0_eq bit_take_bit_iff bot_apply less_Suc_eq_le bot_bool_def)
  have yb: "bit y i \<longleftrightarrow> (if i = u then b else bit x i)" for i
    using low [of u] w1(3) by (auto simp: y_def bit_simps)
  have ty: "take (8 - u) (bits_from y 8) = take (8 - Suc u) (bits_from x 8) @ [b]"
    using w1(3) by (intro nth_equalityI) (auto simp: nth_append nth_bits_from yb less_Suc_eq simp del: bits_from_simps)
  show "written (write_bit b w) = written w @ [b]"
    using ty w1 same by (simp add: written_def wb del: bits_from_simps)
  have "take_bit u y = 0"
    by (rule bit_word_eqI) (use low in \<open>auto simp: bit_simps yb\<close>)
  then show "bw_ok (write_bit b w)" using w1(3) by (simp add: wb bw_ok_def)
qed

section \<open>The contract of a pair of operations\<close>

text \<open>
  Writing \<open>x\<close> appends \<open>enc x\<close> to the stream; reading at a place where \<open>enc x\<close> is ahead returns \<open>x\<close> and
  leaves what follows it.
\<close>

locale bit_codec =
  fixes wr :: "'a \<Rightarrow> bit_writer \<Rightarrow> bit_writer"
    and rd :: "bit_reader \<Rightarrow> ('a \<times> bit_reader) option"
    and enc :: "'a \<Rightarrow> bool list"
    and wf :: "'a \<Rightarrow> bool"
  assumes write_ok: "bw_ok w \<Longrightarrow> bw_ok (wr x w)"
    and write_enc: "bw_ok w \<Longrightarrow> written (wr x w) = written w @ enc x"
    and read_enc: "wf x \<Longrightarrow> ahead r = enc x @ rest \<Longrightarrow> \<exists>r'. rd r = Some (x, r') \<and> ahead r' = rest"
begin

lemmas write_step = write_ok write_enc

end

interpretation bit_op: bit_codec write_bit read_bit "\<lambda>b. [b]" "\<lambda>_. True"
proof
  fix r x rest
  assume "ahead r = [x] @ rest"
  then show "\<exists>r'. read_bit r = Some (x, r') \<and> ahead r' = rest"
    using ahead_next [of r x rest] by (simp add: read_bit_ahead)
qed (simp_all add: write_bit_written)

lemma write_bits_written: "bw_ok w \<Longrightarrow> bw_ok (write_bits v n w) \<and> written (write_bits v n w) = written w @ bits_from v n"
  by (induction n arbitrary: w) (simp_all add: bit_op.write_step and_1_bit)

lemma read_bits_loop_ahead:
  "ahead r = bs @ rest \<Longrightarrow> n = length bs \<Longrightarrow>
    \<exists>r'. read_bits_loop n v r = Some (foldl shift_in v bs, r') \<and> ahead r' = rest"
proof (induction bs arbitrary: n v r)
  case (Cons b bs)
  obtain r' where r': "read_bit r = Some (b, r')" "ahead r' = bs @ rest"
    using bit_op.read_enc [where x = b and r = r and rest = "bs @ rest"] Cons.prems(1) by auto
  show ?case using Cons.IH [OF r'(2) refl, of "shift_in v b"] Cons.prems(2) r'(1) by auto
qed simp

lemma foldl_bits_from:
  fixes x acc :: u64
  shows "foldl shift_in acc (bits_from x n) = push_bit n acc OR take_bit n x"
proof (induction n arbitrary: acc)
  case (Suc n)
  have "push_bit n (shift_in acc (bit x n)) OR take_bit n x = push_bit (Suc n) acc OR take_bit (Suc n) x"
    unfolding shift_in_def
  proof (rule bit_word_eqI)
    fix i
    assume i: "i < LENGTH(64)"
    show "bit (push_bit n (push_bit 1 acc OR of_bool (bit x n)) OR take_bit n x) i \<longleftrightarrow>
        bit (push_bit (Suc n) acc OR take_bit (Suc n) x) i"
      using i by (cases "i < n"; cases "i = n"; auto simp: bit_simps less_Suc_eq Suc_le_eq)
  qed
  then show ?case using Suc.IH by simp
qed simp

lemma read_bits_ahead:
  "ahead r = bits_from x n @ rest \<Longrightarrow> \<exists>r'. read_bits n r = Some (take_bit n x, r') \<and> ahead r' = rest"
  using read_bits_loop_ahead [of r "bits_from x n" rest n 0] by (simp add: read_bits_def foldl_bits_from)

lemma take_bit_small: "unat v < 2 ^ n \<Longrightarrow> take_bit n v = (v :: u64)"
  by (simp add: word_unat_eq_iff unat_take_bit_mod)

interpretation word_op: bit_codec "\<lambda>v. write_bits v 64" "read_bits 64" "\<lambda>v. bits_from v 64" "\<lambda>_. True"
proof
  fix x :: u64 and r rest
  assume "ahead r = bits_from x 64 @ rest"
  from read_bits_ahead [OF this] show "\<exists>r'. read_bits 64 r = Some (x, r') \<and> ahead r' = rest"
    by (simp add: take_bit_word_eq_self)
qed (simp_all add: write_bits_written)

section \<open>Varints\<close>

function uvarint_bits :: "u64 \<Rightarrow> bool list" where
  "uvarint_bits v =
     (if drop_bit 7 v = 0 then bits_from (v AND 0x7f) 8 else bits_from (v AND 0x7f OR 0x80) 8 @ uvarint_bits (drop_bit 7 v))"
  by pat_completeness auto
termination
  by (relation "measure unat") (auto intro: uvarint_decreases)

declare uvarint_bits.simps [simp del]

lemma mask_7: "(0x7f :: 'a::len word) = mask 7"
  by (simp add: mask_eq_exp_minus_1)

lemma ucast_low7: "ucast (ucast (v AND 0x7f) :: byte) = (v AND 0x7f :: u64)"
proof (rule bit_word_eqI)
  fix n
  assume "n < LENGTH(64)"
  have "bit (0x7f :: u64) n \<Longrightarrow> n < 8" by (simp add: mask_7 bit_simps)
  then show "bit (ucast (ucast (v AND 0x7f) :: byte) :: u64) n \<longleftrightarrow> bit (v AND 0x7f :: u64) n" by (auto simp: bit_simps)
qed

lemma bit_0x80: "bit (0x80 :: 'a::len word) n \<longleftrightarrow> n < LENGTH('a) \<and> n = 7"
proof -
  have e: "(0x80 :: 'a word) = push_bit 7 1" by (simp add: push_bit_eq_mult)
  show ?thesis unfolding e bit_push_bit_iff bit_1_iff by auto
qed

lemmas low7_bits = bit_or_iff bit_unsigned_iff bit_0x80 bit_and_iff mask_7 bit_mask_iff bit_take_bit_iff bit_0_eq bot_apply

text \<open>What one byte of a varint contributes.\<close>

lemma uvarint_byte:
  fixes v :: u64
  shows "ucast (ucast (v AND 0x7f) OR 0x80 :: byte) = v AND 0x7f OR 0x80"
    "ucast (ucast (v AND 0x7f OR 0x80 :: u64) AND 0x7f :: byte) = v AND 0x7f"
    "ucast (ucast (v AND 0x7f :: u64) AND 0x7f :: byte) = v AND 0x7f"
    "ucast (v AND 0x7f OR 0x80 :: u64) AND 0x80 \<noteq> (0 :: byte)" "ucast (v AND 0x7f :: u64) AND 0x80 = (0 :: byte)"
    "take_bit 8 (v AND 0x7f OR 0x80) = v AND 0x7f OR 0x80" "take_bit 8 (v AND 0x7f) = v AND 0x7f"
proof -
  show "ucast (ucast (v AND 0x7f) OR 0x80 :: byte) = v AND 0x7f OR 0x80"
    by (rule bit_word_eqI) (simp only: low7_bits, auto)
  show "ucast (ucast (v AND 0x7f OR 0x80 :: u64) AND 0x7f :: byte) = v AND 0x7f"
    by (rule bit_word_eqI) (simp only: low7_bits, auto)
  show "ucast (ucast (v AND 0x7f :: u64) AND 0x7f :: byte) = v AND 0x7f"
    by (rule bit_word_eqI) (simp only: low7_bits, auto)
  have "bit (ucast (v AND 0x7f OR 0x80 :: u64) AND 0x80 :: byte) 7" by (simp add: bit_simps bit_0x80)
  then show "ucast (v AND 0x7f OR 0x80 :: u64) AND 0x80 \<noteq> (0 :: byte)" by auto
  show "ucast (v AND 0x7f :: u64) AND 0x80 = (0 :: byte)"
    by (rule bit_word_eqI) (simp only: low7_bits, auto)
  show "take_bit 8 (v AND 0x7f OR 0x80) = v AND 0x7f OR 0x80"
    by (rule bit_word_eqI) (simp only: low7_bits, auto)
  show "take_bit 8 (v AND 0x7f) = v AND 0x7f"
    by (rule bit_word_eqI) (simp only: low7_bits, auto)
qed

lemma uvarint_split: "push_bit s (v AND 0x7f) OR push_bit (s + 7) (drop_bit 7 v) = push_bit s (v :: u64)"
proof (rule bit_word_eqI)
  fix n
  assume n: "n < LENGTH(64)"
  have "bit (drop_bit 7 v) (n - (s + 7)) \<longleftrightarrow> bit v (n - s)" if "s + 7 \<le> n"
    using that by (simp add: bit_simps)
  then show "bit (push_bit s (v AND 0x7f) OR push_bit (s + 7) (drop_bit 7 v)) n \<longleftrightarrow> bit (push_bit s v) n"
    using n by (cases "s \<le> n"; cases "s + 7 \<le> n") (auto simp: bit_simps mask_7)
qed

lemma write_uvarint_written:
  "bw_ok w \<Longrightarrow> bw_ok (write_uvarint v w) \<and> written (write_uvarint v w) = written w @ uvarint_bits v"
proof (induction v w rule: write_uvarint.induct)
  case (1 v w)
  let ?w = "write_bits (v AND 0x7f OR 0x80) 8 w"
  have "bw_ok ?w" "written ?w = written w @ bits_from (v AND 0x7f OR 0x80) 8" using write_bits_written [OF 1(2)] by blast+
  then show ?case
    using 1 write_bits_written [OF 1(2), of "v AND 0x7f" 8]
    by (simp add: write_uvarint.simps [of v] uvarint_bits.simps [of v] Let_def uvarint_byte(1) ucast_low7 del: bits_from_simps)
qed

lemma drop_bit_7_eq_0: "drop_bit 7 v = (0 :: u64) \<Longrightarrow> v AND 0x7f = v"
proof -
  assume "drop_bit 7 v = 0"
  then have "push_bit 0 (v AND 0x7f) = push_bit 0 v" using uvarint_split [of 0 v] by simp
  then show ?thesis by simp
qed

lemma uvarint_shift:
  assumes "drop_bit 7 v \<noteq> (0 :: u64)" "unat v * 2 ^ shift < 2 ^ 64"
  shows "shift + 7 < 64" "unat (drop_bit 7 v) * 2 ^ (shift + 7) < 2 ^ 64"
proof -
  have "128 \<le> unat v" using assms(1) by (simp add: unat_drop_bit_div word_unat_eq_iff)
  then have "128 * 2 ^ shift < (2 :: nat) ^ 64" using assms(2) by (meson le_less_trans mult_le_mono1)
  then show "shift + 7 < 64" using power_less_imp_less_exp [of "2 :: nat" "shift + 7" 64] by (simp add: power_add)
  have "unat (drop_bit 7 v) * 2 ^ (shift + 7) \<le> unat v * 2 ^ shift" by (simp add: unat_drop_bit_div power_add)
  then show "unat (drop_bit 7 v) * 2 ^ (shift + 7) < 2 ^ 64" using assms(2) by (rule le_less_trans)
qed

lemma read_uvarint_loop_ahead:
  "ahead r = uvarint_bits v @ rest \<Longrightarrow> unat v * 2 ^ shift < 2 ^ 64 \<Longrightarrow>
    \<exists>r'. read_uvarint_loop acc shift r = Some (acc OR push_bit shift v, r') \<and> ahead r' = rest"
proof (induction v arbitrary: acc shift r rule: uvarint_bits.induct)
  case (1 v)
  show ?case
  proof (cases "drop_bit 7 v = 0")
    case True
    then have "ahead r = bits_from (v AND 0x7f) 8 @ rest" using 1(2) by (simp add: uvarint_bits.simps [of v])
    from read_bits_ahead [OF this] obtain r' where "read_bits 8 r = Some (v AND 0x7f, r')" "ahead r' = rest"
      unfolding uvarint_byte(7) by blast
    then have "\<exists>r'. read_uvarint_loop acc shift r = Some (acc OR push_bit shift (v AND 0x7f), r') \<and> ahead r' = rest"
      by (simp add: read_uvarint_loop.simps [of acc] Let_def uvarint_byte)
    then show ?thesis unfolding drop_bit_7_eq_0 [OF True] .
  next
    case False
    then have "ahead r = bits_from (v AND 0x7f OR 0x80) 8 @ (uvarint_bits (drop_bit 7 v) @ rest)"
      using 1(2) by (simp add: uvarint_bits.simps [of v] del: bits_from_simps)
    from read_bits_ahead [OF this] obtain r' where r': "read_bits 8 r = Some (v AND 0x7f OR 0x80, r')"
      "ahead r' = uvarint_bits (drop_bit 7 v) @ rest"
      unfolding uvarint_byte(6) by blast
    note s = uvarint_shift [OF False 1(3)]
    show ?thesis
      using 1(1) [OF False r'(2) s(2), of "acc OR push_bit shift (v AND 0x7f)"] s(1) r'(1) uvarint_split [of shift v]
      by (simp add: read_uvarint_loop.simps [of acc] Let_def uvarint_byte or.assoc)
  qed
qed

interpretation uvarint_op: bit_codec write_uvarint read_uvarint uvarint_bits "\<lambda>_. True"
proof
  fix x r rest
  assume "ahead r = uvarint_bits x @ rest"
  then show "\<exists>r'. read_uvarint r = Some (x, r') \<and> ahead r' = rest"
    using read_uvarint_loop_ahead [of r x rest 0 0] unsigned_less [of x, where ?'a = nat] by (simp add: read_uvarint_def)
qed (simp_all add: write_uvarint_written)

lemma bit_zigzag: "bit (zigzag v) n \<longleftrightarrow> n < 64 \<and> ((0 < n \<and> bit v (n - 1)) \<noteq> bit v 63)"
  unfolding zigzag_def bit_xor_iff bit_push_bit_iff bit_signed_drop_bit_iff
  using bit_imp_le_length [of v "63 + n"] bit_imp_le_length [of v "n - 1"] by (cases n) (auto simp: possible_bit_word)

lemma unzigzag_zigzag [simp]: "unzigzag (zigzag v) = v"
proof -
  have "zigzag v AND 1 = of_bool (bit v 63)"
    by (rule bit_word_eqI) (auto simp: bit_zigzag bit_and_iff bit_1_iff)
  then have m: "- (zigzag v AND 1) = (if bit v 63 then - 1 else 0)" by simp
  show ?thesis unfolding unzigzag_def m
  proof (rule bit_word_eqI)
    fix n
    assume n: "n < LENGTH(64)"
    have d: "bit (drop_bit 1 (zigzag v)) n \<longleftrightarrow> n < 63 \<and> bit v n \<noteq> bit v 63"
      by (auto simp: bit_drop_bit_eq bit_zigzag)
    show "bit (drop_bit 1 (zigzag v) XOR (if bit v 63 then - 1 else 0)) n \<longleftrightarrow> bit v n"
    proof (cases "n = 63")
      case True
      then show ?thesis using d by (simp add: bit_xor_iff bit_minus_1_iff possible_bit_word)
    next
      case False
      then have "n < 63" using n by simp
      then show ?thesis using d by (auto simp: bit_xor_iff bit_minus_1_iff possible_bit_word)
    qed
  qed
qed

interpretation varint_op: bit_codec write_varint read_varint "\<lambda>v. uvarint_bits (zigzag v)" "\<lambda>_. True"
proof
  fix x r rest
  assume "ahead r = uvarint_bits (zigzag x) @ rest"
  then show "\<exists>r'. read_varint r = Some (x, r') \<and> ahead r' = rest"
    using uvarint_op.read_enc by (fastforce simp: read_varint_def)
qed (simp_all add: write_varint_def uvarint_op.write_step)

end
