(* ===== verification/Ts_Chunk.thy ===== *)
theory Ts_Chunk
  imports Ts_Bits
begin

text \<open>
  The chunk codec of the time-series store (\<open>skaidb-tsdb/src/chunk.rs\<close>): delta-of-delta timestamps and
  XOR-compressed values, appended to an open chunk and decoded from its bytes. A value is the bit
  pattern of its float; timestamp arithmetic wraps, as in release builds.
\<close>

section \<open>Model\<close>

datatype tsdb_error =
    TsIo string
  | Corrupt string
  | OutOfOrder i64 i64
  | OooBufferFull
  | SeriesLimit nat
  | Invalid string
  | Aborted string

record sample =
  sm_ts :: i64
  sm_value :: u64

definition DOD_BITS :: "(u64 \<times> nat \<times> i64) list" where
  "DOD_BITS = [(2, 14, 8191), (6, 17, 65535), (14, 20, 524287)]"

record chunk_builder =
  cb_w :: bit_writer
  cb_count :: u16
  cb_first_ts :: i64
  cb_last_ts :: i64
  cb_last_delta :: i64
  cb_last_bits :: u64
  cb_leading :: nat
  cb_trailing :: nat

definition chunk_new :: chunk_builder where
  "chunk_new =
     \<lparr>cb_w = bw_new, cb_count = 0, cb_first_ts = 0, cb_last_ts = 0, cb_last_delta = 0, cb_last_bits = 0,
      cb_leading = 0xff, cb_trailing = 0\<rparr>"

fun write_dod_buckets :: "(u64 \<times> nat \<times> i64) list \<Rightarrow> i64 \<Rightarrow> bit_writer \<Rightarrow> bit_writer" where
  "write_dod_buckets [] dod w = write_bits dod 64 (write_bits 0xF 4 w)"
| "write_dod_buckets ((prefix, bits, mx) # rest) dod w =
     (if - mx \<le>s dod \<and> dod \<le>s mx + 1
      then (let nprefix = (if prefix = 2 then 2 else if prefix = 6 then 3 else 4)
            in write_bits (dod + mx) bits (write_bits prefix nprefix w))
      else write_dod_buckets rest dod w)"

definition write_dod :: "i64 \<Rightarrow> bit_writer \<Rightarrow> bit_writer" where
  "write_dod dod w = (if dod = 0 then write_bit False w else write_dod_buckets DOD_BITS dod w)"

definition leading_zeros :: "u64 \<Rightarrow> nat" where
  "leading_zeros x = length (takeWhile Not (map (bit x) (rev [0..<64])))"

definition trailing_zeros :: "u64 \<Rightarrow> nat" where
  "trailing_zeros x = length (takeWhile Not (map (bit x) [0..<64]))"

definition write_xor :: "u64 \<Rightarrow> chunk_builder \<Rightarrow> chunk_builder" where
  "write_xor bits b =
     (let xor = bits XOR cb_last_bits b
      in if xor = 0 then b\<lparr>cb_w := write_bit False (cb_w b)\<rparr>
         else let w = write_bit True (cb_w b);
                  leading = leading_zeros xor;
                  trailing = trailing_zeros xor;
                  leading = (if leading > 31 then 31 else leading)
              in if cb_leading b \<noteq> 0xff \<and> leading \<ge> cb_leading b \<and> trailing \<ge> cb_trailing b
                 then let w = write_bit False w;
                          sig = 64 - cb_leading b - cb_trailing b
                      in b\<lparr>cb_w := write_bits (drop_bit (cb_trailing b) xor) sig w\<rparr>
                 else let w = write_bit True w;
                          sig = 64 - leading - trailing;
                          w = write_bits (of_nat leading) 5 w;
                          w = write_bits (of_nat sig AND 0x3f) 6 w;
                          w = write_bits (drop_bit trailing xor) sig w
                      in b\<lparr>cb_w := w, cb_leading := leading, cb_trailing := trailing\<rparr>)"

definition chunk_append :: "i64 \<Rightarrow> u64 \<Rightarrow> chunk_builder \<Rightarrow> tsdb_error + chunk_builder" where
  "chunk_append ts bits b =
     (if cb_count b > 0 \<and> ts \<le>s cb_last_ts b then Inl (OutOfOrder ts (cb_last_ts b))
      else let delta = ts - cb_last_ts b;
               dod = delta - cb_last_delta b;
               b = (if cb_count b = 0
                    then b\<lparr>cb_w := write_bits bits 64 (write_varint ts (cb_w b)), cb_first_ts := ts\<rparr>
                    else if cb_count b = 1
                    then write_xor bits (b\<lparr>cb_w := write_uvarint delta (cb_w b), cb_last_delta := delta\<rparr>)
                    else write_xor bits (b\<lparr>cb_w := write_dod dod (cb_w b), cb_last_delta := delta\<rparr>))
           in Inr (b\<lparr>cb_last_ts := ts, cb_last_bits := bits, cb_count := cb_count b + 1\<rparr>))"

definition chunk_seal :: "chunk_builder \<Rightarrow> bytes" where
  "chunk_seal b = le_bytes 2 (cb_count b) @ bw_buf (cb_w b)"

fun read_dod_buckets :: "(u64 \<times> nat \<times> i64) list \<Rightarrow> bit_reader \<Rightarrow> (i64 \<times> bit_reader) option" where
  "read_dod_buckets [] r = read_bits 64 r"
| "read_dod_buckets ((_, bits, mx) # rest) r =
     (case read_bit r of
        None \<Rightarrow> None
      | Some (False, r) \<Rightarrow> (case read_bits bits r of None \<Rightarrow> None | Some (v, r) \<Rightarrow> Some (v - mx, r))
      | Some (True, r) \<Rightarrow> read_dod_buckets rest r)"

definition read_dod :: "bit_reader \<Rightarrow> (i64 \<times> bit_reader) option" where
  "read_dod r =
     (case read_bit r of
        None \<Rightarrow> None
      | Some (False, r) \<Rightarrow> Some (0, r)
      | Some (True, r) \<Rightarrow> read_dod_buckets DOD_BITS r)"

text \<open>The decoder's variables between two samples.\<close>

record chunk_cursor =
  cc_ts :: i64
  cc_delta :: i64
  cc_bits :: u64
  cc_leading :: nat
  cc_trailing :: nat

definition read_window :: "chunk_cursor \<Rightarrow> bit_reader \<Rightarrow> (chunk_cursor \<times> bit_reader) option" where
  "read_window c r =
     (case read_bits 5 r of
        None \<Rightarrow> None
      | Some (lead, r) \<Rightarrow>
          (case read_bits 6 r of
             None \<Rightarrow> None
           | Some (sig, r) \<Rightarrow>
               (let lead = unat lead;
                    sig = (if sig = 0 then 64 else unat sig)
                in if lead + sig > 64 then None
                   else Some (c\<lparr>cc_leading := lead, cc_trailing := 64 - lead - sig\<rparr>, r))))"

definition read_xor :: "chunk_cursor \<Rightarrow> bit_reader \<Rightarrow> (chunk_cursor \<times> bit_reader) option" where
  "read_xor c r =
     (case read_bit r of
        None \<Rightarrow> None
      | Some (False, r) \<Rightarrow> Some (c, r)
      | Some (True, r) \<Rightarrow>
          (case (case read_bit r of
                   None \<Rightarrow> None
                 | Some (True, r) \<Rightarrow> read_window c r
                 | Some (False, r) \<Rightarrow> Some (c, r)) of
             None \<Rightarrow> None
           | Some (c, r) \<Rightarrow>
               (case read_bits (64 - cc_leading c - cc_trailing c) r of
                  None \<Rightarrow> None
                | Some (v, r) \<Rightarrow> Some (c\<lparr>cc_bits := cc_bits c XOR push_bit (cc_trailing c) v\<rparr>, r))))"

definition decode_step :: "nat \<Rightarrow> chunk_cursor \<Rightarrow> bit_reader \<Rightarrow> (chunk_cursor \<times> bit_reader) option" where
  "decode_step i c r =
     (if i = 0
      then (case read_varint r of
              None \<Rightarrow> None
            | Some (ts, r) \<Rightarrow>
                (case read_bits 64 r of None \<Rightarrow> None | Some (bits, r) \<Rightarrow> Some (c\<lparr>cc_ts := ts, cc_bits := bits\<rparr>, r)))
      else if i = 1
      then (case read_uvarint r of
              None \<Rightarrow> None
            | Some (delta, r) \<Rightarrow> read_xor (c\<lparr>cc_delta := delta, cc_ts := cc_ts c + delta\<rparr>) r)
      else (case read_dod r of
              None \<Rightarrow> None
            | Some (dod, r) \<Rightarrow>
                (let delta = cc_delta c + dod in read_xor (c\<lparr>cc_delta := delta, cc_ts := cc_ts c + delta\<rparr>) r)))"

primrec decode_loop :: "nat \<Rightarrow> nat \<Rightarrow> chunk_cursor \<Rightarrow> bit_reader \<Rightarrow> tsdb_error + sample list" where
  "decode_loop 0 i c r = Inr []"
| "decode_loop (Suc n) i c r =
     (case decode_step i c r of
        None \<Rightarrow> Inl (Corrupt ''chunk bitstream truncated'')
      | Some (c, r) \<Rightarrow>
          rbind (decode_loop n (i + 1) c r) (\<lambda>out. Inr (\<lparr>sm_ts = cc_ts c, sm_value = cc_bits c\<rparr> # out)))"

definition decode_stream :: "bytes \<Rightarrow> u16 \<Rightarrow> tsdb_error + sample list" where
  "decode_stream stream count =
     decode_loop (unat count) 0 \<lparr>cc_ts = 0, cc_delta = 0, cc_bits = 0, cc_leading = 0, cc_trailing = 0\<rparr> (br_new stream)"

definition chunk_decode :: "bytes \<Rightarrow> tsdb_error + sample list" where
  "chunk_decode data =
     (if length data < 2 then Inl (Corrupt ''chunk shorter than header'')
      else decode_stream (drop 2 data) (from_le_bytes (take 2 data)))"

definition chunk_snapshot :: "chunk_builder \<Rightarrow> tsdb_error + sample list" where
  "chunk_snapshot b = decode_stream (bw_buf (cb_w b)) (cb_count b)"

text \<open>Appending samples in order.\<close>

fun append_samples :: "sample list \<Rightarrow> chunk_builder \<Rightarrow> tsdb_error + chunk_builder" where
  "append_samples [] b = Inr b"
| "append_samples (s # ss) b = rbind (chunk_append (sm_ts s) (sm_value s) b) (append_samples ss)"

section \<open>Delta of delta\<close>

fun dod_buckets_bits :: "(u64 \<times> nat \<times> i64) list \<Rightarrow> i64 \<Rightarrow> bool list" where
  "dod_buckets_bits [] dod = bits_from dod 64"
| "dod_buckets_bits ((prefix, bits, mx) # rest) dod =
     (if - mx \<le>s dod \<and> dod \<le>s mx + 1 then False # bits_from (dod + mx) bits else True # dod_buckets_bits rest dod)"

definition dod_bits :: "i64 \<Rightarrow> bool list" where
  "dod_bits dod = (if dod = 0 then [False] else True # dod_buckets_bits DOD_BITS dod)"

lemma dod_prefixes:
  "bits_from (2 :: u64) 2 = [True, False]" "bits_from (6 :: u64) 3 = [True, True, False]"
  "bits_from (14 :: u64) 4 = [True, True, True, False]" "bits_from (15 :: u64) 4 = [True, True, True, True]"
  by code_simp+

lemma write_dod_written: "bw_ok w \<Longrightarrow> bw_ok (write_dod dod w) \<and> written (write_dod dod w) = written w @ dod_bits dod"
  by (simp add: write_dod_def dod_bits_def DOD_BITS_def write_bits_written bit_op.write_step dod_prefixes
      del: bits_from_simps)

lemma bucket_payload:
  assumes "- m \<le>s dod" "dod \<le>s m + 1" "sint m = k" "sint (m + 1) = k + 1" "sint (- m) = - k" "2 * k + 2 = 2 ^ n" "n < 64"
  shows "take_bit n (dod + m) = dod + (m :: i64)"
proof (rule take_bit_small)
  have b: "0 \<le> sint dod + k" "sint dod + k < 2 ^ n" using assms(1-6) by (simp_all add: word_sle_eq)
  have e: "dod + m = of_int (sint dod + k)" by (simp flip: assms(3))
  have "uint (of_int x :: u64) = x mod 2 ^ 64" for x by (simp add: unsigned_of_int take_bit_eq_mod)
  then have "uint (dod + m) = (sint dod + k) mod 2 ^ 64" unfolding e .
  also have "(2 :: int) ^ n \<le> 2 ^ 64" by (rule power_increasing) (use assms(7) in simp_all)
  then have "(sint dod + k) mod 2 ^ 64 = sint dod + k" using b by (intro mod_pos_pos_trivial) linarith+
  finally show "unat (dod + m) < 2 ^ n" using b by (simp add: unat_eq_nat_uint nat_less_iff)
qed

lemma bucket_payloads:
  "- 8191 \<le>s dod \<and> dod \<le>s 8191 + 1 \<Longrightarrow> take_bit 14 (dod + 8191) = (dod + 8191 :: i64)"
  "- 65535 \<le>s dod \<and> dod \<le>s 65535 + 1 \<Longrightarrow> take_bit 17 (dod + 65535) = (dod + 65535 :: i64)"
  "- 524287 \<le>s dod \<and> dod \<le>s 524287 + 1 \<Longrightarrow> take_bit 20 (dod + 524287) = (dod + 524287 :: i64)"
proof goal_cases
  case 1
  then show ?case by (intro bucket_payload [where k = 8191]) simp_all
next
  case 2
  then show ?case by (intro bucket_payload [where k = 65535]) simp_all
next
  case 3
  then show ?case by (intro bucket_payload [where k = 524287]) simp_all
qed

lemma read_dod_buckets_ahead:
  assumes "ahead r = dod_buckets_bits DOD_BITS dod @ rest"
  shows "\<exists>r'. read_dod_buckets DOD_BITS r = Some (dod, r') \<and> ahead r' = rest"
proof -
  have bucket: "\<exists>r'. read_dod_buckets ((pre, n, m) # bs) r = Some (dod, r') \<and> ahead r' = rest"
    if a: "ahead r = dod_buckets_bits ((pre, n, m) # bs) dod @ rest"
      and small: "- m \<le>s dod \<and> dod \<le>s m + 1 \<Longrightarrow> take_bit n (dod + m) = dod + m"
      and more: "\<And>r. ahead r = dod_buckets_bits bs dod @ rest \<Longrightarrow> \<exists>r'. read_dod_buckets bs r = Some (dod, r') \<and> ahead r' = rest"
    for r pre n m bs
  proof (cases "- m \<le>s dod \<and> dod \<le>s m + 1")
    case True
    then obtain r1 where r1: "read_bit r = Some (False, r1)" "ahead r1 = bits_from (dod + m) n @ rest"
      using bit_op.read_enc [where x = False and r = r and rest = "bits_from (dod + m) n @ rest"] a by auto
    from read_bits_ahead [OF r1(2)] show ?thesis using r1(1) small [OF True] by auto
  next
    case False
    then obtain r1 where r1: "read_bit r = Some (True, r1)" "ahead r1 = dod_buckets_bits bs dod @ rest"
      using bit_op.read_enc [where x = True and r = r and rest = "dod_buckets_bits bs dod @ rest"] a by auto
    from more [OF r1(2)] show ?thesis using r1(1) by auto
  qed
  have 0: "\<exists>r'. read_dod_buckets [] r = Some (dod, r') \<and> ahead r' = rest" if "ahead r = dod_buckets_bits [] dod @ rest" for r
    using word_op.read_enc [where x = dod and r = r and rest = rest] that by simp
  note 3 = bucket [OF _ bucket_payloads(3) 0, of _ 14]
  note 2 = bucket [OF _ bucket_payloads(2) 3, of _ 6]
  show ?thesis using bucket [OF _ bucket_payloads(1) 2, of r 2] assms unfolding DOD_BITS_def by blast
qed

interpretation dod_op: bit_codec write_dod read_dod dod_bits "\<lambda>_. True"
proof
  fix x r rest
  assume a: "ahead r = dod_bits x @ rest"
  show "\<exists>r'. read_dod r = Some (x, r') \<and> ahead r' = rest"
  proof (cases "x = 0")
    case True
    then show ?thesis using bit_op.read_enc [where x = False and r = r and rest = rest] a
      by (auto simp: dod_bits_def read_dod_def)
  next
    case False
    then obtain r1 where r1: "read_bit r = Some (True, r1)" "ahead r1 = dod_buckets_bits DOD_BITS x @ rest"
      using bit_op.read_enc [where x = True and r = r and rest = "dod_buckets_bits DOD_BITS x @ rest"] a
      by (auto simp: dod_bits_def)
    then show ?thesis using read_dod_buckets_ahead [OF r1(2)] by (simp add: read_dod_def)
  qed
qed (simp_all add: write_dod_written)

section \<open>Values\<close>

lemma takeWhile_Not_nth:
  assumes "\<exists>i < length xs. xs ! i"
  shows "length (takeWhile Not xs) < length xs" "xs ! length (takeWhile Not xs)"
    "\<And>i. i < length (takeWhile Not xs) \<Longrightarrow> \<not> xs ! i"
proof -
  show lt: "length (takeWhile Not xs) < length xs"
  proof (rule ccontr)
    assume "\<not> length (takeWhile Not xs) < length xs"
    then have "takeWhile Not xs = xs" using takeWhile_eq_take [of Not xs] by (metis not_less take_all)
    then have "\<forall>x \<in> set xs. \<not> x" by (simp add: takeWhile_eq_all_conv)
    then show False using assms nth_mem by blast
  qed
  show "xs ! length (takeWhile Not xs)" using nth_length_takeWhile [OF lt] by simp
  show "\<And>i. i < length (takeWhile Not xs) \<Longrightarrow> \<not> xs ! i" by (metis nth_mem set_takeWhileD takeWhile_nth)
qed

lemma word_nonzero_bit: "x \<noteq> (0 :: u64) \<Longrightarrow> \<exists>i < 64. bit x i"
  using bit_word_eqI [of x 0] by auto

lemma leading_zeros_bits:
  assumes "x \<noteq> 0"
  shows "leading_zeros x < 64" "bit x (63 - leading_zeros x)" "\<And>i. bit x i \<Longrightarrow> i + leading_zeros x \<le> 63"
proof -
  obtain i where i: "i < 64" "bit x i" using word_nonzero_bit [OF assms] by blast
  have ex: "\<exists>i < length (map (bit x) (rev [0..<64])). map (bit x) (rev [0..<64]) ! i"
    by (rule exI [of _ "63 - i"]) (use i in \<open>simp add: rev_nth\<close>)
  note t = takeWhile_Not_nth [OF ex, folded leading_zeros_def]
  show lt: "leading_zeros x < 64" using t(1) by simp
  show "bit x (63 - leading_zeros x)" using t(2) lt by (simp add: rev_nth)
  fix i assume i: "bit x i"
  then have "i < 64" using bit_imp_le_length by force
  then have "\<not> 63 - i < leading_zeros x" using t(3) [of "63 - i"] i by (intro notI) (simp add: rev_nth)
  then show "i + leading_zeros x \<le> 63" using \<open>i < 64\<close> by linarith
qed

lemma trailing_zeros_bits:
  assumes "x \<noteq> 0"
  shows "trailing_zeros x < 64" "bit x (trailing_zeros x)" "\<And>i. bit x i \<Longrightarrow> trailing_zeros x \<le> i"
proof -
  have ex: "\<exists>i < length (map (bit x) [0..<64]). map (bit x) [0..<64] ! i"
    using word_nonzero_bit [OF assms] by force
  note t = takeWhile_Not_nth [OF ex, folded trailing_zeros_def]
  show lt: "trailing_zeros x < 64" using t(1) by simp
  show "bit x (trailing_zeros x)" using t(2) lt by simp
  fix i assume i: "bit x i"
  then have "i < 64" using bit_imp_le_length by force
  then show "trailing_zeros x \<le> i" using t(3) [of i] i by (intro leI notI) simp
qed

lemma zeros_disjoint: "x \<noteq> 0 \<Longrightarrow> leading_zeros x + trailing_zeros x < 64"
  using leading_zeros_bits(3) [of x "trailing_zeros x"] trailing_zeros_bits(2) [of x] by simp

text \<open>A window that covers the set bits loses nothing.\<close>

lemma window_restores:
  assumes "x \<noteq> 0" "l \<le> leading_zeros x" "t \<le> trailing_zeros x"
  shows "push_bit t (take_bit (64 - l - t) (drop_bit t x)) = x"
proof (rule bit_word_eqI)
  fix n
  assume "n < LENGTH(64)"
  have "t \<le> n \<and> n - t < 64 - l - t" if "bit x n"
    using leading_zeros_bits(3) [OF assms(1) that] trailing_zeros_bits(3) [OF assms(1) that] assms(2,3) by linarith
  then show "bit (push_bit t (take_bit (64 - l - t) (drop_bit t x))) n \<longleftrightarrow> bit x n"
    using \<open>n < LENGTH(64)\<close> by (auto simp: bit_push_bit_iff bit_take_bit_iff bit_drop_bit_eq possible_bit_word)
qed

text \<open>What is written for a value, and the window left for the next one.\<close>

definition window_ok :: "nat \<Rightarrow> nat \<Rightarrow> bool" where
  "window_ok l t \<longleftrightarrow> l = 0xff \<or> l \<le> 31 \<and> l + t < 64"

definition reuses :: "nat \<Rightarrow> nat \<Rightarrow> u64 \<Rightarrow> bool" where
  "reuses l t x \<longleftrightarrow> l \<noteq> 0xff \<and> min 31 (leading_zeros x) \<ge> l \<and> trailing_zeros x \<ge> t"

definition xor_bits :: "nat \<Rightarrow> nat \<Rightarrow> u64 \<Rightarrow> bool list" where
  "xor_bits l t x =
     (if x = 0 then [False]
      else if reuses l t x then True # False # bits_from (drop_bit t x) (64 - l - t)
      else let l = min 31 (leading_zeros x); t = trailing_zeros x
           in True # True # bits_from (of_nat l :: u64) 5 @ bits_from (of_nat (64 - l - t) AND 0x3f :: u64) 6 @
              bits_from (drop_bit t x) (64 - l - t))"

definition next_window :: "nat \<Rightarrow> nat \<Rightarrow> u64 \<Rightarrow> nat \<times> nat" where
  "next_window l t x = (if x = 0 \<or> reuses l t x then (l, t) else (min 31 (leading_zeros x), trailing_zeros x))"

lemma write_xor_fields:
  assumes "bw_ok (cb_w b)"
  shows "bw_ok (cb_w (write_xor v b))"
    "written (cb_w (write_xor v b)) = written (cb_w b) @ xor_bits (cb_leading b) (cb_trailing b) (v XOR cb_last_bits b)"
    "(cb_leading (write_xor v b), cb_trailing (write_xor v b)) = next_window (cb_leading b) (cb_trailing b) (v XOR cb_last_bits b)"
    "cb_count (write_xor v b) = cb_count b" "cb_first_ts (write_xor v b) = cb_first_ts b" "cb_last_ts (write_xor v b) = cb_last_ts b"
    "cb_last_delta (write_xor v b) = cb_last_delta b" "cb_last_bits (write_xor v b) = cb_last_bits b"
proof -
  have m: "(if 31 < n then 31 else n) = min 31 n" for n :: nat by simp
  note d = write_xor_def [unfolded m] Let_def xor_bits_def next_window_def reuses_def
  show "bw_ok (cb_w (write_xor v b))"
    using assms by (simp add: d bit_op.write_step write_bits_written)
  show "written (cb_w (write_xor v b)) = written (cb_w b) @ xor_bits (cb_leading b) (cb_trailing b) (v XOR cb_last_bits b)"
    using assms by (simp add: d bit_op.write_step write_bits_written del: bits_from_simps)
qed (simp_all add: write_xor_def Let_def next_window_def reuses_def min_def)

lemma window_ok_next: "window_ok l t \<Longrightarrow> window_ok (fst (next_window l t x)) (snd (next_window l t x))"
  using zeros_disjoint [of x] by (auto simp: window_ok_def next_window_def)

lemma window_fields:
  assumes "l \<le> 31" "0 < sig" "sig \<le> 64"
  shows "unat (take_bit 5 (of_nat l :: u64)) = l"
    "(if take_bit 6 (of_nat sig AND 0x3f :: u64) = 0 then 64 else unat (take_bit 6 (of_nat sig AND 0x3f :: u64))) = sig"
proof -
  show "unat (take_bit 5 (of_nat l :: u64)) = l" using assms(1) by (simp add: unat_take_bit_mod unat_of_nat)
  have m: "(0x3f :: u64) = mask 6" by (simp add: mask_eq_exp_minus_1)
  have e: "take_bit 6 (of_nat sig AND 0x3f :: u64) = take_bit 6 (of_nat sig)"
    unfolding m by (simp only: take_bit_eq_mask and.assoc and.idem)
  have u: "unat (take_bit 6 (of_nat sig :: u64)) = sig mod 64" using assms(3) by (simp add: unat_take_bit_mod unat_of_nat)
  then have "take_bit 6 (of_nat sig :: u64) = 0 \<longleftrightarrow> sig = 64" using assms(2,3)
    by (cases "sig = 64") (auto simp: word_unat_eq_iff)
  then show "(if take_bit 6 (of_nat sig AND 0x3f :: u64) = 0 then 64 else unat (take_bit 6 (of_nat sig AND 0x3f :: u64))) = sig"
    using u assms(3) unfolding e by auto
qed

lemma read_window_ahead:
  assumes "ahead r = bits_from (of_nat l :: u64) 5 @ bits_from (of_nat sig AND 0x3f :: u64) 6 @ rest"
    "l \<le> 31" "0 < sig" "l + sig \<le> 64"
  shows "\<exists>r'. read_window c r = Some (c\<lparr>cc_leading := l, cc_trailing := 64 - l - sig\<rparr>, r') \<and> ahead r' = rest"
proof -
  obtain r1 where r1: "read_bits 5 r = Some (take_bit 5 (of_nat l), r1)" "ahead r1 = bits_from (of_nat sig AND 0x3f :: u64) 6 @ rest"
    using read_bits_ahead [OF assms(1)] by blast
  define y where "y = take_bit 6 (of_nat sig AND 0x3f :: u64)"
  obtain r2 where r2: "read_bits 6 r1 = Some (y, r2)" "ahead r2 = rest"
    using read_bits_ahead [OF r1(2)] unfolding y_def by blast
  have "sig \<le> 64" using assms(4) by simp
  note f = window_fields [OF assms(2,3) this, folded y_def]
  show ?thesis using r2(2) assms(4) f by (cases "y = 0") (auto simp: read_window_def r1(1) r2(1) Let_def)
qed

lemma read_payload_ahead:
  assumes "ahead r = bits_from (drop_bit t x) (64 - l - t) @ rest" "cc_leading c = l" "cc_trailing c = t"
    "x \<noteq> 0" "l \<le> leading_zeros x" "t \<le> trailing_zeros x"
  shows "\<exists>r'. (case read_bits (64 - cc_leading c - cc_trailing c) r of
        None \<Rightarrow> None | Some (v, r) \<Rightarrow> Some (c\<lparr>cc_bits := cc_bits c XOR push_bit (cc_trailing c) v\<rparr>, r))
      = Some (c\<lparr>cc_bits := cc_bits c XOR x\<rparr>, r') \<and> ahead r' = rest"
  using read_bits_ahead [OF assms(1)] window_restores [OF assms(4-6)] assms(2,3) by auto

lemma read_xor_ahead:
  assumes "ahead r = xor_bits l t x @ rest" "window_ok l t" "l \<noteq> 0xff \<Longrightarrow> cc_leading c = l \<and> cc_trailing c = t"
  shows "\<exists>c' r'. read_xor c r = Some (c', r') \<and> ahead r' = rest \<and> cc_bits c' = cc_bits c XOR x \<and> cc_ts c' = cc_ts c \<and>
    cc_delta c' = cc_delta c \<and> (\<forall>l' t'. next_window l t x = (l', t') \<longrightarrow> l' \<noteq> 0xff \<longrightarrow> cc_leading c' = l' \<and> cc_trailing c' = t')"
proof (cases "x = 0")
  case True
  then obtain r' where "read_bit r = Some (False, r')" "ahead r' = rest"
    using bit_op.read_enc [where x = False and r = r and rest = rest] assms(1) by (auto simp: xor_bits_def)
  then show ?thesis using True assms(3) by (auto simp: read_xor_def next_window_def)
next
  case False
  have "xor_bits l t x = True # tl (xor_bits l t x)" by (simp add: xor_bits_def Let_def False)
  then have "ahead r = [True] @ (tl (xor_bits l t x) @ rest)" using assms(1) by (metis append_Cons append_Nil)
  from bit_op.read_enc [OF _ this] obtain r1 where r1: "read_bit r = Some (True, r1)" "ahead r1 = tl (xor_bits l t x) @ rest"
    by blast
  show ?thesis
  proof (cases "reuses l t x")
    case True
    then have w: "l \<le> leading_zeros x" "t \<le> trailing_zeros x" "cc_leading c = l" "cc_trailing c = t" "l \<noteq> 0xff"
      using assms(3) by (auto simp: reuses_def)
    obtain r2 where r2: "read_bit r1 = Some (False, r2)" "ahead r2 = bits_from (drop_bit t x) (64 - l - t) @ rest"
      using bit_op.read_enc [where x = False and r = r1 and rest = "bits_from (drop_bit t x) (64 - l - t) @ rest"] r1(2) False True
      by (auto simp: xor_bits_def)
    from read_payload_ahead [OF r2(2) w(3,4) False w(1,2)] show ?thesis
      using w True by (auto simp: read_xor_def r1(1) r2(1) next_window_def)
  next
    case new: False
    define l' t' where "l' = min 31 (leading_zeros x)" and "t' = trailing_zeros x"
    have lt: "l' \<le> 31" "l' \<le> leading_zeros x" "l' + t' < 64" using zeros_disjoint [OF False] by (auto simp: l'_def t'_def)
    obtain r2 where r2: "read_bit r1 = Some (True, r2)"
      "ahead r2 = bits_from (of_nat l' :: u64) 5 @ bits_from (of_nat (64 - l' - t') AND 0x3f :: u64) 6 @
         (bits_from (drop_bit t' x) (64 - l' - t') @ rest)"
      using bit_op.read_enc [where x = True and r = r1 and rest = "tl (tl (xor_bits l t x)) @ rest"] r1(2) False new
      by (auto simp: xor_bits_def Let_def l'_def t'_def)
    have "64 - l' - (64 - l' - t') = t'" using lt by simp
    then obtain r3 where r3: "read_window c r2 = Some (c\<lparr>cc_leading := l', cc_trailing := t'\<rparr>, r3)"
      "ahead r3 = bits_from (drop_bit t' x) (64 - l' - t') @ rest"
      using read_window_ahead [OF r2(2), of c] lt by auto
    define c1 where "c1 = c\<lparr>cc_leading := l', cc_trailing := t'\<rparr>"
    note r3 = r3 [folded c1_def]
    have c1: "cc_leading c1 = l'" "cc_trailing c1 = t'" "cc_bits c1 = cc_bits c" "cc_ts c1 = cc_ts c" "cc_delta c1 = cc_delta c"
      by (simp_all add: c1_def)
    have "t' \<le> trailing_zeros x" by (simp add: t'_def)
    moreover have "next_window l t x = (l', t')" using False new by (simp add: next_window_def l'_def t'_def)
    ultimately show ?thesis using read_payload_ahead [OF r3(2) c1(1,2) False lt(2)] c1 by (auto simp: read_xor_def r1(1) r2(1) r3(1))
  qed
qed

section \<open>Chunks\<close>

definition chunk_ok :: "chunk_builder \<Rightarrow> bool" where
  "chunk_ok b \<longleftrightarrow> bw_ok (cb_w b) \<and> window_ok (cb_leading b) (cb_trailing b)"

text \<open>The decoder's variables after it has read what the builder has written.\<close>

definition same_window :: "chunk_builder \<Rightarrow> chunk_cursor \<Rightarrow> bool" where
  "same_window b c \<longleftrightarrow> (cb_leading b \<noteq> 0xff \<longrightarrow> cc_leading c = cb_leading b \<and> cc_trailing c = cb_trailing b)"

definition tracks :: "chunk_builder \<Rightarrow> chunk_cursor \<Rightarrow> bool" where
  "tracks b c \<longleftrightarrow>
     (cb_count b \<noteq> 0 \<longrightarrow> cc_ts c = cb_last_ts b \<and> cc_bits c = cb_last_bits b) \<and>
     (cb_count b \<noteq> 0 \<and> cb_count b \<noteq> 1 \<longrightarrow> cc_delta c = cb_last_delta b) \<and> same_window b c"

lemma chunk_new_ok: "chunk_ok chunk_new" "tracks chunk_new c" "written (cb_w chunk_new) = []"
  by (simp_all add: chunk_ok_def tracks_def chunk_new_def bw_new_ok window_ok_def same_window_def)

text \<open>A value after the builder has moved to a new timestamp.\<close>

lemma write_xor_step:
  assumes b: "chunk_ok b" and x: "b' = write_xor v b"
  shows "chunk_ok b'" "\<exists>bits. written (cb_w b') = written (cb_w b) @ bits \<and>
    (\<forall>c r rest. cc_bits c = cb_last_bits b \<longrightarrow> same_window b c \<longrightarrow> ahead r = bits @ rest \<longrightarrow>
      (\<exists>c' r'. read_xor c r = Some (c', r') \<and> ahead r' = rest \<and> cc_bits c' = v \<and> cc_ts c' = cc_ts c \<and>
         cc_delta c' = cc_delta c \<and> same_window b' c'))"
proof -
  have ok: "bw_ok (cb_w b)" "window_ok (cb_leading b) (cb_trailing b)" using b by (simp_all add: chunk_ok_def)
  note f = write_xor_fields [OF ok(1), of v, folded x]
  show "chunk_ok b'" using f(1,3) window_ok_next [OF ok(2), of "v XOR cb_last_bits b"] unfolding chunk_ok_def by (metis fst_conv snd_conv)
  let ?x = "v XOR cb_last_bits b"
  let ?bits = "xor_bits (cb_leading b) (cb_trailing b) ?x"
  have "\<exists>c' r'. read_xor c r = Some (c', r') \<and> ahead r' = rest \<and> cc_bits c' = v \<and> cc_ts c' = cc_ts c \<and>
      cc_delta c' = cc_delta c \<and> same_window b' c'"
    if c: "cc_bits c = cb_last_bits b" "same_window b c" "ahead r = ?bits @ rest" for c r rest
  proof -
    obtain c' r' where "read_xor c r = Some (c', r')" "ahead r' = rest" "cc_bits c' = cc_bits c XOR ?x" "cc_ts c' = cc_ts c"
      "cc_delta c' = cc_delta c" "cb_leading b' \<noteq> 0xff \<longrightarrow> cc_leading c' = cb_leading b' \<and> cc_trailing c' = cb_trailing b'"
      using read_xor_ahead [OF c(3) ok(2), of c] c(2) f(3) [symmetric] unfolding same_window_def by blast
    moreover have "cc_bits c XOR ?x = v" using c(1) by (simp add: xor.left_commute)
    ultimately show ?thesis unfolding same_window_def by auto
  qed
  then show "\<exists>bits. written (cb_w b') = written (cb_w b) @ bits \<and>
    (\<forall>c r rest. cc_bits c = cb_last_bits b \<longrightarrow> same_window b c \<longrightarrow> ahead r = bits @ rest \<longrightarrow>
      (\<exists>c' r'. read_xor c r = Some (c', r') \<and> ahead r' = rest \<and> cc_bits c' = v \<and> cc_ts c' = cc_ts c \<and>
         cc_delta c' = cc_delta c \<and> same_window b' c'))"
    using f(2) by blast
qed

text \<open>One append, and the decoder step that reads it.\<close>

definition appends :: "chunk_builder \<Rightarrow> i64 \<Rightarrow> u64 \<Rightarrow> chunk_builder \<Rightarrow> bool list \<Rightarrow> bool" where
  "appends b ts v b' bits \<longleftrightarrow>
     chunk_ok b' \<and> unat (cb_count b') = Suc (unat (cb_count b)) \<and> cb_last_ts b' = ts \<and>
     cb_first_ts b' = (if cb_count b = 0 then ts else cb_first_ts b) \<and> written (cb_w b') = written (cb_w b) @ bits \<and>
     (\<forall>c r rest. tracks b c \<longrightarrow> ahead r = bits @ rest \<longrightarrow>
       (\<exists>c' r'. decode_step (unat (cb_count b)) c r = Some (c', r') \<and> ahead r' = rest \<and> cc_ts c' = ts \<and> cc_bits c' = v \<and>
          tracks b' c'))"

lemma count_Suc: "unat n < 65535 \<Longrightarrow> unat (n + 1 :: u16) = Suc (unat n)"
  by (simp add: unat_word_ariths(1))

lemma append_first:
  assumes b: "chunk_ok b" "cb_count b = 0"
  shows "\<exists>b' bits. chunk_append ts v b = Inr b' \<and> appends b ts v b' bits"
proof -
  let ?w = "write_bits v 64 (write_varint ts (cb_w b))"
  let ?b = "b\<lparr>cb_w := ?w, cb_first_ts := ts, cb_last_ts := ts, cb_last_bits := v, cb_count := 1\<rparr>"
  let ?bits = "uvarint_bits (zigzag ts) @ bits_from v 64"
  have ok: "bw_ok (cb_w b)" "window_ok (cb_leading b) (cb_trailing b)" using b(1) by (simp_all add: chunk_ok_def)
  have w: "bw_ok ?w" "written ?w = written (cb_w b) @ ?bits"
    using write_bits_written varint_op.write_step [OF ok(1)] by simp_all
  have a: "chunk_append ts v b = Inr ?b" by (simp add: chunk_append_def b(2) Let_def)
  have "\<exists>c' r'. decode_step (unat (cb_count b)) c r = Some (c', r') \<and> ahead r' = rest \<and> cc_ts c' = ts \<and> cc_bits c' = v \<and> tracks ?b c'"
    if c: "tracks b c" "ahead r = ?bits @ rest" for c r rest
  proof -
    obtain r1 where r1: "read_varint r = Some (ts, r1)" "ahead r1 = bits_from v 64 @ rest"
      using varint_op.read_enc [where x = ts and r = r and rest = "bits_from v 64 @ rest"] c(2) by auto
    obtain r2 where r2: "read_bits 64 r1 = Some (v, r2)" "ahead r2 = rest"
      using word_op.read_enc [where x = v, OF _ r1(2)] by auto
    show ?thesis using c(1) r2(2) by (simp add: decode_step_def b(2) r1(1) r2(1) tracks_def same_window_def)
  qed
  then have "appends b ts v ?b ?bits" using w ok(2) by (simp add: appends_def chunk_ok_def b(2))
  then show ?thesis using a by blast
qed

lemma append_later:
  assumes b: "chunk_ok b" "cb_count b \<noteq> 0" "unat (cb_count b) < 65535" and ts: "cb_last_ts b <s ts"
  shows "\<exists>b' bits. chunk_append ts v b = Inr b' \<and> appends b ts v b' bits"
proof -
  define delta where "delta = ts - cb_last_ts b"
  define w where "w = (if cb_count b = 1 then write_uvarint delta (cb_w b) else write_dod (delta - cb_last_delta b) (cb_w b))"
  define bits where "bits = (if cb_count b = 1 then uvarint_bits delta else dod_bits (delta - cb_last_delta b))"
  define b1 where "b1 = b\<lparr>cb_w := w, cb_last_delta := delta\<rparr>"
  define b2 where "b2 = write_xor v b1"
  let ?b = "b2\<lparr>cb_last_ts := ts, cb_last_bits := v, cb_count := cb_count b2 + 1\<rparr>"
  have ok: "bw_ok (cb_w b)" "window_ok (cb_leading b) (cb_trailing b)" using b(1) by (simp_all add: chunk_ok_def)
  have w: "bw_ok w" "written w = written (cb_w b) @ bits"
    using uvarint_op.write_step [OF ok(1)] dod_op.write_step [OF ok(1)] by (simp_all add: w_def bits_def)
  have b1: "chunk_ok b1" using w(1) ok(2) by (simp add: chunk_ok_def b1_def)
  have a: "chunk_append ts v b = Inr ?b"
    using ts b(2) by (simp add: chunk_append_def Let_def b2_def b1_def w_def delta_def word_sle_eq word_sless_alt)
  obtain bits2 where b2: "chunk_ok b2" "written (cb_w b2) = written w @ bits2"
    and rx: "\<And>c r rest. cc_bits c = cb_last_bits b1 \<Longrightarrow> same_window b1 c \<Longrightarrow> ahead r = bits2 @ rest \<Longrightarrow>
      \<exists>c' r'. read_xor c r = Some (c', r') \<and> ahead r' = rest \<and> cc_bits c' = v \<and> cc_ts c' = cc_ts c \<and>
         cc_delta c' = cc_delta c \<and> same_window b2 c'"
    using write_xor_step [OF b1 b2_def] by (auto simp: b1_def)
  have f: "cb_count b2 = cb_count b" "cb_first_ts b2 = cb_first_ts b" "cb_last_delta b2 = delta"
    using write_xor_fields(4-8) [of b1 v] w(1) by (simp_all add: b2_def b1_def)
  have step: "\<exists>c' r'. decode_step (unat (cb_count b)) c r = Some (c', r') \<and> ahead r' = rest \<and> cc_ts c' = ts \<and> cc_bits c' = v \<and> tracks ?b c'"
    if c: "tracks b c" "ahead r = (bits @ bits2) @ rest" for c r rest
  proof -
    let ?c = "c\<lparr>cc_delta := delta, cc_ts := cc_ts c + delta\<rparr>"
    have cur: "cc_ts c = cb_last_ts b" "cc_bits c = cb_last_bits b" "same_window b c"
      "cb_count b \<noteq> 1 \<Longrightarrow> cc_delta c = cb_last_delta b" using c(1) b(2) by (auto simp: tracks_def)
    obtain r1 where r1: "decode_step (unat (cb_count b)) c r = read_xor ?c r1" "ahead r1 = bits2 @ rest"
    proof (cases "cb_count b = 1")
      case True
      then obtain r1 where "read_uvarint r = Some (delta, r1)" "ahead r1 = bits2 @ rest"
        using uvarint_op.read_enc [where x = delta and r = r and rest = "bits2 @ rest"] c(2) by (auto simp: bits_def)
      then show ?thesis using True by (intro that) (simp_all add: decode_step_def)
    next
      case False
      then obtain r1 where "read_dod r = Some (delta - cb_last_delta b, r1)" "ahead r1 = bits2 @ rest"
        using dod_op.read_enc [where x = "delta - cb_last_delta b" and r = r and rest = "bits2 @ rest"] c(2) by (auto simp: bits_def)
      moreover have "unat (cb_count b) \<noteq> 0" "unat (cb_count b) \<noteq> 1" using False b(2) by (auto simp: word_unat_eq_iff)
      ultimately show ?thesis using cur(4) [OF False] by (intro that) (simp_all add: decode_step_def Let_def)
    qed
    have "cc_bits ?c = cb_last_bits b1" "same_window b1 ?c" using cur by (simp_all add: b1_def same_window_def)
    from rx [OF this r1(2)] show ?thesis using r1(1) cur(1) f(3) by (auto simp: tracks_def same_window_def delta_def)
  qed
  have "appends b ts v ?b (bits @ bits2)"
    unfolding appends_def using b2 w(2) f count_Suc [OF b(3)] b(2) step by (auto simp: chunk_ok_def)
  then show ?thesis using a by blast
qed

lemma chunk_append_step:
  assumes "chunk_ok b" "unat (cb_count b) < 65535" "cb_count b = 0 \<or> cb_last_ts b <s ts"
  shows "\<exists>b' bits. chunk_append ts v b = Inr b' \<and> appends b ts v b' bits"
  using append_first [OF assms(1)] append_later [OF assms(1) _ assms(2)] assms(3) by (cases "cb_count b = 0") auto

text \<open>Timestamps increase strictly.\<close>

definition in_order :: "sample list \<Rightarrow> bool" where
  "in_order ss \<longleftrightarrow> sorted_wrt (\<lambda>a b. sm_ts a <s sm_ts b) ss"

lemma append_samples_step:
  assumes "chunk_ok b" "in_order ss" "cb_count b = 0 \<or> (\<forall>s \<in> set ss. cb_last_ts b <s sm_ts s)" "unat (cb_count b) + length ss \<le> 65535"
  shows "\<exists>b' bits. append_samples ss b = Inr b' \<and> chunk_ok b' \<and> unat (cb_count b') = unat (cb_count b) + length ss \<and>
    written (cb_w b') = written (cb_w b) @ bits \<and> (ss \<noteq> [] \<longrightarrow> cb_last_ts b' = sm_ts (last ss) \<and>
      cb_first_ts b' = (if cb_count b = 0 then sm_ts (hd ss) else cb_first_ts b)) \<and>
    (\<forall>c r rest. tracks b c \<longrightarrow> ahead r = bits @ rest \<longrightarrow> decode_loop (length ss) (unat (cb_count b)) c r = Inr ss)"
  using assms
proof (induction ss arbitrary: b)
  case (Cons s ss)
  have n: "unat (cb_count b) < 65535" using Cons.prems(4) by simp
  obtain b1 bits1 where b1: "chunk_append (sm_ts s) (sm_value s) b = Inr b1" "appends b (sm_ts s) (sm_value s) b1 bits1"
    using chunk_append_step [OF Cons.prems(1) n, of "sm_ts s" "sm_value s"] Cons.prems(3) by auto
  note a = b1(2) [unfolded appends_def]
  have "chunk_ok b1" "in_order ss" "\<forall>x \<in> set ss. cb_last_ts b1 <s sm_ts x" "unat (cb_count b1) + length ss \<le> 65535"
    "cb_count b1 \<noteq> 0"
    using a Cons.prems(2,4) by (auto simp: in_order_def)
  then obtain b' bits where b': "append_samples ss b1 = Inr b'" "chunk_ok b'" "unat (cb_count b') = unat (cb_count b1) + length ss"
    "written (cb_w b') = written (cb_w b1) @ bits" "ss \<noteq> [] \<longrightarrow> cb_last_ts b' = sm_ts (last ss) \<and> cb_first_ts b' = cb_first_ts b1"
    "\<forall>c r rest. tracks b1 c \<longrightarrow> ahead r = bits @ rest \<longrightarrow> decode_loop (length ss) (unat (cb_count b1)) c r = Inr ss"
    using Cons.IH [of b1] by auto
  have "decode_loop (length (s # ss)) (unat (cb_count b)) c r = Inr (s # ss)"
    if c: "tracks b c" "ahead r = (bits1 @ bits) @ rest" for c r rest
  proof -
    obtain c' r' where "decode_step (unat (cb_count b)) c r = Some (c', r')" "ahead r' = bits @ rest" "cc_ts c' = sm_ts s"
      "cc_bits c' = sm_value s" "tracks b1 c'"
      using a c by fastforce
    then show ?thesis using b'(6) a by simp
  qed
  then show ?case using b' b1(1) a by (intro exI [of _ b'] exI [of _ "bits1 @ bits"]) (cases "ss = []"; auto)
qed simp

text \<open>
  C13: appending samples with strictly increasing timestamps to a new chunk succeeds, whatever the
  timestamps and the bit patterns of the values, NaNs included; the sealed bytes and the open chunk
  decode to exactly the samples, and the chunk reports their number and its first and last timestamp.
\<close>

theorem chunk_round_trip:
  assumes "in_order ss" and "length ss \<le> 65535" and "ss \<noteq> []"
  shows "\<exists>b. append_samples ss chunk_new = Inr b \<and> chunk_decode (chunk_seal b) = Inr ss \<and> chunk_snapshot b = Inr ss \<and>
    unat (cb_count b) = length ss \<and> cb_first_ts b = sm_ts (hd ss) \<and> cb_last_ts b = sm_ts (last ss)"
proof -
  let ?c = "\<lparr>cc_ts = 0, cc_delta = 0, cc_bits = 0, cc_leading = 0, cc_trailing = 0\<rparr>"
  have 0: "cb_count chunk_new = 0" by (simp add: chunk_new_def)
  obtain b where b: "append_samples ss chunk_new = Inr b" "unat (cb_count b) = length ss" "cb_last_ts b = sm_ts (last ss)"
    "cb_first_ts b = sm_ts (hd ss)"
    "\<forall>c r rest. tracks chunk_new c \<longrightarrow> ahead r = written (cb_w b) @ rest \<longrightarrow> decode_loop (length ss) 0 c r = Inr ss"
    using append_samples_step [OF chunk_new_ok(1) assms(1)] assms(2,3) 0 chunk_new_ok(3) by auto
  have "ahead (br_new (bw_buf (cb_w b))) = written (cb_w b) @ drop (8 * length (bw_buf (cb_w b)) - bw_used (cb_w b)) (stream_bits (bw_buf (cb_w b)))"
    by (simp add: ahead_def br_new_def written_def)
  then have d: "decode_stream (bw_buf (cb_w b)) (cb_count b) = Inr ss"
    using b(2,5) chunk_new_ok(2) by (simp add: decode_stream_def)
  then show ?thesis using b(1-4) by (auto simp: chunk_decode_def chunk_seal_def chunk_snapshot_def)
qed

theorem chunk_round_trip_witness:
  "\<exists>b. append_samples [\<lparr>sm_ts = - 5, sm_value = 0x3FF0000000000000\<rparr>, \<lparr>sm_ts = 10, sm_value = 0x7FF8000000000000\<rparr>,
        \<lparr>sm_ts = 26, sm_value = 0x7FF8000000000000\<rparr>, \<lparr>sm_ts = 9000000, sm_value = 1\<rparr>] chunk_new = Inr b \<and>
     chunk_decode (chunk_seal b) = Inr [\<lparr>sm_ts = - 5, sm_value = 0x3FF0000000000000\<rparr>,
        \<lparr>sm_ts = 10, sm_value = 0x7FF8000000000000\<rparr>, \<lparr>sm_ts = 26, sm_value = 0x7FF8000000000000\<rparr>,
        \<lparr>sm_ts = 9000000, sm_value = 1\<rparr>] \<and> cb_count b = 4"
proof -
  let ?ss = "[\<lparr>sm_ts = - 5, sm_value = 0x3FF0000000000000\<rparr>, \<lparr>sm_ts = 10, sm_value = 0x7FF8000000000000\<rparr>,
        \<lparr>sm_ts = 26, sm_value = 0x7FF8000000000000\<rparr>, \<lparr>sm_ts = 9000000, sm_value = 1\<rparr>]"
  have "in_order ?ss" by (simp add: in_order_def word_sless_alt)
  from chunk_round_trip [OF this] show ?thesis by (auto simp: word_unat_eq_iff)
qed

end
