(* ===== verification/Ts_Codec.thy ===== *)
theory Ts_Codec
  imports Ts_Chunk Storage_Base Manifest
begin

text \<open>
  The byte codecs of the time-series store: varints and the sequential decoder
  (\<open>skaidb-tsdb/src/varenc.rs\<close>), label sets, the records of its log and the table-driven checksum
  (\<open>skaidb-tsdb/src/wal.rs\<close>). A string is the list of its UTF-8 bytes; \<open>utf8_valid\<close> is the check of
  \<open>String::from_utf8\<close>.
\<close>

section \<open>Strings\<close>

abbreviation utf8_tail :: "byte \<Rightarrow> bool" where
  "utf8_tail b \<equiv> 0x80 \<le> b \<and> b \<le> 0xBF"

fun utf8_valid :: "bytes \<Rightarrow> bool" where
  "utf8_valid [] = True"
| "utf8_valid (a # bs) =
     (if a \<le> 0x7F then utf8_valid bs
      else case bs of
        [] \<Rightarrow> False
      | b # cs \<Rightarrow>
          if 0xC2 \<le> a \<and> a \<le> 0xDF then utf8_tail b \<and> utf8_valid cs
          else (case cs of
            [] \<Rightarrow> False
          | c # ds \<Rightarrow>
              if 0xE0 \<le> a \<and> a \<le> 0xEF
              then utf8_tail b \<and> utf8_tail c \<and> (a = 0xE0 \<longrightarrow> 0xA0 \<le> b) \<and> (a = 0xED \<longrightarrow> b \<le> 0x9F) \<and> utf8_valid ds
              else (case ds of
                [] \<Rightarrow> False
              | d # es \<Rightarrow>
                  0xF0 \<le> a \<and> a \<le> 0xF4 \<and> utf8_tail b \<and> utf8_tail c \<and> utf8_tail d \<and>
                  (a = 0xF0 \<longrightarrow> 0x90 \<le> b) \<and> (a = 0xF4 \<longrightarrow> b \<le> 0x8F) \<and> utf8_valid es)))"

type_synonym rust_string = bytes
type_synonym labels = "(rust_string \<times> rust_string) list"

section \<open>Varints\<close>

function put_uvarint :: "u64 \<Rightarrow> bytes" where
  "put_uvarint v =
     (let byte = ucast (v AND 0x7f) :: byte;
          v = drop_bit 7 v
      in if v = 0 then [byte] else (byte OR 0x80) # put_uvarint v)"
  by pat_completeness auto
termination
  by (relation "measure unat") (auto intro: uvarint_decreases)

declare put_uvarint.simps [simp del]

definition put_varint :: "i64 \<Rightarrow> bytes" where
  "put_varint v = put_uvarint (zigzag v)"

definition put_bytes :: "bytes \<Rightarrow> bytes" where
  "put_bytes b = put_uvarint (of_nat (length b)) @ b"

definition dec_u8 :: "bytes \<Rightarrow> nat \<Rightarrow> tsdb_error + byte \<times> nat" where
  "dec_u8 buf pos = (if pos < length buf then Inr (buf ! pos, pos + 1) else Inl (Corrupt ''truncated byte''))"

function dec_uvarint_loop :: "u64 \<Rightarrow> nat \<Rightarrow> bytes \<Rightarrow> nat \<Rightarrow> tsdb_error + u64 \<times> nat" where
  "dec_uvarint_loop v shift buf pos =
     rbind (dec_u8 buf pos) (\<lambda>(byte, pos).
       let v = v OR push_bit shift (ucast (byte AND 0x7f))
       in if byte AND 0x80 = 0 then Inr (v, pos)
          else if shift + 7 \<ge> 64 then Inl (Corrupt ''truncated uvarint'')
          else dec_uvarint_loop v (shift + 7) buf pos)"
  by pat_completeness auto
termination
  by (relation "measure (\<lambda>(v, shift, buf, pos). 64 - shift)") auto

declare dec_uvarint_loop.simps [simp del]

definition dec_uvarint :: "bytes \<Rightarrow> nat \<Rightarrow> tsdb_error + u64 \<times> nat" where
  "dec_uvarint buf pos = dec_uvarint_loop 0 0 buf pos"

definition dec_varint :: "bytes \<Rightarrow> nat \<Rightarrow> tsdb_error + i64 \<times> nat" where
  "dec_varint buf pos = rbind (dec_uvarint buf pos) (\<lambda>(u, pos). Inr (unzigzag u, pos))"

definition dec_u64_le :: "bytes \<Rightarrow> nat \<Rightarrow> tsdb_error + u64 \<times> nat" where
  "dec_u64_le buf pos =
     (if pos + 8 \<le> length buf then Inr (from_le_bytes (take 8 (drop pos buf)), pos + 8) else Inl (Corrupt ''truncated u64''))"

definition dec_bytes :: "bytes \<Rightarrow> nat \<Rightarrow> tsdb_error + bytes \<times> nat" where
  "dec_bytes buf pos =
     rbind (dec_uvarint buf pos) (\<lambda>(len, pos).
       cur_take (Corrupt ''truncated length'') (Corrupt ''truncated bytes'') buf pos (unat len))"

definition dec_string :: "bytes \<Rightarrow> nat \<Rightarrow> tsdb_error + rust_string \<times> nat" where
  "dec_string buf pos =
     rbind (dec_bytes buf pos) (\<lambda>(b, pos). if utf8_valid b then Inr (b, pos) else Inl (Corrupt ''invalid utf-8''))"

section \<open>Label sets\<close>

definition put_labels :: "labels \<Rightarrow> bytes" where
  "put_labels labels = put_uvarint (of_nat (length labels)) @ concat (map (\<lambda>(k, v). put_bytes k @ put_bytes v) labels)"

definition dec_label :: "bytes \<Rightarrow> nat \<Rightarrow> tsdb_error + (rust_string \<times> rust_string) \<times> nat" where
  "dec_label buf pos =
     rbind (dec_string buf pos) (\<lambda>(k, pos). rbind (dec_string buf pos) (\<lambda>(v, pos). Inr ((k, v), pos)))"

text \<open>
  A count and that many items, collected in a vector of items of \<open>sz\<close> bytes each.
  \<open>Vec::with_capacity\<close> panics (\<open>None\<close>) when the vector would be larger than \<open>isize::MAX\<close> bytes.
\<close>

definition dec_vec ::
    "nat \<Rightarrow> (bytes \<Rightarrow> nat \<Rightarrow> tsdb_error + 'a \<times> nat) \<Rightarrow> bytes \<Rightarrow> nat \<Rightarrow> (tsdb_error + 'a list \<times> nat) option" where
  "dec_vec sz dec buf pos =
     pbind (Some (dec_uvarint buf pos)) (\<lambda>(n, pos).
       if unat n * sz > 9223372036854775807 then None else Some (dec_times dec (unat n) buf pos))"

text \<open>A label is two \<open>String\<close>s, of 24 bytes each.\<close>

definition dec_labels :: "bytes \<Rightarrow> nat \<Rightarrow> (tsdb_error + labels \<times> nat) option" where
  "dec_labels buf pos = dec_vec 48 dec_label buf pos"

section \<open>Log records\<close>

datatype ts_record =
    Series u64 labels
  | Samples "(u64 \<times> i64 \<times> u64) list"

definition REC_SERIES :: byte where "REC_SERIES = 1"
definition REC_SAMPLES :: byte where "REC_SAMPLES = 2"

definition put_sample :: "u64 \<times> i64 \<times> u64 \<Rightarrow> bytes" where
  "put_sample s = (case s of (sid, ts, v) \<Rightarrow> put_uvarint sid @ put_varint ts @ le_bytes 8 v)"

definition record_encode :: "ts_record \<Rightarrow> bytes" where
  "record_encode r =
     (case r of
        Series sid labels \<Rightarrow> REC_SERIES # put_uvarint sid @ put_labels labels
      | Samples samples \<Rightarrow> REC_SAMPLES # put_uvarint (of_nat (length samples)) @ concat (map put_sample samples))"

definition dec_sample :: "bytes \<Rightarrow> nat \<Rightarrow> tsdb_error + (u64 \<times> i64 \<times> u64) \<times> nat" where
  "dec_sample buf pos =
     rbind (dec_uvarint buf pos) (\<lambda>(sid, pos). rbind (dec_varint buf pos) (\<lambda>(ts, pos).
     rbind (dec_u64_le buf pos) (\<lambda>(v, pos). Inr ((sid, ts, v), pos))))"

text \<open>A sample is 24 bytes.\<close>

definition record_decode :: "bytes \<Rightarrow> (tsdb_error + ts_record) option" where
  "record_decode payload =
     pbind (Some (dec_u8 payload 0)) (\<lambda>(kind, pos).
       if kind = REC_SERIES
       then pbind (Some (dec_uvarint payload pos)) (\<lambda>(sid, pos).
            pbind (dec_labels payload pos) (\<lambda>(labels, pos). Some (Inr (Series sid labels))))
       else if kind = REC_SAMPLES
       then pbind (dec_vec 24 dec_sample payload pos) (\<lambda>(samples, pos). Some (Inr (Samples samples)))
       else Some (Inl (Corrupt (''unknown wal record '' @ show_nat (unat kind)))))"

section \<open>Checksum\<close>

definition table_step :: "u32 \<Rightarrow> u32" where
  "table_step c = (if c AND 1 = 1 then 0xEDB88320 XOR drop_bit 1 c else drop_bit 1 c)"

definition crc_table :: "u32 list" where
  "crc_table = map (\<lambda>i. (table_step ^^ 8) (of_nat i)) [0..<256]"

definition table_crc32 :: "bytes \<Rightarrow> u32" where
  "table_crc32 data =
     NOT (foldl (\<lambda>crc b. crc_table ! unat ((crc XOR ucast b) AND 0xff) XOR drop_bit 8 crc) 0xFFFFFFFF data)"

section \<open>Round trips\<close>

lemma put_uvarint_nonempty: "put_uvarint v \<noteq> []"
  by (simp add: put_uvarint.simps [of v] Let_def)

lemma dec_uvarint_loop_put:
  "unat v * 2 ^ shift < 2 ^ 64 \<Longrightarrow>
    dec_uvarint_loop acc shift (pre @ put_uvarint v @ post) (length pre)
      = Inr (acc OR push_bit shift v, length pre + length (put_uvarint v))"
proof (induction v arbitrary: acc shift pre rule: put_uvarint.induct)
  case (1 v)
  show ?case
  proof (cases "drop_bit 7 v = 0")
    case True
    have "dec_uvarint_loop acc shift (pre @ ucast (v AND 0x7f) # post) (length pre) =
        Inr (acc OR push_bit shift (v AND 0x7f), Suc (length pre))"
      by (simp add: dec_uvarint_loop.simps [of acc] dec_u8_def Let_def uvarint_byte)
    then show ?thesis using True drop_bit_7_eq_0 [OF True] by (simp add: put_uvarint.simps [of v] Let_def)
  next
    case False
    note s = uvarint_shift [OF False 1(2)]
    let ?b = "ucast (v AND 0x7f) OR 0x80 :: byte"
    have b: "ucast (?b AND 0x7f) = v AND 0x7f" "?b AND 0x80 \<noteq> 0"
      using uvarint_byte(2,4) [of v] by (simp_all add: unsigned_or_eq unsigned_and_eq)
    have e: "(acc OR push_bit shift (v AND 0x7f)) OR push_bit (shift + 7) (drop_bit 7 v) = acc OR push_bit shift v"
      by (simp only: or.assoc uvarint_split)
    show ?thesis
      using 1(1) [OF refl refl False s(2), of "acc OR push_bit shift (v AND 0x7f)" "pre @ [?b]", unfolded e] s(1) False b
      by (simp add: put_uvarint.simps [of v] dec_uvarint_loop.simps [of acc] dec_u8_def Let_def)
  qed
qed

interpretation uvarint_bytes: cursor_codec put_uvarint dec_uvarint "\<lambda>_. True"
  using dec_uvarint_loop_put [where shift = 0 and acc = 0] unsigned_less [where ?'a = nat and ?'b = 64]
  by unfold_locales (simp_all add: dec_uvarint_def put_uvarint_nonempty)

lemma unzigzag_at:
  assumes "length (pre @ put_varint v @ post) < usize_bound"
  shows "dec_varint (pre @ put_varint v @ post) (length pre) = Inr (v, length pre + length (put_varint v))"
  using uvarint_bytes.dec_enc [where x = "zigzag v" and pre = pre and post = post] assms by (simp add: dec_varint_def put_varint_def)

interpretation varint_bytes: cursor_codec put_varint dec_varint "\<lambda>_. True"
  using unzigzag_at by unfold_locales (simp_all add: put_varint_def put_uvarint_nonempty)

interpretation u64_bytes: cursor_codec "le_bytes 8 :: u64 \<Rightarrow> bytes" dec_u64_le "\<lambda>_. True"
  by unfold_locales (simp_all add: dec_u64_le_def)

lemma dec_bytes_at:
  assumes "length (pre @ put_bytes b @ post) < usize_bound"
  shows "dec_bytes (pre @ put_bytes b @ post) (length pre) = Inr (b, length pre + length (put_bytes b))"
proof -
  let ?n = "put_uvarint (of_nat (length b))"
  have l: "unat (of_nat (length b) :: u64) = length b" using assms by (intro unat_of_nat_u64) (simp add: put_bytes_def)
  have "dec_uvarint (pre @ ?n @ b @ post) (length pre) = Inr (of_nat (length b), length pre + length ?n)"
    using uvarint_bytes.dec_enc [where x = "of_nat (length b)" and pre = pre and post = "b @ post"] assms by (simp add: put_bytes_def)
  moreover have "cur_take e1 e2 ((pre @ ?n) @ b @ post) (length pre + length ?n) (length b) = Inr (b, length pre + length ?n + length b)" for e1 e2 :: tsdb_error
    using assms by (intro cur_take_append) (simp_all add: put_bytes_def)
  ultimately show ?thesis by (simp add: dec_bytes_def put_bytes_def l)
qed

interpretation blob_bytes: cursor_codec put_bytes dec_bytes "\<lambda>_. True"
  using dec_bytes_at by unfold_locales (simp_all add: put_bytes_def put_uvarint_nonempty)

interpretation string_bytes: cursor_codec put_bytes dec_string utf8_valid
  using dec_bytes_at by unfold_locales (simp_all add: dec_string_def put_bytes_def put_uvarint_nonempty)

definition label_ok :: "rust_string \<times> rust_string \<Rightarrow> bool" where
  "label_ok l \<longleftrightarrow> utf8_valid (fst l) \<and> utf8_valid (snd l)"

definition put_label :: "rust_string \<times> rust_string \<Rightarrow> bytes" where
  "put_label l = put_bytes (fst l) @ put_bytes (snd l)"

lemma put_labels_map: "put_labels labels = put_uvarint (of_nat (length labels)) @ concat (map put_label labels)"
  by (auto simp: put_labels_def put_label_def intro!: arg_cong [of _ _ concat])

interpretation label_bytes: cursor_codec put_label dec_label label_ok
proof
  fix x pre post
  assume x: "label_ok x" and l: "length (pre @ put_label x @ post) < usize_bound"
  have "dec_string (pre @ put_bytes (fst x) @ put_bytes (snd x) @ post) (length pre) = Inr (fst x, length pre + length (put_bytes (fst x)))"
    using string_bytes.dec_enc [where x = "fst x" and pre = pre and post = "put_bytes (snd x) @ post"] x l by (simp add: label_ok_def put_label_def)
  moreover have "dec_string (pre @ put_bytes (fst x) @ put_bytes (snd x) @ post) (length pre + length (put_bytes (fst x))) =
      Inr (snd x, length pre + length (put_bytes (fst x)) + length (put_bytes (snd x)))"
    using string_bytes.dec_enc [where x = "snd x" and pre = "pre @ put_bytes (fst x)" and post = post] x l by (simp add: label_ok_def put_label_def)
  ultimately show "dec_label (pre @ put_label x @ post) (length pre) = Inr (x, length pre + length (put_label x))"
    by (simp add: dec_label_def put_label_def)
qed (simp add: put_label_def put_bytes_def put_uvarint_nonempty)

definition labels_ok :: "labels \<Rightarrow> bool" where
  "labels_ok labels \<longleftrightarrow> (\<forall>l \<in> set labels. label_ok l)"

text \<open>A count followed by that many encoded items.\<close>

lemma dec_vec_enc:
  assumes "cursor_codec enc dec ok" "\<forall>x \<in> set xs. ok x"
    "length (pre @ put_uvarint (of_nat (length xs)) @ concat (map enc xs)) < 4294967296" "sz \<le> 48"
  shows "dec_vec sz dec (pre @ put_uvarint (of_nat (length xs)) @ concat (map enc xs)) (length pre)
    = Some (Inr (xs, length (pre @ put_uvarint (of_nat (length xs)) @ concat (map enc xs))))"
proof -
  let ?n = "put_uvarint (of_nat (length xs))"
  have v: "cursor_view enc dec ok (\<lambda>x. x)" using assms(1) by (simp add: cursor_codec_def)
  have "length xs \<le> length (concat (map enc xs))" by (rule cursor_view.length_le_concat_enc [OF v assms(2)])
  then have few: "length xs < 4294967296" using assms(3) by simp
  then have l: "unat (of_nat (length xs) :: u64) = length xs" by (intro unat_of_nat_u64) simp
  have "length xs * sz \<le> 4294967296 * 48" using few assms(4) by (intro mult_le_mono) simp_all
  moreover have "dec_uvarint (pre @ ?n @ concat (map enc xs)) (length pre) = Inr (of_nat (length xs), length pre + length ?n)"
    using uvarint_bytes.dec_enc [where x = "of_nat (length xs)" and pre = pre and post = "concat (map enc xs)"] assms(3) by simp
  moreover have "dec_times dec (length xs) (pre @ ?n @ concat (map enc xs)) (length pre + length ?n) =
      Inr (map (\<lambda>x. x) xs, length pre + length ?n + length (concat (map enc xs)))"
    by (rule cursor_view.dec_times_enc [OF v assms(2), where pre = "pre @ ?n" and post = "[]"]) (use assms(3) in simp_all)
  ultimately show ?thesis by (simp add: dec_vec_def l)
qed

interpretation sample_bytes: cursor_codec put_sample dec_sample "\<lambda>_. True"
proof
  fix x :: "u64 \<times> i64 \<times> u64" and pre post
  assume l: "length (pre @ put_sample x @ post) < usize_bound"
  obtain sid ts v where x: "x = (sid, ts, v)" by (cases x)
  let ?a = "put_uvarint sid" and ?b = "put_varint ts" and ?buf = "pre @ put_uvarint sid @ put_varint ts @ le_bytes 8 v @ post"
  have len: "length ?buf < usize_bound" using l by (simp add: put_sample_def x)
  have "dec_uvarint ?buf (length pre) = Inr (sid, length pre + length ?a)"
    using uvarint_bytes.dec_enc [where x = sid and pre = pre and post = "?b @ le_bytes 8 v @ post"] len by simp
  moreover have "dec_varint ?buf (length pre + length ?a) = Inr (ts, length pre + length ?a + length ?b)"
    using varint_bytes.dec_enc [where x = ts and pre = "pre @ ?a" and post = "le_bytes 8 v @ post"] len by simp
  moreover have "dec_u64_le ?buf (length pre + length ?a + length ?b) = Inr (v, length pre + length ?a + length ?b + 8)"
    using u64_bytes.dec_enc [where x = v and pre = "pre @ ?a @ ?b" and post = post] len by (simp add: add.assoc)
  ultimately show "dec_sample (pre @ put_sample x @ post) (length pre) = Inr (x, length pre + length (put_sample x))"
    by (simp add: dec_sample_def put_sample_def x)
qed (simp add: put_sample_def put_uvarint_nonempty split: prod.splits)

text \<open>A record that fits in memory decodes to itself.\<close>

definition record_ok :: "ts_record \<Rightarrow> bool" where
  "record_ok r \<longleftrightarrow> length (record_encode r) < 4294967296 \<and> (case r of Series sid labels \<Rightarrow> labels_ok labels | Samples _ \<Rightarrow> True)"

lemma record_decode_encode:
  assumes "record_ok r"
  shows "record_decode (record_encode r) = Some (Inr r)"
proof (cases r)
  case (Series sid labels)
  let ?a = "put_uvarint sid" and ?buf = "REC_SERIES # put_uvarint sid @ put_labels labels"
  have l: "length ?buf < 4294967296" "labels_ok labels" using assms Series by (simp_all add: record_ok_def record_encode_def)
  have "dec_uvarint ?buf 1 = Inr (sid, 1 + length ?a)"
    using uvarint_bytes.dec_enc [where x = sid and pre = "[REC_SERIES]" and post = "put_labels labels"] l by simp
  moreover have "dec_labels ?buf (1 + length ?a) = Some (Inr (labels, length ?buf))"
    using dec_vec_enc [OF label_bytes.cursor_codec_axioms, where xs = labels and pre = "REC_SERIES # ?a" and sz = 48] l
    by (simp add: dec_labels_def put_labels_map labels_ok_def)
  ultimately show ?thesis using Series by (simp add: record_decode_def record_encode_def dec_u8_def)
next
  case (Samples ss)
  let ?buf = "REC_SAMPLES # put_uvarint (of_nat (length ss)) @ concat (map put_sample ss)"
  have "length ?buf < 4294967296" using assms Samples by (simp add: record_ok_def record_encode_def)
  then have "dec_vec 24 dec_sample ?buf 1 = Some (Inr (ss, length ?buf))"
    using dec_vec_enc [OF sample_bytes.cursor_codec_axioms, where xs = ss and pre = "[REC_SAMPLES]" and sz = 24] by simp
  then show ?thesis using Samples
    by (simp add: record_decode_def record_encode_def dec_u8_def REC_SERIES_def REC_SAMPLES_def)
qed

section \<open>The table-driven checksum is the bitwise one\<close>

lemma table_step_eq: "table_step = crc_bit"
proof
  fix c :: u32
  have "c AND 1 = 1 \<longleftrightarrow> bit c 0" using and_1_bit [of 0 c] by simp
  then show "table_step c = crc_bit c" by (simp add: table_step_def crc_bit_alt crc_poly_def xor.commute)
qed

lemma crc_bit_xor: "crc_bit (a XOR b) = crc_bit a XOR crc_bit b"
proof -
  have "bit (a XOR b) 0 \<longleftrightarrow> bit a 0 \<noteq> bit b 0" by (simp add: bit_xor_iff)
  moreover have "drop_bit 1 (a XOR b) = drop_bit 1 a XOR drop_bit 1 b" by (rule drop_bit_xor)
  ultimately show ?thesis by (auto simp: crc_bit_alt xor.assoc xor.commute xor.left_commute)
qed

lemma crc_bits_xor: "(crc_bit ^^ n) (a XOR b) = (crc_bit ^^ n) a XOR (crc_bit ^^ n) b"
  by (induction n) (simp_all add: crc_bit_xor)

lemma crc_bits_shift: "take_bit n y = 0 \<Longrightarrow> (crc_bit ^^ n) y = drop_bit n y"
proof (induction n)
  case (Suc n)
  have low: "\<not> bit y i" if "i < Suc n" for i
  proof -
    have "\<not> bit (take_bit (Suc n) y) i" using Suc.prems by simp
    then show ?thesis using that by (simp add: bit_take_bit_iff)
  qed
  have "take_bit n y = 0" by (rule bit_word_eqI) (use low in \<open>auto simp: bit_take_bit_iff\<close>)
  moreover have "\<not> bit (drop_bit n y) 0" using low [of n] by (simp add: bit_drop_bit_eq)
  ultimately show ?case using Suc.IH by (simp add: crc_bit_alt)
qed simp

lemma table_entry:
  fixes x :: u32
  shows "crc_table ! unat (x AND 0xff) = (crc_bit ^^ 8) (x AND 0xff)"
proof -
  have m: "(0xff :: u32) = mask 8" by (simp add: mask_eq_exp_minus_1)
  have "unat (x AND 0xff) < 256" unfolding m take_bit_eq_mask [symmetric] by (simp add: unat_take_bit_mod)
  then show ?thesis by (simp add: crc_table_def table_step_eq)
qed

lemma table_crc_step: "crc_table ! unat ((crc XOR ucast b) AND 0xff) XOR drop_bit 8 crc = crc_byte crc b"
proof -
  define x :: u32 where "x = crc XOR ucast b"
  define hi where "hi = push_bit 8 (drop_bit 8 x)"
  have m: "(0xff :: u32) = mask 8" by (simp add: mask_eq_exp_minus_1)
  have x: "x = (x AND 0xff) XOR hi"
    unfolding m hi_def
  proof (rule bit_word_eqI)
    fix n
    assume "n < LENGTH(32)"
    then show "bit x n \<longleftrightarrow> bit ((x AND mask 8) XOR push_bit 8 (drop_bit 8 x)) n"
      by (cases "n < 8") (auto simp: bit_xor_iff bit_and_iff bit_mask_iff bit_push_bit_iff bit_drop_bit_eq possible_bit_word)
  qed
  have "take_bit 8 hi = 0"
    unfolding hi_def by (rule bit_word_eqI) (auto simp: bit_take_bit_iff bit_push_bit_iff)
  then have "(crc_bit ^^ 8) hi = drop_bit 8 hi" by (rule crc_bits_shift)
  also have "drop_bit 8 hi = drop_bit 8 crc"
    unfolding hi_def x_def
    by (rule bit_word_eqI) (auto simp: bit_drop_bit_eq bit_push_bit_iff bit_xor_iff bit_unsigned_iff possible_bit_word dest: bit_imp_le_length)
  finally have h: "(crc_bit ^^ 8) hi = drop_bit 8 crc" .
  have "(crc_bit ^^ 8) x = (crc_bit ^^ 8) (x AND 0xff) XOR (crc_bit ^^ 8) hi" using crc_bits_xor [of 8 "x AND 0xff" hi] x by simp
  then show ?thesis using h table_entry [of x] by (simp add: crc_byte_def flip: x_def)
qed

lemma table_crc32_eq: "table_crc32 data = crc32 data"
  by (simp add: table_crc32_def crc32_def table_crc_step)

end
