(* ===== verification/Ts_Wal.thy ===== *)
theory Ts_Wal
  imports Ts_Codec
begin

text \<open>
  The sample log of the time-series store (\<open>skaidb-tsdb/src/wal.rs\<close>): numbered segment files of
  framed records, the buffered writer of the active one, checkpoints and replay. The directory is the
  map from segment numbers to file contents; the bytes in the writer's buffer reach the file at a sync.
\<close>

section \<open>Model\<close>

definition SEGMENT_MAX_BYTES :: u64 where
  "SEGMENT_MAX_BYTES = 64 * 1024 * 1024"

record ts_wal =
  tw_segs :: "(u64, bytes) btree"
  tw_buf :: bytes
  tw_seq :: u64
  tw_seg_bytes :: u64

definition create_segment :: "u64 \<Rightarrow> (u64, bytes) btree \<Rightarrow> tsdb_error + (u64, bytes) btree" where
  "create_segment seq segs =
     (if seq \<in> fst ` set segs then Inl (TsIo ''AlreadyExists'') else Inr (bt_insert seq [] segs))"

definition tw_open :: "(u64, bytes) btree \<Rightarrow> tsdb_error + ts_wal" where
  "tw_open segs =
     (let seq = (if segs = [] then 1 else fst (last segs) + 1)
      in rbind (create_segment seq segs) (\<lambda>segs. Inr \<lparr>tw_segs = segs, tw_buf = [], tw_seq = seq, tw_seg_bytes = 0\<rparr>))"

definition tw_sync :: "ts_wal \<Rightarrow> ts_wal" where
  "tw_sync w =
     w\<lparr>tw_segs := bt_insert (tw_seq w) (the (map_of (tw_segs w) (tw_seq w)) @ tw_buf w) (tw_segs w), tw_buf := []\<rparr>"

definition tw_roll :: "ts_wal \<Rightarrow> tsdb_error + ts_wal" where
  "tw_roll w =
     (let w = tw_sync w;
          seq = tw_seq w + 1
      in rbind (create_segment seq (tw_segs w)) (\<lambda>segs. Inr (w\<lparr>tw_segs := segs, tw_seq := seq, tw_seg_bytes := 0\<rparr>)))"

definition tw_append :: "ts_record \<Rightarrow> ts_wal \<Rightarrow> tsdb_error + ts_wal" where
  "tw_append r w =
     (let payload = record_encode r;
          w = w\<lparr>tw_buf := tw_buf w @ le_bytes 4 (of_nat (length payload) :: u32) @ le_bytes 4 (table_crc32 payload) @ payload,
                tw_seg_bytes := tw_seg_bytes w + of_nat (8 + length payload)\<rparr>
      in if tw_seg_bytes w \<ge> SEGMENT_MAX_BYTES then tw_roll w else Inr w)"

definition begin_checkpoint :: "ts_wal \<Rightarrow> tsdb_error + u64 \<times> ts_wal" where
  "begin_checkpoint w = rbind (tw_roll w) (\<lambda>w. Inr (tw_seq w, w))"

definition truncate_before :: "u64 \<Rightarrow> ts_wal \<Rightarrow> ts_wal" where
  "truncate_before seq w = w\<lparr>tw_segs := filter (\<lambda>s. \<not> fst s < seq) (tw_segs w)\<rparr>"

text \<open>
  The records of one segment, and whether its end was reached without a torn or damaged record;
  \<open>None\<close> when the decoder panics.
\<close>

function replay_segment :: "bytes \<Rightarrow> (ts_record list \<times> bool) option" where
  "replay_segment rest =
     (if length rest < 8 then Some ([], True)
      else let len = unat (from_le_bytes (take 4 rest) :: u32);
               crc = from_le_bytes (take 4 (drop 4 rest)) :: u32
      in if length rest < 8 + len then Some ([], False)
      else let payload = take len (drop 8 rest)
      in if table_crc32 payload \<noteq> crc then Some ([], False)
      else (case record_decode payload of
              None \<Rightarrow> None
            | Some (Inl _) \<Rightarrow> Some ([], False)
            | Some (Inr r) \<Rightarrow> map_option (map_prod ((#) r) id) (replay_segment (drop (8 + len) rest))))"
  by pat_completeness auto
termination
  by (relation "measure length") auto

declare replay_segment.simps [simp del]

fun tw_replay :: "(u64, bytes) btree \<Rightarrow> ts_record list option" where
  "tw_replay [] = Some []"
| "tw_replay ((seq, data) # segs) =
     (case replay_segment data of
        None \<Rightarrow> None
      | Some (rs, intact) \<Rightarrow> if intact then map_option ((@) rs) (tw_replay segs) else Some rs)"

section \<open>Frames\<close>

definition framed :: "ts_record \<Rightarrow> bytes" where
  "framed r =
     le_bytes 4 (of_nat (length (record_encode r)) :: u32) @ le_bytes 4 (table_crc32 (record_encode r)) @ record_encode r"

definition frames :: "ts_record list \<Rightarrow> bytes" where
  "frames rs = concat (map framed rs)"

lemma frames_simps [simp]: "frames [] = []" "frames (r # rs) = framed r @ frames rs" "frames (a @ b) = frames a @ frames b"
  by (simp_all add: frames_def)

lemma length_framed [simp]: "length (framed r) = 8 + length (record_encode r)"
  by (simp add: framed_def)

lemma replay_segment_framed:
  assumes "record_ok r"
  shows "replay_segment (framed r @ rest) = map_option (map_prod ((#) r) id) (replay_segment rest)"
proof -
  let ?p = "record_encode r"
  have l: "unat (of_nat (length ?p) :: u32) = length ?p" using assms by (intro unat_of_nat_u32) (simp add: record_ok_def)
  have "take 4 (framed r @ rest) = le_bytes 4 (of_nat (length ?p) :: u32)"
    "take 4 (drop 4 (framed r @ rest)) = le_bytes 4 (table_crc32 ?p)"
    "take (length ?p) (drop 8 (framed r @ rest)) = ?p" "drop (8 + length ?p) (framed r @ rest) = rest"
    by (simp_all add: framed_def)
  then show ?thesis
    using record_decode_encode [OF assms] l by (simp add: replay_segment.simps [of "framed r @ rest"] Let_def)
qed

lemma replay_frames:
  "\<forall>r \<in> set rs. record_ok r \<Longrightarrow>
    replay_segment (frames rs @ rest) = map_option (map_prod ((@) rs) id) (replay_segment rest)"
proof (induction rs)
  case Nil
  then show ?case by (cases "replay_segment rest") auto
next
  case (Cons r rs)
  then show ?case by (cases "replay_segment rest") (auto simp: replay_segment_framed)
qed

lemma replay_short: "length rest < 8 \<Longrightarrow> replay_segment rest = Some ([], True)"
  by (simp add: replay_segment.simps)

text \<open>A frame cut anywhere yields nothing.\<close>

lemma replay_cut_frame:
  assumes "record_ok r" "n < length (framed r)"
  shows "replay_segment (take n (framed r)) = Some ([], n < 8)"
proof (cases "n < 8")
  case True
  then show ?thesis by (intro replay_short [THEN trans]) simp_all
next
  case False
  let ?p = "record_encode r"
  have l: "unat (of_nat (length ?p) :: u32) = length ?p" using assms by (intro unat_of_nat_u32) (simp add: record_ok_def)
  have "take 4 (take n (framed r)) = le_bytes 4 (of_nat (length ?p) :: u32)" using False by (simp add: framed_def min_def)
  then show ?thesis
    using assms(2) l False by (simp add: replay_segment.simps [of "take n (framed r)"] Let_def)
qed

text \<open>How many records of the list have all their bytes below \<open>n\<close>.\<close>

fun whole_frames :: "nat \<Rightarrow> ts_record list \<Rightarrow> nat" where
  "whole_frames n [] = 0"
| "whole_frames n (r # rs) = (if length (framed r) \<le> n then Suc (whole_frames (n - length (framed r)) rs) else 0)"

lemma replay_cut_frames:
  "\<forall>r \<in> set rs. record_ok r \<Longrightarrow> \<exists>i. replay_segment (take n (frames rs)) = Some (take (whole_frames n rs) rs, i)"
proof (induction rs arbitrary: n)
  case Nil
  then show ?case by (auto simp: replay_short)
next
  case (Cons r rs)
  show ?case
  proof (cases "length (framed r) \<le> n")
    case True
    then have "take n (frames (r # rs)) = framed r @ take (n - length (framed r)) (frames rs)" by simp
    moreover obtain i where "replay_segment (take (n - length (framed r)) (frames rs)) =
        Some (take (whole_frames (n - length (framed r)) rs) rs, i)" using Cons by fastforce
    ultimately show ?thesis using Cons.prems True by (simp add: replay_segment_framed)
  next
    case False
    then have "take n (frames (r # rs)) = take n (framed r)" by simp
    then show ?thesis using Cons.prems False replay_cut_frame [of r n] by simp
  qed
qed

section \<open>The log of a run\<close>

datatype ts_wal_event =
    TwAppend ts_record
  | TwSync
  | TwCheckpoint
  | TwTruncate

fun tw_step :: "ts_wal_event \<Rightarrow> ts_wal \<times> u64 \<Rightarrow> tsdb_error + ts_wal \<times> u64" where
  "tw_step (TwAppend r) (w, keep) = rbind (tw_append r w) (\<lambda>w. Inr (w, keep))"
| "tw_step TwSync (w, keep) = Inr (tw_sync w, keep)"
| "tw_step TwCheckpoint (w, keep) = rbind (begin_checkpoint w) (\<lambda>(keep, w). Inr (w, keep))"
| "tw_step TwTruncate (w, keep) = Inr (truncate_before keep w, keep)"

fun tw_run :: "ts_wal_event list \<Rightarrow> ts_wal \<times> u64 \<Rightarrow> tsdb_error + ts_wal \<times> u64" where
  "tw_run [] s = Inr s"
| "tw_run (e # es) s = rbind (tw_step e s) (tw_run es)"

text \<open>The records before and since the last checkpoint began.\<close>

fun tw_log :: "ts_wal_event \<Rightarrow> ts_record list \<times> ts_record list \<Rightarrow> ts_record list \<times> ts_record list" where
  "tw_log (TwAppend r) (before, since) = (before, since @ [r])"
| "tw_log TwSync l = l"
| "tw_log TwCheckpoint (before, since) = (before @ since, [])"
| "tw_log TwTruncate (before, since) = ([], since)"

fun tw_event_ok :: "ts_wal_event \<Rightarrow> bool" where
  "tw_event_ok (TwAppend r) = record_ok r"
| "tw_event_ok _ = True"

definition seg_has :: "u64 \<times> bytes \<Rightarrow> ts_record list \<Rightarrow> bool" where
  "seg_has s rs \<longleftrightarrow> snd s = frames rs \<and> (\<forall>r \<in> set rs. record_ok r)"

definition tw_parts :: "ts_wal \<Rightarrow> u64 \<Rightarrow> (u64, bytes) btree \<Rightarrow> (u64, bytes) btree \<Rightarrow> bytes \<Rightarrow> ts_record list list \<Rightarrow>
    ts_record list list \<Rightarrow> ts_record list \<Rightarrow> bool" where
  "tw_parts w keep old new act olds news rs \<longleftrightarrow>
     tw_segs w = old @ new @ [(tw_seq w, act)] \<and> bt_ok (old @ new @ [(tw_seq w, act)]) \<and> list_all2 seg_has old olds \<and> list_all2 seg_has new news \<and>
     act @ tw_buf w = frames rs \<and> (\<forall>r \<in> set rs. record_ok r) \<and> (\<forall>s \<in> set old. fst s < keep) \<and> (\<forall>s \<in> set new. keep \<le> fst s) \<and>
     keep \<le> tw_seq w"

definition tw_inv :: "ts_wal \<times> u64 \<Rightarrow> ts_record list \<times> ts_record list \<Rightarrow> bool" where
  "tw_inv s l \<longleftrightarrow> (\<exists>old new act olds news rs. tw_parts (fst s) (snd s) old new act olds news rs \<and>
     l = (concat olds, concat news @ rs))"

lemma tw_invI:
  "tw_parts w keep old new act olds news rs \<Longrightarrow> before = concat olds \<Longrightarrow> since = concat news @ rs \<Longrightarrow> tw_inv (w, keep) (before, since)"
  unfolding tw_inv_def fst_conv snd_conv by blast

lemma replay_intact: "list_all2 seg_has segs rss \<Longrightarrow> tw_replay (segs @ rest) = map_option ((@) (concat rss)) (tw_replay rest)"
proof (induction rule: list_all2_induct)
  case Nil
  then show ?case by (cases "tw_replay rest") auto
next
  case (Cons s segs rs rss)
  then have "replay_segment (snd s) = Some (rs, True)" using replay_frames [of rs "[]"] by (simp add: seg_has_def replay_short)
  then show ?case using Cons by (cases s) (simp add: option.map_comp comp_def)
qed

lemma bt_insert_update: "\<forall>x \<in> set xs. fst x < k \<Longrightarrow> bt_insert k v (xs @ [(k, u)]) = xs @ [(k, v)]"
  by (induction xs) auto

lemma bt_insert_end: "\<forall>x \<in> set xs. fst x < k \<Longrightarrow> bt_insert k v xs = xs @ [(k, v)]"
  by (induction xs) auto

lemma tw_parts_keys:
  assumes "tw_parts w keep old new act olds news rs"
  shows "\<forall>s \<in> set (old @ new). fst s < tw_seq w" "map_of (tw_segs w) (tw_seq w) = Some act"
proof -
  have ok: "bt_ok (old @ new @ [(tw_seq w, act)])" using assms unfolding tw_parts_def by metis
  then show "\<forall>s \<in> set (old @ new). fst s < tw_seq w" by (auto simp: sorted_wrt_append)
  show "map_of (tw_segs w) (tw_seq w) = Some act"
    using assms ok bt_ok_map_of_iff [OF ok] by (simp add: tw_parts_def)
qed

lemma tw_parts_sync:
  assumes "tw_parts w keep old new act olds news rs"
  shows "tw_parts (tw_sync w) keep old new (frames rs) olds news rs" "tw_seq (tw_sync w) = tw_seq w" "tw_buf (tw_sync w) = []"
proof -
  note k = tw_parts_keys [OF assms]
  have "tw_segs (tw_sync w) = (old @ new) @ [(tw_seq w, frames rs)]"
    using assms k bt_insert_update [OF k(1), of "frames rs" act] by (simp add: tw_sync_def tw_parts_def)
  moreover have "bt_ok ((old @ new) @ [(tw_seq w, frames rs)])"
    using assms by (auto simp: tw_parts_def bt_ok_append_iff)
  ultimately show "tw_parts (tw_sync w) keep old new (frames rs) olds news rs"
    using assms by (simp add: tw_parts_def) (simp add: tw_sync_def)
qed (simp_all add: tw_sync_def)

lemma u64_Suc: "n \<noteq> - 1 \<Longrightarrow> unat (n + 1 :: u64) = Suc (unat n)"
  using unatSuc [of n] by (simp add: add.commute add_eq_0_iff)

lemma tw_parts_roll:
  assumes "tw_parts w keep old new act olds news rs" "tw_seq w \<noteq> - 1"
  shows "\<exists>w'. tw_roll w = Inr w' \<and> tw_seq w' = tw_seq w + 1 \<and>
    tw_parts w' keep old (new @ [(tw_seq w, frames rs)]) [] olds (news @ [rs]) [] \<and>
    tw_parts w' (tw_seq w') (old @ new @ [(tw_seq w, frames rs)]) [] [] (olds @ news @ [rs]) [] []"
proof -
  note p = tw_parts_sync(1) [OF assms(1)] and q = tw_parts_sync(2,3) [OF assms(1)]
  note k = tw_parts_keys(1) [OF p]
  have less: "tw_seq w < tw_seq w + 1" using u64_Suc [OF assms(2)] by (simp add: word_less_nat_alt)
  let ?segs = "tw_segs (tw_sync w)"
  have segs: "?segs = old @ new @ [(tw_seq w, frames rs)]" using p q by (simp add: tw_parts_def)
  have "\<forall>s \<in> set (old @ new). fst s < tw_seq w + 1"
  proof
    fix s
    assume "s \<in> set (old @ new)"
    then have "fst s < tw_seq w" using k unfolding q(1) by blast
    then show "fst s < tw_seq w + 1" using less by (rule less_trans)
  qed
  then have all: "\<forall>s \<in> set ?segs. fst s < tw_seq w + 1" using less unfolding segs by auto
  have "tw_seq w + 1 \<notin> fst ` set ?segs" using all by auto
  then have r: "create_segment (tw_seq w + 1) ?segs = Inr (?segs @ [(tw_seq w + 1, [])])"
    using bt_insert_end [OF all] by (simp add: create_segment_def)
  let ?w = "tw_sync w\<lparr>tw_segs := ?segs @ [(tw_seq w + 1, [])], tw_seq := tw_seq w + 1, tw_seg_bytes := 0\<rparr>"
  have "tw_roll w = Inr ?w" using r q(1) by (simp add: tw_roll_def Let_def)
  moreover have "bt_ok ?segs" using p unfolding tw_parts_def by metis
  then have ok: "bt_ok (?segs @ [(tw_seq w + 1, [])])" using all by (auto simp: sorted_wrt_append)
  have has: "list_all2 seg_has [(tw_seq w, frames rs)] [rs]" using p by (simp add: seg_has_def tw_parts_def)
  have h: "list_all2 seg_has old olds" "list_all2 seg_has new news" "tw_buf (tw_sync w) = []" "\<forall>s \<in> set old. fst s < keep"
    "\<forall>s \<in> set new. keep \<le> fst s" "keep \<le> tw_seq w"
    using p q unfolding tw_parts_def by simp_all
  have "keep \<le> tw_seq w + 1" using h(6) less by simp
  then have "tw_parts ?w keep old (new @ [(tw_seq w, frames rs)]) [] olds (news @ [rs]) []"
    using ok has h unfolding segs by (simp add: tw_parts_def list_all2_appendI)
  moreover have "list_all2 seg_has (old @ new @ [(tw_seq w, frames rs)]) (olds @ news @ [rs])"
    using h(1,2) has by (intro list_all2_appendI)
  then have "tw_parts ?w (tw_seq ?w) (old @ new @ [(tw_seq w, frames rs)]) [] [] (olds @ news @ [rs]) [] []"
    using ok all h(3) unfolding segs by (simp add: tw_parts_def)
  ultimately show ?thesis by auto
qed

lemma tw_inv_replay:
  assumes "tw_inv s l"
  shows "tw_replay (tw_segs (tw_sync (fst s))) = Some (fst l @ snd l)"
    "\<exists>pre rs. map_of (tw_segs (tw_sync (fst s))) (tw_seq (fst s)) = Some (frames rs) \<and> fst l @ snd l = pre @ rs \<and>
       (\<forall>n. tw_replay (bt_insert (tw_seq (fst s)) (take n (frames rs)) (tw_segs (fst s))) = Some (pre @ take (whole_frames n rs) rs))"
proof -
  obtain old new act olds news rs where p: "tw_parts (fst s) (snd s) old new act olds news rs" "l = (concat olds, concat news @ rs)"
    using assms unfolding tw_inv_def by blast
  note q = tw_parts_sync [OF p(1)]
  have segs: "tw_segs (tw_sync (fst s)) = old @ new @ [(tw_seq (fst s), frames rs)]" and ok: "\<forall>r \<in> set rs. record_ok r"
    and h: "list_all2 seg_has old olds" "list_all2 seg_has new news"
    and seg: "tw_segs (fst s) = (old @ new) @ [(tw_seq (fst s), act)]"
    using q(1,2) p(1) by (simp_all add: tw_parts_def)
  have last: "tw_replay (old @ new @ [(sq, f)]) = Some ((concat olds @ concat news) @ xs)" if "replay_segment f = Some (xs, i)" for sq f xs i
    using replay_intact [OF h(1), of "new @ [(sq, f)]"] replay_intact [OF h(2), of "[(sq, f)]"] that by simp
  have "replay_segment (frames rs) = Some (rs, True)" using replay_frames [OF ok, of "[]"] by (simp add: replay_short)
  from last [OF this] show "tw_replay (tw_segs (tw_sync (fst s))) = Some (fst l @ snd l)" unfolding segs p(2) by simp
  have m: "map_of (tw_segs (tw_sync (fst s))) (tw_seq (fst s)) = Some (frames rs)" using tw_parts_keys(2) [OF q(1)] q(2) by simp
  have "tw_replay (bt_insert (tw_seq (fst s)) (take n (frames rs)) (tw_segs (fst s))) =
      Some ((concat olds @ concat news) @ take (whole_frames n rs) rs)" for n
  proof -
    have "bt_insert (tw_seq (fst s)) (take n (frames rs)) (tw_segs (fst s)) = old @ new @ [(tw_seq (fst s), take n (frames rs))]"
      using bt_insert_update [OF tw_parts_keys(1) [OF p(1)]] unfolding seg by simp
    then show ?thesis using replay_cut_frames [OF ok, of n] last by auto
  qed
  then show "\<exists>pre rs. map_of (tw_segs (tw_sync (fst s))) (tw_seq (fst s)) = Some (frames rs) \<and> fst l @ snd l = pre @ rs \<and>
       (\<forall>n. tw_replay (bt_insert (tw_seq (fst s)) (take n (frames rs)) (tw_segs (fst s))) = Some (pre @ take (whole_frames n rs) rs))"
    using m p(2) by (intro exI [of _ "concat olds @ concat news"] exI [of _ rs]) simp
qed

lemma tw_inv_append:
  assumes "tw_parts w keep old new act olds news rs" "record_ok r" "tw_seq w \<noteq> - 1"
  shows "\<exists>w'. tw_append r w = Inr w' \<and> unat (tw_seq w') \<le> Suc (unat (tw_seq w)) \<and> tw_inv (w', keep) (concat olds, concat news @ rs @ [r])"
proof -
  define w1 where "w1 = w\<lparr>tw_buf := tw_buf w @ framed r, tw_seg_bytes := tw_seg_bytes w + of_nat (length (framed r))\<rparr>"
  have e: "tw_append r w = (if tw_seg_bytes w1 \<ge> SEGMENT_MAX_BYTES then tw_roll w1 else Inr w1)"
    by (simp add: tw_append_def w1_def framed_def Let_def)
  have p: "tw_parts w1 keep old new act olds news (rs @ [r])" using assms(1,2) by (simp add: tw_parts_def w1_def)
  have sq: "tw_seq w1 = tw_seq w" by (simp add: w1_def)
  show ?thesis
  proof (cases "tw_seg_bytes w1 \<ge> SEGMENT_MAX_BYTES")
    case True
    obtain w' where w': "tw_roll w1 = Inr w'" "tw_seq w' = tw_seq w + 1"
      "tw_parts w' keep old (new @ [(tw_seq w1, frames (rs @ [r]))]) [] olds (news @ [rs @ [r]]) []"
      using tw_parts_roll [OF p] assms(3) sq by auto
    have "tw_inv (w', keep) (concat olds, concat news @ rs @ [r])"
      by (rule tw_invI [OF w'(3)]) simp_all
    then show ?thesis using e True w'(1,2) u64_Suc [OF assms(3)] by simp
  next
    case False
    have "tw_inv (w1, keep) (concat olds, concat news @ rs @ [r])"
      by (rule tw_invI [OF p]) simp_all
    then show ?thesis using e False sq by simp
  qed
qed

lemma tw_step_inv:
  assumes "tw_inv s l" "tw_event_ok e" "tw_seq (fst s) \<noteq> - 1"
  shows "\<exists>s'. tw_step e s = Inr s' \<and> tw_inv s' (tw_log e l) \<and> unat (tw_seq (fst s')) \<le> Suc (unat (tw_seq (fst s)))"
proof -
  obtain w keep where s: "s = (w, keep)" by (cases s)
  obtain old new act olds news rs where p: "tw_parts w keep old new act olds news rs" "l = (concat olds, concat news @ rs)"
    using assms(1) unfolding tw_inv_def s by auto
  show ?thesis
  proof (cases e)
    case (TwAppend r)
    then obtain w' where "tw_append r w = Inr w'" "unat (tw_seq w') \<le> Suc (unat (tw_seq w))"
      "tw_inv (w', keep) (concat olds, concat news @ rs @ [r])"
      using tw_inv_append [OF p(1), of r] assms(2,3) s by auto
    then show ?thesis using TwAppend p(2) s by simp
  next
    case TwSync
    have "tw_inv (tw_sync w, keep) l" unfolding p(2) by (rule tw_invI [OF tw_parts_sync(1) [OF p(1)]]) simp_all
    then show ?thesis using TwSync s tw_parts_sync(2) [OF p(1)] by auto
  next
    case TwCheckpoint
    obtain w' where w': "tw_roll w = Inr w'" "tw_seq w' = tw_seq w + 1"
      "tw_parts w' (tw_seq w') (old @ new @ [(tw_seq w, frames rs)]) [] [] (olds @ news @ [rs]) [] []"
      using tw_parts_roll [OF p(1)] assms(3) s by auto
    have "tw_inv (w', tw_seq w') (concat olds @ concat news @ rs, [])"
      by (rule tw_invI [OF w'(3)]) simp_all
    then show ?thesis using TwCheckpoint w'(1,2) p(2) s u64_Suc assms(3) by (simp add: begin_checkpoint_def)
  next
    case TwTruncate
    have keys: "\<forall>s \<in> set old. fst s < keep" "\<forall>s \<in> set new. \<not> fst s < keep" "\<not> tw_seq w < keep"
      using p(1) by (auto simp: tw_parts_def not_less)
    have segs: "tw_segs (truncate_before keep w) = new @ [(tw_seq w, act)]"
      using p(1) keys by (simp add: truncate_before_def tw_parts_def)
    have "bt_ok (new @ [(tw_seq w, act)])" using p(1) by (auto simp: tw_parts_def sorted_wrt_append)
    then have "tw_parts (truncate_before keep w) keep [] new act [] news rs"
      using p(1) segs by (simp add: tw_parts_def) (simp add: truncate_before_def)
    then have "tw_inv (truncate_before keep w, keep) ([], concat news @ rs)" by (rule tw_invI) simp_all
    then show ?thesis using TwTruncate s p(2) by (simp add: truncate_before_def)
  qed
qed

lemma u64_room: "unat n + k < 18446744073709551615 \<Longrightarrow> n \<noteq> (- 1 :: u64)"
  by (auto simp: unsigned_minus_1_eq_mask mask_eq_exp_minus_1)

lemma tw_run_inv:
  assumes "tw_inv s l" "\<forall>e \<in> set es. tw_event_ok e" "unat (tw_seq (fst s)) + length es < 18446744073709551615"
  shows "\<exists>s'. tw_run es s = Inr s' \<and> tw_inv s' (fold tw_log es l)"
  using assms
proof (induction es arbitrary: s l)
  case (Cons e es)
  have "tw_seq (fst s) \<noteq> - 1" by (rule u64_room [OF Cons.prems(3)])
  then obtain s' where s': "tw_step e s = Inr s'" "tw_inv s' (tw_log e l)" "unat (tw_seq (fst s')) \<le> Suc (unat (tw_seq (fst s)))"
    using tw_step_inv [OF Cons.prems(1), of e] Cons.prems(2) by auto
  show ?case using Cons.IH [OF s'(2)] Cons.prems(2,3) s'(1,3) by simp
qed simp

definition last_seq :: "(u64, bytes) btree \<Rightarrow> u64" where
  "last_seq segs = (if segs = [] then 0 else fst (last segs))"

lemma bt_last_greatest: "bt_ok segs \<Longrightarrow> s \<in> set segs \<Longrightarrow> fst s \<le> last_seq segs"
  by (induction segs rule: rev_induct) (auto simp: last_seq_def sorted_wrt_append less_imp_le)

lemma tw_open_seq:
  assumes "bt_ok segs" "last_seq segs \<noteq> - 1"
  shows "tw_open segs = Inr \<lparr>tw_segs = segs @ [(last_seq segs + 1, [])], tw_buf = [], tw_seq = last_seq segs + 1, tw_seg_bytes = 0\<rparr>"
    "\<forall>s \<in> set segs. fst s < last_seq segs + 1"
proof -
  have less: "last_seq segs < last_seq segs + 1" using u64_Suc [OF assms(2)] by (simp add: word_less_nat_alt)
  show all: "\<forall>s \<in> set segs. fst s < last_seq segs + 1" using bt_last_greatest [OF assms(1)] less by (meson le_less_trans)
  have "last_seq segs + 1 \<notin> fst ` set segs" using all by auto
  moreover have "(if segs = [] then 1 else fst (last segs) + 1) = last_seq segs + 1" by (simp add: last_seq_def)
  ultimately show "tw_open segs = Inr \<lparr>tw_segs = segs @ [(last_seq segs + 1, [])], tw_buf = [], tw_seq = last_seq segs + 1, tw_seg_bytes = 0\<rparr>"
    using bt_insert_end [OF all] by (simp add: tw_open_def create_segment_def Let_def)
qed

lemma tw_open_inv:
  assumes "bt_ok segs" "list_all2 seg_has segs rss" "last_seq segs \<noteq> - 1"
  shows "\<exists>w. tw_open segs = Inr w \<and> tw_inv (w, 0) ([], concat rss) \<and> unat (tw_seq w) = Suc (unat (last_seq segs))"
proof -
  note o = tw_open_seq [OF assms(1,3)]
  have "bt_ok (segs @ [(last_seq segs + 1, [])])" using assms(1) o(2) by (auto simp: sorted_wrt_append)
  then have "tw_parts \<lparr>tw_segs = segs @ [(last_seq segs + 1, [])], tw_buf = [], tw_seq = last_seq segs + 1, tw_seg_bytes = 0\<rparr>
      0 [] segs [] [] rss []"
    using assms(2) by (simp add: tw_parts_def)
  from tw_invI [OF this refl refl] show ?thesis using o(1) u64_Suc [OF assms(3)] by simp
qed

section \<open>Properties\<close>

text \<open>
  C14: opening the sample log on a directory of intact segments and running any sequence of appends,
  syncs, checkpoints and truncations succeeds; after a sync the directory replays exactly the records
  before the last checkpoint that were not truncated, then those since. The active file holds the frames of
  the last of these records, and with it cut at any byte the replay returns all records before them and
  the ones whose frames lie below the cut. No replay panics.
\<close>

theorem ts_wal_recovers:
  assumes "bt_ok segs" and "list_all2 seg_has segs rss" and "\<forall>e \<in> set es. tw_event_ok e"
    and "unat (last_seq segs) + length es + 1 < 18446744073709551615"
  shows "\<exists>w keep recs pre rs. rbind (tw_open segs) (\<lambda>w. tw_run es (w, 0)) = Inr (w, keep) \<and>
    recs = fst (fold tw_log es ([], concat rss)) @ snd (fold tw_log es ([], concat rss)) \<and>
    tw_replay (tw_segs (tw_sync w)) = Some recs \<and>
    recs = pre @ rs \<and> map_of (tw_segs (tw_sync w)) (tw_seq w) = Some (frames rs) \<and>
    (\<forall>n. tw_replay (bt_insert (tw_seq w) (take n (frames rs)) (tw_segs w)) = Some (pre @ take (whole_frames n rs) rs))"
proof -
  have "last_seq segs \<noteq> - 1" using u64_room [of _ "length es + 1"] assms(4) by simp
  from tw_open_inv [OF assms(1,2) this] obtain w0 where w0: "tw_open segs = Inr w0" "tw_inv (w0, 0) ([], concat rss)"
    "unat (tw_seq w0) = Suc (unat (last_seq segs))" by blast
  obtain w keep where s: "tw_run es (w0, 0) = Inr (w, keep)" "tw_inv (w, keep) (fold tw_log es ([], concat rss))"
    using tw_run_inv [OF w0(2) assms(3)] w0(3) assms(4) by auto
  show ?thesis using tw_inv_replay [OF s(2)] w0(1) s(1) by auto
qed

definition ts_example :: "ts_record list" where
  "ts_example = [Series 0 [([104], [97])], Samples [(0, 3, 1), (0, 5, 2)]]"

lemma ts_example_bytes:
  "record_encode (Series 0 [([104], [97])]) = [1, 0, 1, 1, 104, 1, 97]"
  "length (record_encode (Samples [(0, 3, 1), (0, 5, 2)])) = 22"
  by (simp_all add: record_encode_def put_labels_def put_bytes_def put_sample_def put_varint_def put_uvarint.simps zigzag_def
      REC_SERIES_def Let_def)

lemma ts_example_ok: "\<forall>r \<in> set ts_example. record_ok r"
  by (simp add: ts_example_def record_ok_def ts_example_bytes labels_ok_def label_ok_def)

theorem ts_wal_recovers_witness:
  "\<exists>w keep. rbind (tw_open [(3, frames ts_example)])
      (\<lambda>w. tw_run [TwAppend (Samples []), TwCheckpoint, TwAppend (hd ts_example), TwSync, TwTruncate] (w, 0)) = Inr (w, keep) \<and>
     tw_replay (tw_segs (tw_sync w)) = Some [hd ts_example]"
proof -
  have "list_all2 seg_has [(3, frames ts_example)] [ts_example]" using ts_example_ok by (simp add: seg_has_def)
  moreover have "record_ok (Samples [])"
    by (simp add: record_ok_def record_encode_def put_uvarint.simps Let_def)
  moreover have "record_ok (hd ts_example)" using ts_example_ok by (simp add: ts_example_def)
  ultimately show ?thesis
    using ts_wal_recovers [of "[(3, frames ts_example)]" "[ts_example]"
        "[TwAppend (Samples []), TwCheckpoint, TwAppend (hd ts_example), TwSync, TwTruncate]"]
    by (simp add: last_seq_def) blast
qed

text \<open>The first segment of a directory while newer segments are written.\<close>

lemma bt_insert_greater: "fst x < k \<Longrightarrow> bt_insert k v (x # xs) = x # bt_insert k v xs"
  by simp

lemma tw_roll_first:
  assumes "tw_segs w = x # xs" "fst x < tw_seq w" "tw_seq w \<noteq> - 1" "tw_roll w = Inr w'"
  shows "\<exists>ys. tw_segs w' = x # ys" "fst x < tw_seq w'" "unat (tw_seq w') = Suc (unat (tw_seq w))"
proof -
  have less: "tw_seq w < tw_seq w + 1" using u64_Suc [OF assms(3)] by (simp add: word_less_nat_alt)
  have seq: "tw_seq w' = tw_seq w + 1"
    using assms(4) by (auto simp: tw_roll_def Let_def rbind_eq_Inr_iff tw_sync_def)
  show "fst x < tw_seq w'" unfolding seq using assms(2) less by (rule less_trans)
  then show "\<exists>ys. tw_segs w' = x # ys"
    using assms(1,2,4) by (auto simp: seq tw_roll_def Let_def rbind_eq_Inr_iff tw_sync_def create_segment_def split: if_splits)
  show "unat (tw_seq w') = Suc (unat (tw_seq w))" unfolding seq by (rule u64_Suc [OF assms(3)])
qed

lemma tw_step_first:
  assumes "tw_segs (fst s) = x # xs" "fst x < tw_seq (fst s)" "tw_seq (fst s) \<noteq> - 1" "e \<noteq> TwTruncate" "tw_step e s = Inr s'"
  shows "(\<exists>ys. tw_segs (fst s') = x # ys) \<and> fst x < tw_seq (fst s') \<and> unat (tw_seq (fst s')) \<le> Suc (unat (tw_seq (fst s)))"
proof -
  obtain w keep where s: "s = (w, keep)" by (cases s)
  show ?thesis
  proof (cases e)
    case (TwAppend r)
    then obtain w' where w': "tw_append r w = Inr w'" "s' = (w', keep)" using assms(5) s by (auto simp: rbind_eq_Inr_iff)
    let ?w = "w\<lparr>tw_buf := tw_buf w @ framed r, tw_seg_bytes := tw_seg_bytes w + of_nat (8 + length (record_encode r))\<rparr>"
    have "w' = ?w \<or> tw_roll ?w = Inr w'" using w'(1) by (auto simp: tw_append_def framed_def Let_def split: if_splits)
    then show ?thesis using tw_roll_first [of ?w x xs w'] assms(1-3) s w'(2) by auto
  next
    case TwSync
    then show ?thesis using assms s by (auto simp: tw_sync_def)
  next
    case TwCheckpoint
    then obtain w' where "tw_roll w = Inr w'" "s' = (w', tw_seq w')"
      using assms(5) s by (auto simp: rbind_eq_Inr_iff begin_checkpoint_def)
    then show ?thesis using tw_roll_first [of w x xs w'] assms(1-3) s by auto
  qed (use assms(4) in simp)
qed

lemma tw_run_first:
  assumes "tw_segs (fst s) = x # xs" "fst x < tw_seq (fst s)" "TwTruncate \<notin> set es" "tw_run es s = Inr s'"
    "unat (tw_seq (fst s)) + length es < 18446744073709551615"
  shows "\<exists>ys. tw_segs (tw_sync (fst s')) = x # ys"
  using assms
proof (induction es arbitrary: s xs)
  case Nil
  then show ?case by (auto simp: tw_sync_def)
next
  case (Cons e es)
  obtain s1 where s1: "tw_step e s = Inr s1" "tw_run es s1 = Inr s'" using Cons.prems(4) by (auto simp: rbind_eq_Inr_iff)
  have "e \<noteq> TwTruncate" using Cons.prems(3) by auto
  from tw_step_first [OF Cons.prems(1,2) u64_room [OF Cons.prems(5)] this s1(1)] obtain ys where
    "tw_segs (fst s1) = x # ys" "fst x < tw_seq (fst s1)" "unat (tw_seq (fst s1)) \<le> Suc (unat (tw_seq (fst s)))" by blast
  then show ?case using Cons.IH [OF _ _ _ s1(2)] Cons.prems(3,5) by simp
qed

text \<open>
  C36: when a crash left a torn record at the end of the log's first segment, every record that the
  reopened log then appends and syncs, in any number of segments and until a truncation, is missing from
  the next replay: it stops at the torn record and never reaches the later segments.
\<close>

theorem ts_wal_torn_segment_hides_later:
  assumes "\<forall>r \<in> set (rs @ [torn]). record_ok r" and "length (frames rs) + 8 \<le> n" and "n < length (frames (rs @ [torn]))"
    and "unat sq + length es + 1 < 18446744073709551615" and "TwTruncate \<notin> set es"
    and "rbind (tw_open [(sq, take n (frames (rs @ [torn])))]) (\<lambda>w. tw_run es (w, 0)) = Inr (w, keep)"
  shows "tw_replay (tw_segs (tw_sync w)) = Some rs"
proof -
  let ?x = "(sq, take n (frames (rs @ [torn])))"
  have sq: "last_seq [?x] = sq" "sq \<noteq> - 1" using u64_room [of sq "length es + 1"] assms(4) by (simp_all add: last_seq_def)
  have o: "tw_open [?x] = Inr \<lparr>tw_segs = [?x] @ [(sq + 1, [])], tw_buf = [], tw_seq = sq + 1, tw_seg_bytes = 0\<rparr>" "sq < sq + 1"
    using tw_open_seq [of "[?x]"] sq by simp_all
  have "\<exists>ys. tw_segs (tw_sync (fst (w, keep))) = ?x # ys"
    by (rule tw_run_first [OF _ _ assms(5)]) (use o u64_Suc [OF sq(2)] assms(4,6) in auto)
  then obtain ys where ys: "tw_segs (tw_sync w) = ?x # ys" by auto
  let ?m = "n - length (frames rs)"
  have "take n (frames (rs @ [torn])) = frames rs @ take ?m (framed torn)" using assms(2) by simp
  moreover have "replay_segment (take ?m (framed torn)) = Some ([], False)"
    using replay_cut_frame [of torn ?m] assms(1-3) by simp
  ultimately have "replay_segment (take n (frames (rs @ [torn]))) = Some (rs, False)"
    using replay_frames [of rs "take ?m (framed torn)"] assms(1) by simp
  then show ?thesis using ys by simp
qed

theorem ts_wal_torn_segment_hides_later_witness:
  "\<exists>w keep. rbind (tw_open [(1, take 9 (frames [hd ts_example]))]) (\<lambda>w. tw_run (map TwAppend ts_example @ [TwSync]) (w, 0)) = Inr (w, keep) \<and>
     tw_replay (tw_segs (tw_sync w)) = Some []"
proof -
  let ?o = "\<lparr>tw_segs = [(1, take 9 (frames [hd ts_example])), (2, [])], tw_buf = [], tw_seq = 2, tw_seg_bytes = 0\<rparr>"
  have o: "tw_open [(1, take 9 (frames [hd ts_example]))] = Inr ?o" by (simp add: tw_open_def create_segment_def)
  have "\<exists>w keep. tw_run (map TwAppend ts_example @ [TwSync]) (?o, 0) = Inr (w, keep)"
    by (simp add: ts_example_def tw_append_def ts_example_bytes SEGMENT_MAX_BYTES_def Let_def)
  then obtain w keep where r: "tw_run (map TwAppend ts_example @ [TwSync]) (?o, 0) = Inr (w, keep)" by blast
  have ok: "\<forall>r \<in> set ([] @ [hd ts_example]). record_ok r" using ts_example_ok by (simp add: ts_example_def)
  have len: "length (frames []) + 8 \<le> 9" "9 < length (frames ([] @ [hd ts_example]))"
    by (simp_all add: ts_example_def ts_example_bytes)
  have run: "rbind (tw_open [(1, take 9 (frames ([] @ [hd ts_example])))]) (\<lambda>w. tw_run (map TwAppend ts_example @ [TwSync]) (w, 0))
      = Inr (w, keep)" using o r by simp
  have "tw_replay (tw_segs (tw_sync w)) = Some []"
    by (rule ts_wal_torn_segment_hides_later [OF ok len _ _ run]) (auto simp: ts_example_def)
  then show ?thesis using o r by auto
qed

end
