(* ===== verification/Spec2Isabelle.thy ===== *)
theory Spec2Isabelle
  imports Read_Cache Group_Commit Engine_Run Ts_Wal
begin

text \<open>
  \<^bold>\<open>skaidb: a verification library for the storage core of the database.\<close>

  skaidb keeps every table and index in a log-structured storage engine (crate \<open>skaidb-storage\<close>). A
  write is stamped by a hybrid logical clock, appended to a write-ahead log and put in a memtable. A full
  memtable is frozen behind its own log segment and flushed to a sorted-string table; tables are merged
  by compaction, and a manifest names the live ones. A read asks the memtables, then a read cache, then
  the tables, newest first, each with a Bloom filter and a block cache; a scan merges all sources, the
  highest stamp winning. Flushes and compactions run inline or as jobs of a background thread (crates
  \<open>skaidb-engine\<close>, \<open>skaidb-cluster\<close>). Time series have a store of their own (crate \<open>skaidb-tsdb\<close>), of
  which the chunk codec and the sample log are modelled.

  \<^bold>\<open>Conventions.\<close> Bytes are \<open>8 word\<close>s and machine integers words of their width, so arithmetic wraps as
  in release builds; a \<open>usize\<close> that counts or indexes what is in memory is a natural number, its bound
  written out where a sum can reach it. A \<open>Result\<close> is a sum with \<open>Inl\<close> the error and \<open>rbind\<close> the question
  mark; code that may panic returns an option, \<open>None\<close> the panic. A \<open>BTreeMap\<close> is a key-sorted association
  list (\<open>bt_ok\<close>). Files are byte lists, a directory a map from names to them. The operations of the engine
  return an \<open>outcome\<close>: \<open>Done\<close>, \<open>Fail\<close> with the state the error leaves, \<open>Untracked\<close> when an error leaves a
  state that is not described, or \<open>Panic\<close>. Code that is not in the repository (LZ4, Brotli, AES-GCM, the
  two floating-point sizing formulas of the filter) is the record \<open>externals\<close>; \<open>codec_ok\<close>, \<open>aead_ok\<close> and
  \<open>sizing_ok\<close> state its documented behaviour and \<open>plain_externals\<close> is an instance. The wall clock, random
  bytes and failures of the stamps sidecar are arguments (\<open>engine_env\<close>).

  \<^bold>\<open>Theories and sources\<close> (paths below \<open>src/crates\<close>).
  \<^item> \<open>Prelude\<close>: byte layouts, results, the bounds-checked cursor with the interfaces \<open>cursor_view\<close> and
    \<open>cursor_codec\<close> of byte formats, ordered maps.
  \<^item> \<open>Hlc\<close> (\<open>skaidb-storage/src/hlc.rs\<close>): stamps and the clock; stamps of one clock increase strictly
    and the byte order of stamps is their order.
  \<^item> \<open>Memtable\<close> (\<open>memtable.rs\<close>): the multi-version write buffer; snapshot reads are exact, and so are range
    scans, which panic exactly on a memtable with an entry and a start above the end, as
    \<open>BTreeMap::range\<close> does.
  \<^item> \<open>Storage_Base\<close> (\<open>error.rs\<close>, \<open>crc.rs\<close>, \<open>compress.rs\<close>, \<open>crypto.rs\<close>): errors, checksum, codecs and key
    wrapping; the checksum detects every change of one byte and the envelope opens what it sealed.
  \<^item> \<open>Bloom\<close> (\<open>bloom.rs\<close>): no false negatives, through serialization.
  \<^item> \<open>Cache_Interface\<close>, \<open>Read_Cache\<close> (\<open>cache.rs\<close>): the contract of a cache and the sharded cache that meets
    it; a hit is the last answer recorded, and both budgets hold.
  \<^item> \<open>Wal\<close>, \<open>Group_Commit\<close> (\<open>wal.rs\<close>, \<open>posfile.rs\<close>): framing, encryption, rotation, truncation and
    replay of the log; reopening after any run returns the abstract log, a file cut at any byte its
    complete records, and the record appended after a torn one is sealed under the same key and nonce. Group commit is a step relation over any number of writers; a commit that has
    returned is durable in every interleaving, and no reachable state is stuck.
  \<^item> \<open>Manifest\<close> (\<open>engine.rs\<close>): manifest text and table names, and that they parse back.
  \<^item> \<open>Kway_Merge\<close> (\<open>engine.rs\<close>): the streaming merge computes last-writer-wins and ends.
  \<^item> \<open>Sstable\<close>, \<open>Sstable_Read\<close>, \<open>Sstable_Write\<close> (\<open>sstable.rs\<close>): table files, readers, iterators and the
    stamps sidecar. \<open>sst_holds\<close> says that an open table holds a sorted list; writing establishes it and
    every read answers from the list.
  \<^item> \<open>Engine\<close> (\<open>engine.rs\<close>): the state \<open>engine\<close> and every operation of the engine.
  \<^item> \<open>Engine_Read\<close>: \<open>eng_ok\<close> relates an engine to the contents of its sources; point reads, scans,
    ranges, pages and counts return what the sources hold; the range reads and counts inherit the panic
    of the memtables on inverted bounds (\<open>range_panics\<close>), a prefix scan never panics.
  \<^item> \<open>Engine_Files\<close>, \<open>Engine_Write\<close>, \<open>Engine_Compact\<close>, \<open>Engine_Correct\<close>: what flush, compaction and writes
    do to the sources and to the files (\<open>rep\<close>, \<open>refines\<close>).
  \<^item> \<open>Engine_Log\<close>: the log covers what is not in tables (\<open>log_ok\<close>), the manifest names the live tables.
  \<^item> \<open>Engine_Run\<close> (also \<open>skaidb-engine/src/exec.rs\<close>, \<open>skaidb-cluster/src/node.rs\<close>): the background
    thread's steps; any run interleaved with them behaves as a map, and reopening the files at any point
    of it gives the same map.
  \<^item> \<open>Ts_Bits\<close>, \<open>Ts_Chunk\<close> (\<open>skaidb-tsdb/src/bitstream.rs\<close>, \<open>chunk.rs\<close>): the bit stream with the interface
    \<open>bit_codec\<close>, and the chunk codec, which decodes to what was appended.
  \<^item> \<open>Ts_Codec\<close>, \<open>Ts_Wal\<close> (\<open>varenc.rs\<close>, \<open>wal.rs\<close>): varints, records, the table-driven checksum (equal to the
    bitwise one) and the sample log; what a run leaves is what replay returns, and a torn segment hides
    the later ones.

  \<^bold>\<open>Bounds.\<close> Every loop is structural or has a termination proof, the inline flush and cascade loops of the
  engine included; no fuel is used. The run properties are for fewer than
  \<open>2 ^ 29\<close> operations with entries below \<open>2 ^ 30\<close> bytes, so that the 64-bit sequence numbers, the log
  offsets and the 32-bit logical counter do not wrap, for engines on disk without encryption at rest and
  without expiry. The chunk round trip is for at most 65535 samples, the range of the chunk's count.

  \<^bold>\<open>Not modelled.\<close> Running out of memory, among it the panic of a buffer whose size is read from the footer
  or the index of a damaged table (the count of a record of the sample log is modelled, \<open>dec_vec\<close>);
  operating system failures, directory synchronization and the loss of unsynced pages
  (except in the log, where cuts at any byte are covered); the head, blocks and compaction of the
  time-series store; and the rest of the system, which only uses the storage core: values and their
  codecs, SQL, query execution, search, authentication, replication, the wire protocol and the server.
\<close>

end
